(* ===== verification/Prelude.thy ===== *)
theory Prelude
  imports Main "HOL-Library.Word" "HOL-Library.Monad_Syntax"
begin

text \<open>
  Shared material: the machine integer types of the C sources, the collections of rewrite
  rules the components fill, facts on words used as bit sets (the match masks of a group
  scan) and as sizes (powers of two used as masks), and the interface of an unbounded
  \<open>for (;;)\<close> loop as a step function and its iteration.

  The C code runs on an LP64 target: \<open>size_t\<close> and \<open>unsigned long\<close> have 64 bits,
  \<open>unsigned int\<close> has 32. A definition of the model that returns \<open>'a option\<close> returns
  \<open>None\<close> where the C program has no defined result: an access outside an allocated
  array, a read of storage that was never written, or a loop that does not end.
\<close>

unbundle bit_operations_syntax

type_synonym u8 = "8 word"
type_synonym u16 = "16 word"
type_synonym u32 = "32 word"
type_synonym u64 = "64 word"

named_theorems size_arith \<open>unsigned values of size computations that do not wrap\<close>
named_theorems mem_simps \<open>loads and stores on byte arrays\<close>
named_theorems view_simps \<open>slot, element and deletion-bit views of the bins\<close>

lemma option_eqI: "(\<And>r. x = Some r \<longleftrightarrow> y = Some r) \<Longrightarrow> x = y"
  by (cases x; cases y) auto

section \<open>Words as sizes\<close>

lemma unat_and_pow2_mask:
  fixes w :: "'a::len word"
  shows "unat (w AND (2 ^ k - 1)) = unat w mod 2 ^ k"
proof -
  have "w AND (2 ^ k - 1) = take_bit k w"
    by (simp only: take_bit_eq_mask mask_eq_exp_minus_1)
  then have "unat (w AND (2 ^ k - 1)) = take_bit k (unat w)"
    by (simp only: unsigned_take_bit_eq)
  then show ?thesis by (simp only: take_bit_eq_mod)
qed

lemma unat_pow2 [simp]:
  assumes "k < LENGTH('a)"
  shows "unat (2 ^ k :: 'a::len word) = 2 ^ k"
  using assms by transfer simp

lemma unat_of_nat_less [size_arith]:
  assumes "n < 2 ^ LENGTH('a)"
  shows "unat (of_nat n :: 'a::len word) = n"
  using assms by (simp add: unat_of_nat)

lemma unat_add_less [size_arith]:
  fixes a b :: "'a::len word"
  assumes "unat a + unat b < 2 ^ LENGTH('a)"
  shows "unat (a + b) = unat a + unat b"
  using assms by (simp add: unat_word_ariths)

lemma unat_mult_less [size_arith]:
  fixes a b :: "'a::len word"
  assumes "unat a * unat b < 2 ^ LENGTH('a)"
  shows "unat (a * b) = unat a * unat b"
  using assms by (simp add: unat_word_ariths)

lemma unat_succ_less:
  fixes a b :: "'a::len word"
  assumes "a < b"
  shows "unat (a + 1) = unat a + 1"
proof -
  have "unat b < 2 ^ LENGTH('a)" by simp
  then have "unat a + 1 < 2 ^ LENGTH('a)"
    using assms by (simp only: word_less_nat_alt)
  then show ?thesis by (subst unat_add_less) simp_all
qed

lemma word_eq_of_unat:
  fixes w :: "'a::len word"
  shows "unat w = n \<Longrightarrow> w = of_nat n"
  by auto

lemma least_pow2:
  fixes n :: nat
  shows "n \<le> 2 ^ m \<Longrightarrow> \<exists>k \<le> m. n \<le> 2 ^ k \<and> (k = 0 \<or> 2 ^ (k - 1) < n)"
proof (induction m)
  case 0
  then show ?case by auto
next
  case (Suc m)
  show ?case
  proof (cases "n \<le> 2 ^ m")
    case True
    then show ?thesis using Suc.IH by (meson le_SucI)
  next
    case False
    then show ?thesis using Suc.prems by (intro exI [of _ "Suc m"]) simp
  qed
qed

section \<open>Words as bit sets\<close>

text \<open>\<open>__builtin_ctzll\<close>: the number of trailing zero bits; C leaves it undefined at 0.\<close>

definition ctzll :: "u64 \<Rightarrow> nat" where
  "ctzll w = length (takeWhile (\<lambda>n. \<not> bit w n) [0..<64])"

text \<open>The positions of the set bits, least significant first.\<close>

definition bits_of :: "u64 \<Rightarrow> nat list" where
  "bits_of w = filter (bit w) [0..<64]"

lemma bits_of_0 [simp]: "bits_of 0 = []"
  by (simp add: bits_of_def)

lemma set_bits_of: "set (bits_of w) = {n. bit w n}"
  by (auto simp: bits_of_def dest: bit_imp_le_length)

lemma bits_of_eq_Nil: "bits_of w = [] \<longleftrightarrow> w = 0"
proof
  assume "bits_of w = []"
  then have "{n. bit w n} = {}" using set_bits_of [of w] by simp
  then show "w = 0" by (auto intro: bit_eqI)
qed simp

lemma upt_split_at: "m < k \<Longrightarrow> [0..<k] = [0..<m] @ m # [Suc m..<k]"
  using upt_add_eq_append [of 0 m "k - m"] by (simp add: upt_conv_Cons)

lemma takeWhile_upt_least:
  assumes "P m" and "m < k" and "\<And>n. n < m \<Longrightarrow> \<not> P n"
  shows "takeWhile (\<lambda>n. \<not> P n) [0..<k] = [0..<m]"
proof -
  have "[0..<k] = [0..<m] @ m # [Suc m..<k]"
    using assms(2) by (rule upt_split_at)
  moreover have "takeWhile (\<lambda>n. \<not> P n) ([0..<m] @ m # [Suc m..<k]) = [0..<m]"
    using assms by (subst takeWhile_append2) auto
  ultimately show ?thesis by simp
qed

lemma ctzll_props:
  assumes "w \<noteq> 0"
  shows "bit w (ctzll w)" and "ctzll w < 64" and "n < ctzll w \<Longrightarrow> \<not> bit w n"
proof -
  define m where "m = (LEAST n. bit w n)"
  obtain n0 where "bit w n0" using assms by (metis bits_of_eq_Nil set_bits_of empty_Collect_eq set_empty)
  then have m: "bit w m" and least: "\<And>n. n < m \<Longrightarrow> \<not> bit w n"
    by (auto simp: m_def intro: LeastI dest: not_less_Least)
  from m have lt: "m < 64" by (auto dest: bit_imp_le_length)
  have "ctzll w = m"
    using takeWhile_upt_least [of "bit w" m 64, OF m lt least] by (simp add: ctzll_def)
  then show "bit w (ctzll w)" "ctzll w < 64" "n < ctzll w \<Longrightarrow> \<not> bit w n"
    using m lt least by auto
qed

text \<open>\<open>m & (m - 1)\<close> clears the lowest set bit and no other.\<close>

lemma bit_and_pred:
  assumes "w \<noteq> (0 :: u64)"
  shows "bit (w AND (w - 1)) n \<longleftrightarrow> bit w n \<and> n \<noteq> ctzll w"
proof -
  define k where "k = ctzll w"
  define u where "u = unset_bit k w"
  note k = ctzll_props [OF assms, folded k_def]
  have "w = u + 2 ^ k"
  proof -
    have "u + 2 ^ k = u OR 2 ^ k"
      by (rule disjunctive_add_eq_or) (auto simp: bit_eq_iff bit_simps u_def)
    also have "\<dots> = w"
      using k(1,2) by (intro bit_word_eqI) (auto simp: bit_simps u_def)
    finally show ?thesis by simp
  qed
  then have "w - 1 = u + mask k" by (simp add: mask_eq_exp_minus_1)
  also have "\<dots> = u OR mask k"
    by (rule disjunctive_add_eq_or) (auto simp: bit_eq_iff bit_simps u_def dest: k(3))
  finally have "w - 1 = u OR mask k" .
  then show ?thesis
    by (auto simp: bit_simps u_def k_def [symmetric] dest: k(3))
qed

lemma and_pred_less:
  assumes "w \<noteq> (0 :: u64)"
  shows "unat (w AND (w - 1)) < unat w"
proof -
  have "w AND (w - 1) \<noteq> w"
    using bit_and_pred [OF assms, of "ctzll w"] ctzll_props(1) [OF assms] by auto
  moreover have "w AND (w - 1) \<le> w" by (rule word_and_le2)
  ultimately have "w AND (w - 1) < w" by simp
  then show ?thesis by (simp add: word_less_nat_alt)
qed

lemma bits_of_Cons:
  assumes "w \<noteq> 0"
  shows "bits_of w = ctzll w # bits_of (w AND (w - 1))"
proof -
  let ?k = "ctzll w"
  note k = ctzll_props [OF assms]
  have split: "[0..<64] = [0..<?k] @ ?k # [Suc ?k..<64]"
    using k(2) by (rule upt_split_at)
  have "filter (bit w) [0..<?k] = []" using k(3) by (simp add: filter_empty_conv)
  moreover have "filter (bit (w AND (w - 1))) [0..<?k] = []"
    using k(3) by (auto simp: filter_empty_conv bit_and_pred [OF assms])
  moreover have "filter (bit (w AND (w - 1))) [Suc ?k..<64] = filter (bit w) [Suc ?k..<64]"
    by (rule filter_cong) (auto simp: bit_and_pred [OF assms])
  ultimately show ?thesis
    using k(1) by (simp add: bits_of_def split bit_and_pred [OF assms])
qed

section \<open>Unbounded loops\<close>

text \<open>
  A \<open>for (;;)\<close> loop is a step on the loop variables that either goes on (\<open>Inl\<close>) or
  returns (\<open>Inr\<close>), and a function that iterates it. The interface asks for the unfolding
  equation only, which \<open>partial_function\<close> gives; its lemmas turn a run of steps into the
  loop's result.
\<close>

locale step_loop =
  fixes step :: "'c \<Rightarrow> 's \<Rightarrow> ('s + 'r) option"
    and loop :: "'c \<Rightarrow> 's \<Rightarrow> 'r option"
  assumes loop_unfold:
    "loop c s = (case step c s of None \<Rightarrow> None | Some (Inl s') \<Rightarrow> loop c s' | Some (Inr r) \<Rightarrow> Some r)"
begin

lemma run_to_result:
  assumes "\<And>d. d < k \<Longrightarrow> step c (\<sigma> d) = Some (Inl (\<sigma> (Suc d)))"
    and "step c (\<sigma> k) = Some (Inr r)"
  shows "loop c (\<sigma> 0) = Some r"
  using assms
proof (induction k arbitrary: \<sigma>)
  case 0
  then show ?case by (simp add: loop_unfold [of c "\<sigma> 0"])
next
  case (Suc k)
  have "loop c (\<sigma> (Suc 0)) = Some r"
    by (rule Suc.IH [of "\<lambda>d. \<sigma> (Suc d)"]) (use Suc.prems in auto)
  then show ?case using Suc.prems(1) [of 0] by (simp add: loop_unfold [of c "\<sigma> 0"])
qed

end

end
