(* ===== verification/Memory.thy ===== *)
theory Memory
  imports Prelude
begin

text \<open>
  The arrays the tables allocate. A byte array from \<open>aligned_alloc\<close> is a list of cells,
  \<open>None\<close> until the cell is written; an element array from \<open>malloc\<close> is a list of
  optional elements in the same way; the deletion bitmap comes from \<open>calloc\<close> and is a
  list of bytes. Every access is checked: outside the array, or at a cell that was never
  written, the result is \<open>None\<close>. A freed array is the empty list, so that a use after
  \<open>free\<close> is an access outside the array. Multi-byte values are little-endian, as on the
  x86 and AArch64 targets of the SIMD paths.
\<close>

type_synonym cells = "u8 option list"

section \<open>Bytes and words\<close>

primrec le_word :: "u8 list \<Rightarrow> 'w::len word" where
  "le_word [] = 0"
| "le_word (b # bs) = ucast b OR push_bit 8 (le_word bs)"

definition le_bytes :: "'w::len word \<Rightarrow> u8 list" where
  "le_bytes w = map (\<lambda>i. ucast (drop_bit (8 * i) w)) [0..<LENGTH('w) div 8]"

lemma length_le_bytes [simp]: "length (le_bytes (w :: 'w::len word)) = LENGTH('w) div 8"
  by (simp add: le_bytes_def)

lemma bit_le_word:
  "bit (le_word bs :: 'w::len word) n \<longleftrightarrow>
     n < LENGTH('w) \<and> n div 8 < length bs \<and> bit (bs ! (n div 8)) (n mod 8)"
proof (induction bs arbitrary: n)
  case Nil
  then show ?case by simp
next
  case (Cons b bs)
  show ?case
  proof (cases "n < 8")
    case True
    then show ?thesis by (auto simp: bit_simps)
  next
    case False
    then have "n div 8 = Suc ((n - 8) div 8)" and "n mod 8 = (n - 8) mod 8"
      by (simp_all add: le_div_geq le_mod_geq)
    moreover have "\<not> bit (ucast b :: 'w word) n"
      using False by (auto simp: bit_simps dest: bit_imp_le_length)
    ultimately show ?thesis using False Cons.IH [of "n - 8"] by (auto simp: bit_simps)
  qed
qed

lemma bit_le_bytes_nth:
  "i < LENGTH('w) div 8 \<Longrightarrow> bit (le_bytes (w :: 'w::len word) ! i) n \<longleftrightarrow> n < 8 \<and> bit w (8 * i + n)"
  by (auto simp: le_bytes_def bit_simps ac_simps)

lemma le_bytes_le_word:
  assumes "length bs = LENGTH('w) div 8"
  shows "le_bytes (le_word bs :: 'w::len word) = bs"
proof (rule nth_equalityI)
  fix i
  assume "i < length (le_bytes (le_word bs :: 'w word))"
  then have i: "i < LENGTH('w) div 8" by simp
  show "le_bytes (le_word bs :: 'w word) ! i = bs ! i"
  proof (rule bit_word_eqI)
    fix n
    assume n: "n < LENGTH(8)"
    have "Suc i \<le> LENGTH('w) div 8" using i by simp
    then have "8 * Suc i \<le> LENGTH('w)" by (simp add: less_eq_div_iff_mult_less_eq mult.commute)
    then show "bit (le_bytes (le_word bs :: 'w word) ! i) n \<longleftrightarrow> bit (bs ! i) n"
      using i n assms by (simp add: bit_le_bytes_nth bit_le_word)
  qed
qed (simp add: assms)

lemma le_word_le_bytes:
  assumes "8 dvd LENGTH('w)"
  shows "le_word (le_bytes w) = (w :: 'w::len word)"
proof (rule bit_word_eqI)
  fix n assume n: "n < LENGTH('w)"
  then have "n div 8 < LENGTH('w) div 8"
    using assms by (metis div_less_mono zero_less_numeral dvd_imp_mod_0 less_mult_imp_div_less
        dvd_mult_div_cancel mult.commute)
  then show "bit (le_word (le_bytes w) :: 'w word) n \<longleftrightarrow> bit w n"
    using n by (simp add: bit_le_word bit_le_bytes_nth)
qed

text \<open>Byte \<open>i\<close> of a 64-bit group word, and its agreement with the bytes it was loaded from.\<close>

definition lane :: "u64 \<Rightarrow> nat \<Rightarrow> u8" where
  "lane g i = ucast (drop_bit (8 * i) g)"

lemma bit_lane: "bit (lane g i) n \<longleftrightarrow> n < 8 \<and> bit g (8 * i + n)"
  by (auto simp: lane_def bit_simps ac_simps)

lemma lane_le_word:
  assumes "i < length bs" and "i < 8"
  shows "lane (le_word bs) i = bs ! i"
proof (rule bit_word_eqI)
  fix n assume "n < LENGTH(8)"
  then have n: "n < 8" by simp
  then have "(8 * i + n) div 8 = i" "(8 * i + n) mod 8 = n" "8 * i + n < 64" using assms(2) by auto
  then show "bit (lane (le_word bs) i) n \<longleftrightarrow> bit (bs ! i) n"
    using assms n by (simp add: bit_lane bit_le_word)
qed

section \<open>Byte arrays\<close>

definition load_bytes :: "cells \<Rightarrow> nat \<Rightarrow> nat \<Rightarrow> u8 list option" where
  "load_bytes m a k = (if a + k \<le> length m then those (take k (drop a m)) else None)"

definition store_bytes :: "cells \<Rightarrow> nat \<Rightarrow> u8 list \<Rightarrow> cells option" where
  "store_bytes m a bs =
     (if a + length bs \<le> length m
      then Some (take a m @ map Some bs @ drop (a + length bs) m) else None)"

definition load_word :: "cells \<Rightarrow> nat \<Rightarrow> 'w::len word option" where
  "load_word m a = map_option le_word (load_bytes m a (LENGTH('w) div 8))"

definition store_word :: "cells \<Rightarrow> nat \<Rightarrow> 'w::len word \<Rightarrow> cells option" where
  "store_word m a w = store_bytes m a (le_bytes w)"

lemma those_eq_Some_iff:
  "those xs = Some ys \<longleftrightarrow> length ys = length xs \<and> (\<forall>i < length xs. xs ! i = Some (ys ! i))"
proof (induction xs arbitrary: ys)
  case Nil
  then show ?case by auto
next
  case (Cons x xs)
  show ?case
    by (cases ys) (auto simp: Cons.IH All_less_Suc2 split: option.splits)
qed

lemma load_bytes_eq_Some_iff [mem_simps]:
  "load_bytes m a k = Some bs \<longleftrightarrow>
     a + k \<le> length m \<and> length bs = k \<and> (\<forall>i < k. m ! (a + i) = Some (bs ! i))"
  by (auto simp: load_bytes_def those_eq_Some_iff)

lemma store_bytes_props:
  assumes "store_bytes m a bs = Some m'"
  shows "length m' = length m"
    and "j < length m \<Longrightarrow>
      m' ! j = (if a \<le> j \<and> j < a + length bs then Some (bs ! (j - a)) else m ! j)"
  using assms by (auto simp: store_bytes_def nth_append split: if_splits)

lemma store_bytes_defined [mem_simps]:
  "a + length bs \<le> length m \<Longrightarrow> \<exists>m'. store_bytes m a bs = Some m'"
  by (simp add: store_bytes_def)

lemma load_store_bytes_same:
  assumes "store_bytes m a bs = Some m'" and "k = length bs"
  shows "load_bytes m' a k = Some bs"
  using assms store_bytes_props [OF assms(1)]
  by (auto simp: load_bytes_eq_Some_iff store_bytes_def split: if_splits)

lemma load_store_bytes_other:
  assumes "store_bytes m a bs = Some m'" and "c + k \<le> a \<or> a + length bs \<le> c"
  shows "load_bytes m' c k = load_bytes m c k"
proof -
  have "take k (drop c m') = take k (drop c m)" if "c + k \<le> length m"
    using that assms(2) store_bytes_props [OF assms(1)]
    by (auto intro!: nth_equalityI)
  then show ?thesis using store_bytes_props(1) [OF assms(1)] by (simp add: load_bytes_def)
qed

lemma load_store_word_same:
  assumes "store_word m a w = Some m'" and "8 dvd LENGTH('w)"
  shows "load_word m' a = Some (w :: 'w::len word)"
  using load_store_bytes_same [OF assms(1) [unfolded store_word_def]] assms(2)
  by (simp add: load_word_def le_word_le_bytes)

lemma load_store_word_other:
  assumes "store_word m a (w :: 'w::len word) = Some m'"
    and "c + LENGTH('v) div 8 \<le> a \<or> a + LENGTH('w) div 8 \<le> c"
  shows "(load_word m' c :: 'v::len word option) = load_word m c"
  using load_store_bytes_other [OF assms(1) [unfolded store_word_def]] assms(2)
  by (simp add: load_word_def)

text \<open>
  \<open>for (i = ...) memset (p + base (i), c, k)\<close>: the same run of bytes at several offsets.
\<close>

primrec memset_each :: "(nat \<Rightarrow> nat) \<Rightarrow> nat \<Rightarrow> u8 \<Rightarrow> nat list \<Rightarrow> cells \<Rightarrow> cells option" where
  "memset_each base k c [] m = Some m"
| "memset_each base k c (i # is) m =
     do {
       m \<leftarrow> store_bytes m (base i) (replicate k c);
       memset_each base k c is m
     }"

lemma memset_each_cong:
  "(\<And>i. i \<in> set is \<Longrightarrow> f i = g i) \<Longrightarrow> memset_each f k c is m = memset_each g k c is m"
  by (induction "is" arbitrary: m) (simp_all split: Option.bind_split)

lemma memset_each_props:
  assumes "\<And>i. i \<in> set is \<Longrightarrow> base i + k \<le> length m"
  shows "\<exists>m'. memset_each base k c is m = Some m' \<and> length m' = length m \<and>
    (\<forall>j < length m. m' ! j =
      (if \<exists>i \<in> set is. base i \<le> j \<and> j < base i + k then Some c else m ! j))"
  using assms
proof (induction "is" arbitrary: m)
  case Nil
  then show ?case by simp
next
  case (Cons i "is")
  obtain m1 where m1: "store_bytes m (base i) (replicate k c) = Some m1"
    using Cons.prems by (auto simp: store_bytes_def)
  note p = store_bytes_props [OF m1]
  obtain m' where "memset_each base k c is m1 = Some m'" "length m' = length m1"
      "\<forall>j < length m1. m' ! j =
        (if \<exists>i \<in> set is. base i \<le> j \<and> j < base i + k then Some c else m1 ! j)"
    using Cons.IH [of m1] Cons.prems p(1) by auto
  then show ?case using m1 p by auto
qed

section \<open>Element arrays\<close>

definition read_el :: "'e option list \<Rightarrow> nat \<Rightarrow> 'e option" where
  "read_el xs i = (if i < length xs then xs ! i else None)"

definition write_el :: "'e option list \<Rightarrow> nat \<Rightarrow> 'e \<Rightarrow> 'e option list option" where
  "write_el xs i e = (if i < length xs then Some (xs[i := Some e]) else None)"

lemma read_write_el:
  "write_el xs i e = Some ys \<Longrightarrow> read_el ys j = (if j = i then Some e else read_el xs j)"
  by (auto simp: write_el_def read_el_def split: if_splits)

lemma length_write_el: "write_el xs i e = Some ys \<Longrightarrow> length ys = length xs"
  by (auto simp: write_el_def split: if_splits)

text \<open>\<open>realloc\<close> to \<open>n\<close> cells keeps the contents and leaves new cells unset.\<close>

definition realloc_els :: "'e option list \<Rightarrow> nat \<Rightarrow> 'e option list" where
  "realloc_els xs n = take n xs @ replicate (n - length xs) None"

lemma length_realloc_els [simp]: "length (realloc_els xs n) = n"
  by (simp add: realloc_els_def)

lemma read_realloc_els: "read_el (realloc_els xs n) i = (if i < n then read_el xs i else None)"
  by (auto simp: realloc_els_def read_el_def nth_append)

section \<open>Deletion bitmaps\<close>

text \<open>\<open>deleted[i / 8] & (1 << (i % 8))\<close> and \<open>deleted[i / 8] |= 1 << (i % 8)\<close>.\<close>

definition del_test :: "u8 list \<Rightarrow> nat \<Rightarrow> bool option" where
  "del_test d i =
     (if i div 8 < length d then Some (d ! (i div 8) AND push_bit (i mod 8) 1 \<noteq> 0) else None)"

definition del_set :: "u8 list \<Rightarrow> nat \<Rightarrow> u8 list option" where
  "del_set d i =
     (if i div 8 < length d
      then Some (d[i div 8 := d ! (i div 8) OR push_bit (i mod 8) 1]) else None)"

text \<open>The set of positions marked deleted; outside the bitmap nothing is marked.\<close>

definition del_bit :: "u8 list \<Rightarrow> nat \<Rightarrow> bool" where
  "del_bit d i \<longleftrightarrow> i div 8 < length d \<and> bit (d ! (i div 8)) (i mod 8)"

lemma del_test_eq: "del_test d i = (if i div 8 < length d then Some (del_bit d i) else None)"
  by (simp add: del_test_def del_bit_def and_exp_eq_0_iff_not_bit)

lemma del_set_props:
  assumes "del_set d i = Some d'"
  shows "length d' = length d" and "del_bit d' j \<longleftrightarrow> j = i \<or> del_bit d j"
proof -
  from assms show "length d' = length d" by (auto simp: del_set_def split: if_splits)
  have eq: "j div 8 = i div 8 \<and> j mod 8 = i mod 8 \<longleftrightarrow> j = i" by (metis div_mod_decomp)
  from assms show "del_bit d' j \<longleftrightarrow> j = i \<or> del_bit d j"
    using eq by (cases "j div 8 = i div 8") (auto simp: del_set_def del_bit_def bit_simps split: if_splits)
qed

lemma del_bit_zeros [simp]: "\<not> del_bit (replicate k 0) i"
  by (simp add: del_bit_def)

end
