(* ===== verification/Group_Match.thy ===== *)
theory Group_Match
  imports Memory
begin

text \<open>
  Scanning one group of eight tag bytes. The headers select one of three implementations
  at compile time: SSE2, NEON, or SWAR arithmetic on a 64-bit word. This theory holds the
  intrinsics they use (with the vendor's documented meaning, on 128-bit words and on lists
  of eight byte lanes), the word arithmetic behind the SWAR version, and the interface
  \<open>group_engine\<close> that the probing loops rely on: the list of slots a match mask makes the
  inner loop visit, and the list of empty slots. The tables' own \<open>match_mask\<close> and
  \<open>match_empty\<close> functions interpret it in their theories.
\<close>

datatype platform = X86_SSE2 | AARCH64_NEON | SWAR

text \<open>The group register type of each platform (\<open>__m128i\<close> or \<open>uint64_t\<close>).\<close>

datatype group_t = SSE2_group "128 word" | NEON_group u64 | SWAR_group u64

section \<open>Intrinsics\<close>

definition mm_cvtsi64_si128 :: "u64 \<Rightarrow> 128 word" where
  "mm_cvtsi64_si128 x = ucast x"

definition mm_set1_epi8 :: "u8 \<Rightarrow> 128 word" where
  "mm_set1_epi8 c = le_word (replicate 16 c)"

definition mm_cmpeq_epi8 :: "128 word \<Rightarrow> 128 word \<Rightarrow> 128 word" where
  "mm_cmpeq_epi8 a b = le_word (map2 (\<lambda>x y. if x = y then - 1 else 0) (le_bytes a) (le_bytes b))"

definition mm_and_si128 :: "128 word \<Rightarrow> 128 word \<Rightarrow> 128 word" where
  "mm_and_si128 a b = a AND b"

definition mm_slli_epi64 :: "128 word \<Rightarrow> nat \<Rightarrow> 128 word" where
  "mm_slli_epi64 a k =
     ucast (push_bit k (ucast a :: u64)) OR push_bit 64 (ucast (push_bit k (ucast (drop_bit 64 a) :: u64)))"

definition mm_movemask_epi8 :: "128 word \<Rightarrow> u32" where
  "mm_movemask_epi8 a = horner_sum of_bool 2 (map (\<lambda>i. bit a (8 * i + 7)) [0..<16])"

definition vcreate_u8 :: "u64 \<Rightarrow> u8 list" where
  "vcreate_u8 g = le_bytes g"

definition vdup_n_u8 :: "u8 \<Rightarrow> u8 list" where
  "vdup_n_u8 c = replicate 8 c"

definition vceq_u8 :: "u8 list \<Rightarrow> u8 list \<Rightarrow> u8 list" where
  "vceq_u8 a b = map2 (\<lambda>x y. if x = y then - 1 else 0) a b"

definition vand_u8 :: "u8 list \<Rightarrow> u8 list \<Rightarrow> u8 list" where
  "vand_u8 a b = map2 (AND) a b"

definition vaddv_u8 :: "u8 list \<Rightarrow> u8" where
  "vaddv_u8 a = sum_list a"

section \<open>SSE2\<close>

lemma bit_movemask: "bit (mm_movemask_epi8 a) n \<longleftrightarrow> n < 16 \<and> bit a (8 * n + 7)"
  by (auto simp: mm_movemask_epi8_def bit_horner_sum_bit_word_iff)

lemma bit_0xff: "bit (0xff :: 'a::len word) n \<longleftrightarrow> n < 8 \<and> n < LENGTH('a)"
proof -
  have "(0xff :: 'a word) = mask 8" by (simp add: mask_eq_exp_minus_1)
  then show ?thesis by (simp only: bit_mask_iff) auto
qed

lemma bit_all_ones_byte: "bit (if x = y then - 1 else 0 :: u8) n \<longleftrightarrow> n < 8 \<and> x = y"
  by auto

lemma bit_cmpeq_top:
  assumes "n < 16"
  shows "bit (mm_cmpeq_epi8 a b) (8 * n + 7) \<longleftrightarrow> le_bytes a ! n = le_bytes b ! n"
proof -
  have "(8 * n + 7) div 8 = n" "(8 * n + 7) mod 8 = 7" by auto
  then show ?thesis using assms by (simp add: mm_cmpeq_epi8_def bit_le_word)
qed

lemma le_bytes_set1: "n < 16 \<Longrightarrow> le_bytes (mm_set1_epi8 c) ! n = c"
  by (rule bit_word_eqI) (simp add: bit_le_bytes_nth mm_set1_epi8_def bit_le_word)

lemma le_bytes_cvtsi64: "n < 8 \<Longrightarrow> le_bytes (mm_cvtsi64_si128 g) ! n = lane g n"
  by (rule bit_word_eqI) (simp add: bit_le_bytes_nth mm_cvtsi64_si128_def bit_lane bit_simps)

lemma sse2_match_bit:
  "bit (ucast (mm_movemask_epi8 (mm_cmpeq_epi8 (mm_cvtsi64_si128 g) (mm_set1_epi8 c))) AND 0xff :: u64) n
   \<longleftrightarrow> n < 8 \<and> lane g n = c"
  unfolding bit_and_iff bit_0xff
  by (auto simp: bit_simps bit_movemask bit_cmpeq_top le_bytes_set1 le_bytes_cvtsi64)

lemma sse2_top_bits:
  "bit (ucast (mm_movemask_epi8 (mm_and_si128 a b)) AND 0xff :: u64) n \<longleftrightarrow>
     n < 8 \<and> bit a (8 * n + 7) \<and> bit b (8 * n + 7)"
  unfolding bit_and_iff bit_0xff
  by (auto simp: bit_simps bit_movemask mm_and_si128_def)

lemma bit_slli_cvtsi64:
  "n < 64 \<Longrightarrow> bit (mm_slli_epi64 (mm_cvtsi64_si128 g) 1) n \<longleftrightarrow> 1 \<le> n \<and> bit g (n - 1)"
  by (auto simp: mm_slli_epi64_def mm_cvtsi64_si128_def bit_simps simp del: push_bit_Suc push_bit_of_1
      push_bit_numeral)

section \<open>NEON\<close>

lemma select_lane: "(if p then - 1 else 0 :: u8) AND k = of_bool p * k"
  by simp

lemma neon_sum_as_bits:
  "vaddv_u8 (vand_u8 (map (\<lambda>p. if p then - 1 else 0) [p0, p1, p2, p3, p4, p5, p6, p7])
     [1, 2, 4, 8, 16, 32, 64, 128])
   = horner_sum of_bool 2 [p0, p1, p2, p3, p4, p5, p6, p7]"
  unfolding vaddv_u8_def vand_u8_def list.map zip_Cons_Cons prod.case select_lane sum_list.Cons
    horner_sum_simps
  by (simp add: algebra_simps)

lemma list_of_lanes: "le_bytes g = map (lane g) [0..<8]"
  by (simp add: le_bytes_def lane_def)

lemma upt_8: "[0..<8] = [0, 1, 2, 3, 4, 5, 6, 7]"
  by (simp add: upt_rec)

lemma neon_match_bit:
  "bit (ucast (vaddv_u8 (vand_u8 (vceq_u8 (vcreate_u8 g) (vdup_n_u8 c)) [1, 2, 4, 8, 16, 32, 64, 128])) :: u64) n
   \<longleftrightarrow> n < 8 \<and> lane g n = c"
proof -
  define ps where "ps = map (\<lambda>i. lane g i = c) [0..<8]"
  have "vceq_u8 (vcreate_u8 g) (vdup_n_u8 c) = map (\<lambda>p. if p then - 1 else 0) ps"
    by (rule nth_equalityI)
      (auto simp: vceq_u8_def vcreate_u8_def vdup_n_u8_def list_of_lanes ps_def)
  moreover have "vaddv_u8 (vand_u8 (map (\<lambda>p. if p then - 1 else 0) ps) [1, 2, 4, 8, 16, 32, 64, 128])
      = horner_sum of_bool 2 ps"
    unfolding ps_def upt_8 list.map by (rule neon_sum_as_bits [unfolded list.map])
  ultimately have "vaddv_u8 (vand_u8 (vceq_u8 (vcreate_u8 g) (vdup_n_u8 c)) [1, 2, 4, 8, 16, 32, 64, 128])
      = horner_sum of_bool 2 ps"
    by simp
  then show ?thesis
    by (auto simp: bit_simps bit_horner_sum_bit_word_iff ps_def)
qed

section \<open>SWAR\<close>

definition SWAR_LSB :: u64 where "SWAR_LSB = 0x0101010101010101"

definition SWAR_MSB :: u64 where "SWAR_MSB = 0x8080808080808080"

lemma le_word_Cons_add: "le_word (b # bs) = (ucast b + 256 * le_word bs :: 'w::len word)"
proof -
  have "ucast b OR push_bit 8 (le_word bs) = ucast b + push_bit 8 (le_word bs :: 'w word)"
    by (rule disjunctive_add_eq_or [symmetric])
      (auto simp: bit_eq_iff bit_simps dest: bit_imp_le_length)
  then show ?thesis by (simp add: push_bit_eq_mult)
qed

lemma replicate_8: "replicate 8 x = [x, x, x, x, x, x, x, x]"
  by (simp add: numeral_eq_Suc)

lemma swar_broadcast: "SWAR_LSB * ucast h = le_word (replicate 8 h)"
  unfolding SWAR_LSB_def replicate_8 by (simp add: le_word_Cons_add del: le_word.simps(2))

lemma lane_swar_cmp: "i < 8 \<Longrightarrow> lane (g XOR (SWAR_LSB * ucast h)) i = lane g i XOR h"
  using lane_le_word [of i "replicate 8 h"]
  by (intro bit_word_eqI) (simp add: bit_lane bit_simps swar_broadcast bit_le_word)

lemma SWAR_LSB_bytes: "SWAR_LSB = le_word (replicate 8 1)"
  using swar_broadcast [of 1] by simp

lemma SWAR_MSB_bytes: "SWAR_MSB = le_word (replicate 8 128)"
proof -
  have "SWAR_MSB = SWAR_LSB * ucast (128 :: u8)" by (simp add: SWAR_MSB_def SWAR_LSB_def)
  then show ?thesis by (simp only: swar_broadcast)
qed

lemma bit_SWAR_MSB: "bit SWAR_MSB n \<longleftrightarrow> n < 64 \<and> n mod 8 = 7"
proof -
  have "bit (128 :: u8) m \<longleftrightarrow> m = 7" if "m < 8" for m
    using that bit_exp_iff [of 7 m, where ?'a = u8] by simp
  then show ?thesis by (auto simp: SWAR_MSB_bytes bit_le_word)
qed

lemma bit_SWAR_LSB: "bit SWAR_LSB n \<longleftrightarrow> n < 64 \<and> n mod 8 = 0"
  by (auto simp: SWAR_LSB_bytes bit_le_word bit_1_iff)

text \<open>
  The top bit of a subtraction under two clear top bits is the borrow: it is set exactly
  where the low part of the minuend is below the low part of the subtrahend.
\<close>

lemma bit_iff_low_part:
  fixes w :: "'a::len word"
  assumes "n < LENGTH('a)"
  shows "bit w n \<longleftrightarrow> 2 ^ n \<le> unat w mod 2 ^ Suc n"
proof -
  have "bit w n \<longleftrightarrow> odd (unat w div 2 ^ n)"
    using assms by (simp add: bit_unsigned_iff flip: bit_iff_odd [of "unat w"])
  also have "\<dots> \<longleftrightarrow> 2 ^ n \<le> unat w mod 2 ^ Suc n"
  proof -
    have "unat w mod 2 ^ Suc n = 2 ^ n * (unat w div 2 ^ n mod 2) + unat w mod 2 ^ n"
      by (simp add: mod_mult2_eq mult.commute [of 2])
    moreover have "unat w mod 2 ^ n < 2 ^ n" by simp
    ultimately show ?thesis
      by (cases "odd (unat w div 2 ^ n)") (simp_all add: odd_iff_mod_2_eq_one not_le)
  qed
  finally show ?thesis .
qed

lemma unat_diff_low_part:
  fixes c l :: "'a::len word"
  assumes "k \<le> LENGTH('a)"
  shows "unat (c - l) mod 2 ^ k = (unat c mod 2 ^ k + (2 ^ k - unat l mod 2 ^ k)) mod 2 ^ k"
proof -
  have "(unat (c - l) + unat l) mod 2 ^ LENGTH('a) = unat c mod 2 ^ LENGTH('a)"
    using unat_word_ariths(1) [of "c - l" l] by simp
  then have "(unat (c - l) + unat l) mod 2 ^ LENGTH('a) mod 2 ^ k = unat c mod 2 ^ LENGTH('a) mod 2 ^ k"
    by (rule arg_cong)
  then have low: "(unat (c - l) + unat l) mod 2 ^ k = unat c mod 2 ^ k"
    by (simp only: mod_mod_cancel [OF le_imp_power_dvd [OF assms]])
  have "(unat c mod 2 ^ k + (2 ^ k - unat l mod 2 ^ k)) mod 2 ^ k
      = (unat (c - l) + (unat l + (2 ^ k - unat l mod 2 ^ k))) mod 2 ^ k"
    unfolding low [symmetric] by (simp only: mod_add_left_eq add.assoc)
  also have "unat l + (2 ^ k - unat l mod 2 ^ k) = 2 ^ k * Suc (unat l div 2 ^ k)"
  proof -
    define q r where "q = 2 ^ k * (unat l div 2 ^ k)" and "r = unat l mod 2 ^ k"
    have "unat l = q + r" unfolding q_def r_def by (rule mult_div_mod_eq [symmetric])
    moreover have "r \<le> 2 ^ k" by (simp add: r_def less_imp_le)
    moreover have "2 ^ k * Suc (unat l div 2 ^ k) = 2 ^ k + q" by (simp add: q_def)
    ultimately show ?thesis unfolding r_def [symmetric] by linarith
  qed
  finally show ?thesis by (simp only: mod_mult_self2)
qed

lemma borrow_bit:
  fixes c l :: "'a::len word"
  assumes n: "n < LENGTH('a)" and l: "\<not> bit l n"
  shows "bit (c - l) n \<and> \<not> bit c n \<longleftrightarrow> unat c mod 2 ^ Suc n < unat l mod 2 ^ Suc n"
proof -
  let ?c = "unat c mod 2 ^ Suc n" and ?l = "unat l mod 2 ^ Suc n"
  have l': "?l < 2 ^ n" using l n by (simp add: bit_iff_low_part)
  have d: "unat (c - l) mod 2 ^ Suc n = (?c + (2 ^ Suc n - ?l)) mod 2 ^ Suc n"
    by (rule unat_diff_low_part) (use n in simp)
  have c': "?c < 2 ^ Suc n" by simp
  show ?thesis
  proof (cases "?l \<le> ?c")
    case True
    then have "?c + (2 ^ Suc n - ?l) = (?c - ?l) + 2 ^ Suc n" using l' by simp
    then have "unat (c - l) mod 2 ^ Suc n = ?c - ?l"
      using d c' by (simp only: mod_add_self2) (simp add: less_imp_diff_less)
    then show ?thesis using True l' n by (auto simp: bit_iff_low_part)
  next
    case False
    then have "?c + (2 ^ Suc n - ?l) < 2 ^ Suc n" using l' by simp
    then have "unat (c - l) mod 2 ^ Suc n = ?c + (2 ^ Suc n - ?l)"
      using d by (simp only: mod_less)
    then show ?thesis using False l' n by (auto simp: bit_iff_low_part)
  qed
qed

lemma swar_zero_byte_bit:
  "bit ((c - SWAR_LSB) AND NOT c AND SWAR_MSB) n \<longleftrightarrow>
     n < 64 \<and> n mod 8 = 7 \<and> unat c mod 2 ^ Suc n < unat SWAR_LSB mod 2 ^ Suc n"
proof -
  have "bit ((c - SWAR_LSB) AND NOT c AND SWAR_MSB) n \<longleftrightarrow>
      n < 64 \<and> n mod 8 = 7 \<and> bit (c - SWAR_LSB) n \<and> \<not> bit c n"
    by (auto simp: bit_simps bit_SWAR_MSB)
  also have "\<dots> \<longleftrightarrow> n < 64 \<and> n mod 8 = 7 \<and> unat c mod 2 ^ Suc n < unat SWAR_LSB mod 2 ^ Suc n"
    using borrow_bit [of n SWAR_LSB c] by (auto simp: bit_SWAR_LSB)
  finally show ?thesis .
qed

text \<open>Whether the SWAR match mask has slot \<open>i\<close>: a borrow out of byte \<open>i\<close> of the comparison word.\<close>

definition swar_hit :: "u64 \<Rightarrow> nat \<Rightarrow> bool" where
  "swar_hit c i \<longleftrightarrow> unat c mod 2 ^ (8 * i + 8) < unat SWAR_LSB mod 2 ^ (8 * i + 8)"

lemma unat_lane: "unat (lane c i) = unat c div 2 ^ (8 * i) mod 256"
  unfolding lane_def unsigned_ucast_eq unat_drop_bit_eq
  by (simp add: take_bit_eq_mod drop_bit_eq_div)

lemma low_part_lane:
  "unat c mod 2 ^ (8 * i + 8) = 2 ^ (8 * i) * unat (lane c i) + unat c mod 2 ^ (8 * i)"
  using mod_mult2_eq [of "unat c" "2 ^ (8 * i)" 256] by (simp add: unat_lane power_add)

lemma lane_SWAR_LSB: "i < 8 \<Longrightarrow> lane SWAR_LSB i = 1"
  using lane_le_word [of i "replicate 8 1"] by (simp add: SWAR_LSB_bytes)

lemma swar_hit_iff:
  assumes "i < 8"
  shows "swar_hit c i \<longleftrightarrow> lane c i = 0 \<or> lane c i = 1 \<and> 0 < i \<and> swar_hit c (i - 1)"
proof -
  define p where "p = (2 ^ (8 * i) :: nat)"
  define a l where "a = unat c mod p" and "l = unat SWAR_LSB mod p"
  have bounds: "a < p" "l < p" by (simp_all add: a_def l_def p_def)
  have hit: "swar_hit c i \<longleftrightarrow> p * unat (lane c i) + a < p + l"
    using low_part_lane [of SWAR_LSB i] lane_SWAR_LSB [OF assms]
    by (simp add: swar_hit_def low_part_lane a_def l_def p_def)
  have below: "0 < i \<and> swar_hit c (i - 1) \<longleftrightarrow> a < l"
  proof (cases i)
    case 0
    then show ?thesis by (simp add: a_def l_def p_def)
  next
    case (Suc j)
    then have "8 * (i - 1) + 8 = 8 * i" by simp
    then have "swar_hit c (i - 1) \<longleftrightarrow> a < l" unfolding swar_hit_def a_def l_def p_def by (simp only:)
    then show ?thesis using Suc by simp
  qed
  consider "unat (lane c i) = 0" | "unat (lane c i) = 1" | "2 \<le> unat (lane c i)" by linarith
  then show ?thesis
  proof cases
    case 1
    then have "lane c i = 0" by (simp add: unat_0_iff)
    then show ?thesis using 1 bounds hit by simp
  next
    case 2
    then have "lane c i = 1" by (metis unat_1 word_unat_eq_iff)
    then show ?thesis using 2 hit below by simp
  next
    case 3
    then have "p + p \<le> p * unat (lane c i)" using mult_le_mono2 [of 2 "unat (lane c i)" p] by (simp add: mult_2_right)
    then have "p + l < p * unat (lane c i) + a" using bounds by linarith
    then have "\<not> swar_hit c i" using hit by simp
    moreover have "lane c i \<noteq> 0" "lane c i \<noteq> 1" using 3 by auto
    ultimately show ?thesis by simp
  qed
qed

lemma swar_match_bit:
  "bit ((c - SWAR_LSB) AND NOT c AND SWAR_MSB) n \<longleftrightarrow> n < 64 \<and> n mod 8 = 7 \<and> swar_hit c (n div 8)"
proof -
  have "8 * (n div 8) + 8 = Suc n" if "n mod 8 = 7" using that div_mult_mod_eq [of n 8] by simp
  then show ?thesis unfolding swar_zero_byte_bit swar_hit_def by metis
qed

lemma swar_hit_byte: "i < 8 \<Longrightarrow> swar_hit c i \<Longrightarrow> lane c i = 0 \<or> lane c i = 1"
  using swar_hit_iff [of i c] by blast

text \<open>A byte that is reported and not zero sits above a zero byte.\<close>

lemma swar_hit_above_zero:
  "i < 8 \<Longrightarrow> swar_hit c i \<Longrightarrow> \<exists>j \<le> i. lane c j = 0"
proof (induction i)
  case 0
  then have "lane c 0 = 0" using swar_hit_iff [of 0 c] by blast
  then show ?case by blast
next
  case (Suc i)
  then consider "lane c (Suc i) = 0" | "swar_hit c i" using swar_hit_iff [of "Suc i" c] by auto
  then show ?case using Suc by cases (blast, metis Suc_lessD le_SucI)
qed

section \<open>From masks to slots\<close>

text \<open>
  The slots an inner loop visits for a mask: \<open>ctz\<close> of the mask, divided by eight where the
  mask has one bit per byte, lowest bit first.
\<close>

definition mask_slots :: "bool \<Rightarrow> u64 \<Rightarrow> nat list" where
  "mask_slots scale m = map (\<lambda>n. if scale then n div 8 else n) (bits_of m)"

definition first_slot :: "bool \<Rightarrow> u64 \<Rightarrow> nat" where
  "first_slot scale m = (if scale then ctzll m div 8 else ctzll m)"

lemma mask_slots_0 [simp]: "mask_slots scale 0 = []"
  by (simp add: mask_slots_def)

lemma mask_slots_Cons:
  "m \<noteq> 0 \<Longrightarrow> mask_slots scale m = first_slot scale m # mask_slots scale (m AND (m - 1))"
  using bits_of_Cons [of m] by (simp add: mask_slots_def first_slot_def)

lemma mask_slots_eq_Nil: "mask_slots scale m = [] \<longleftrightarrow> m = 0"
  by (simp add: mask_slots_def bits_of_eq_Nil)

lemma sorted_bits_of: "sorted_wrt (<) (bits_of m)"
  unfolding bits_of_def by (rule sorted_wrt_filter) (rule sorted_wrt_upt)

lemma set_mask_slots_unscaled: "set (mask_slots False m) = {n. bit m n}"
  by (simp add: mask_slots_def set_bits_of)

lemma sorted_mask_slots_unscaled: "sorted_wrt (<) (mask_slots False m)"
  by (simp add: mask_slots_def sorted_bits_of)

lemma set_mask_slots_scaled:
  assumes "\<And>n. bit m n \<longleftrightarrow> n < 64 \<and> n mod 8 = 7 \<and> P (n div 8)"
  shows "set (mask_slots True m) = {i. i < 8 \<and> P i}"
proof -
  have "{n. bit m n} = {n. n < 64 \<and> n mod 8 = 7 \<and> P (n div 8)}" using assms by blast
  moreover have "i \<in> (\<lambda>n. n div 8) ` {n. n < 64 \<and> n mod 8 = 7 \<and> P (n div 8)} \<longleftrightarrow> i < 8 \<and> P i" for i
    by (auto intro!: image_eqI [of _ _ "8 * i + 7"])
  ultimately show ?thesis by (auto simp: mask_slots_def set_bits_of)
qed

lemma sorted_mask_slots_scaled:
  assumes "\<And>n. bit m n \<Longrightarrow> n mod 8 = 7"
  shows "sorted_wrt (<) (mask_slots True m)"
proof -
  have "sorted_wrt (\<lambda>x y. x div 8 < y div 8) (bits_of m)"
  proof (rule sorted_wrt_mono_rel [OF _ sorted_bits_of])
    fix x y assume "x \<in> set (bits_of m)" "y \<in> set (bits_of m)" and less: "x < y"
    then have "x mod 8 = 7" "y mod 8 = 7" using assms by (auto simp: set_bits_of)
    then have "x = x div 8 * 8 + 7" "y = y div 8 * 8 + 7" using div_mult_mod_eq by metis+
    with less show "x div 8 < y div 8" by linarith
  qed
  then show ?thesis by (simp add: mask_slots_def sorted_wrt_map)
qed

lemma find_eq_hd_filter: "List.find P xs = (case filter P xs of [] \<Rightarrow> None | x # _ \<Rightarrow> Some x)"
  by (induction xs) auto

lemma find_sorted_cong:
  fixes xs ys :: "nat list"
  assumes "sorted_wrt (<) xs" and "sorted_wrt (<) ys"
    and "{x \<in> set xs. P x} = {x \<in> set ys. P x}"
  shows "List.find P xs = List.find P ys"
proof -
  have "filter P xs = filter P ys"
    using assms by (intro strict_sorted_equal) (auto intro: sorted_wrt_filter)
  then show ?thesis by (simp add: find_eq_hd_filter)
qed

section \<open>The loop over a match mask\<close>

text \<open>
  \<open>while (mmask) { ...; mmask &= mmask - 1; }\<close> with a body that reads something at the lowest
  slot and returns if a test on it succeeds: \<open>get\<close> is the read and the test. The loop is a
  search through the slots of the mask.
\<close>

locale mask_loop =
  fixes scan :: "'c \<Rightarrow> u64 \<Rightarrow> (nat \<times> 'x) option option" and scale :: bool
    and get :: "'c \<Rightarrow> nat \<Rightarrow> ('x \<times> bool) option"
  assumes scan_unfold: "scan c m = (if m = 0 then Some None
    else case get c (first_slot scale m) of
        None \<Rightarrow> None
      | Some (x, hit) \<Rightarrow> if hit then Some (Some (first_slot scale m, x)) else scan c (m AND (m - 1)))"
begin

lemma scan_find:
  assumes "\<And>s. s \<in> set (mask_slots scale m) \<Longrightarrow> get c s = Some (f s, p s)"
  shows "scan c m = Some (map_option (\<lambda>s. (s, f s)) (List.find p (mask_slots scale m)))"
  using assms
proof (induction "unat m" arbitrary: m rule: less_induct)
  case less
  show ?case
  proof (cases "m = 0")
    case True
    then show ?thesis by (subst scan_unfold) simp
  next
    case False
    note slots = mask_slots_Cons [OF False, of scale]
    have "get c (first_slot scale m) = Some (f (first_slot scale m), p (first_slot scale m))"
      using less.prems slots by simp
    moreover have "scan c (m AND (m - 1)) =
        Some (map_option (\<lambda>s. (s, f s)) (List.find p (mask_slots scale (m AND (m - 1)))))"
      using less.hyps [OF and_pred_less [OF False]] less.prems slots by simp
    ultimately show ?thesis using False slots by (subst scan_unfold) simp
  qed
qed

end

section \<open>The interface of a group scan\<close>

text \<open>
  \<open>hits g h\<close> are the slots the inner loop visits for tag \<open>h\<close>, \<open>empties g\<close> the slots the empty
  mask reports; \<open>valid\<close> are the tag bytes a table keeps. A hit may be a false positive, but
  only at a slot that is in use, so that reading its index is always meaningful.
\<close>

locale group_engine =
  fixes hits :: "u64 \<Rightarrow> u8 \<Rightarrow> nat list"
    and empties :: "u64 \<Rightarrow> nat list"
    and empty_tag :: u8
    and valid :: "u8 \<Rightarrow> bool"
  assumes hit_in_use: "\<not> bit h 7 \<Longrightarrow> s \<in> set (hits g h) \<Longrightarrow> s < 8 \<and> \<not> bit (lane g s) 7"
    and hit_complete: "s < 8 \<Longrightarrow> lane g s = h \<Longrightarrow> s \<in> set (hits g h)"
    and hits_sorted: "sorted_wrt (<) (hits g h)"
    and set_empties:
      "(\<And>s. s < 8 \<Longrightarrow> valid (lane g s)) \<Longrightarrow> set (empties g) = {s. s < 8 \<and> lane g s = empty_tag}"
    and empties_sorted: "sorted_wrt (<) (empties g)"
begin

text \<open>The slots a test accepts, if the test accepts no slot with another tag.\<close>

lemma find_hit:
  assumes "\<not> bit h 7" and "\<And>s. s < 8 \<Longrightarrow> \<not> bit (lane g s) 7 \<Longrightarrow> test s \<Longrightarrow> lane g s = h"
  shows "List.find test (hits g h) = List.find test (filter (\<lambda>s. lane g s = h) [0..<8])"
proof (rule find_sorted_cong)
  show "sorted_wrt (<) (hits g h)" by (rule hits_sorted)
  show "sorted_wrt (<) (filter (\<lambda>s. lane g s = h) [0..<8])"
    by (rule sorted_wrt_filter) (rule sorted_wrt_upt)
  have "s \<in> set (hits g h) \<and> test s \<longleftrightarrow> s < 8 \<and> lane g s = h \<and> test s" for s
    using hit_in_use [OF assms(1), of s g] hit_complete [of s g h] assms(2) [of s] by blast
  then show "{x \<in> set (hits g h). test x} = {x \<in> set (filter (\<lambda>s. lane g s = h) [0..<8]). test x}"
    by auto
qed

lemma empties_eq:
  assumes "\<And>s. s < 8 \<Longrightarrow> valid (lane g s)"
  shows "empties g = filter (\<lambda>s. lane g s = empty_tag) [0..<8]"
  using set_empties [OF assms] empties_sorted
  by (intro strict_sorted_equal) (auto intro: sorted_wrt_filter)

end

text \<open>
  A platform's mask functions give an engine when their bits are as follows: one bit per
  matching slot, or one per byte where the mask is scaled; the test \<open>E\<close> on a tag byte tells
  the empty mark from the other valid tags.
\<close>

lemma engineI:
  assumes mask: "\<And>g h n. bit (mm g h) n \<longleftrightarrow>
      (if scale then n < 64 \<and> n mod 8 = 7 \<and> swar_hit (g XOR (SWAR_LSB * ucast h)) (n div 8)
       else n < 8 \<and> lane g n = h)"
    and empty: "\<And>g n. bit (me g) n \<longleftrightarrow>
      (if scale then n < 64 \<and> n mod 8 = 7 \<and> E (lane g (n div 8)) else n < 8 \<and> E (lane g n))"
    and E: "\<And>t. valid t \<Longrightarrow> E t \<longleftrightarrow> t = empty_tag"
  shows "group_engine (\<lambda>g h. mask_slots scale (mm g h)) (\<lambda>g. mask_slots scale (me g)) empty_tag valid"
proof
  have hits: "set (mask_slots scale (mm g h)) =
      {s. s < 8 \<and> (if scale then swar_hit (g XOR (SWAR_LSB * ucast h)) s else lane g s = h)}" for g h
    using set_mask_slots_scaled [of "mm g h" "swar_hit (g XOR (SWAR_LSB * ucast h))"] mask
    by (cases scale) (auto simp: set_mask_slots_unscaled)
  have empties: "set (mask_slots scale (me g)) = {s. s < 8 \<and> E (lane g s)}" for g
    using set_mask_slots_scaled [of "me g" "\<lambda>s. E (lane g s)"] empty
    by (cases scale) (auto simp: set_mask_slots_unscaled)
  show "s < 8 \<and> \<not> bit (lane g s) 7" if "\<not> bit h 7" "s \<in> set (mask_slots scale (mm g h))" for h s g
  proof (cases scale)
    case True
    let ?c = "g XOR (SWAR_LSB * ucast h)"
    have s: "s < 8" "swar_hit ?c s" using that(2) True unfolding hits by simp_all
    have "\<not> bit (lane ?c s) 7" using swar_hit_byte [OF s] by (auto simp: bit_1_iff)
    then show ?thesis using s(1) that(1) by (simp add: lane_swar_cmp bit_xor_iff)
  next
    case False
    then show ?thesis using that unfolding hits by auto
  qed
  show "s \<in> set (mask_slots scale (mm g h))" if "s < 8" "lane g s = h" for s g h
    using that swar_hit_iff [OF that(1), of "g XOR (SWAR_LSB * ucast h)"] lane_swar_cmp [OF that(1), of g h]
    unfolding hits by (cases scale) simp_all
  show "sorted_wrt (<) (mask_slots scale (mm g h))" "sorted_wrt (<) (mask_slots scale (me g))" for g h
    using sorted_mask_slots_scaled [of "mm g h"] sorted_mask_slots_scaled [of "me g"] mask empty
    by (cases scale; simp add: sorted_mask_slots_unscaled)+
  show "set (mask_slots scale (me g)) = {s. s < 8 \<and> lane g s = empty_tag}"
    if "\<And>s. s < 8 \<Longrightarrow> valid (lane g s)" for g
    using E [OF that] by (auto simp: empties)
qed

end
