(* ===== verification/Bin_View.thy ===== *)
theory Bin_View
  imports Group_Match
begin

text \<open>
  What a bin means, independent of how its header lays it out. A bin's view has a number
  of groups of eight slots, each slot empty, deleted or full with a tag and an element
  index, the dense element array, the deletion marks and the fill bound. This theory holds
  the invariant of linear probing over groups, the effect of an insertion and of a deletion
  on it, the list of elements a bin stores, and the correctness of the probe loop, proved
  once for every loop whose step scans one group as the interface \<open>probing\<close> asks.
\<close>

section \<open>Keys\<close>

text \<open>
  The client's \<open>Hash\<close> and \<open>Eq\<close>: \<open>Eq\<close> is an equivalence and equal elements hash alike. Every
  correctness statement about a table takes this interface as its hypothesis.
\<close>

locale hash_key =
  fixes Hash :: "'e \<Rightarrow> u64" and Eq :: "'e \<Rightarrow> 'e \<Rightarrow> bool"
  assumes eq_refl: "Eq a a"
    and eq_sym: "Eq a b \<Longrightarrow> Eq b a"
    and eq_trans: "Eq a b \<Longrightarrow> Eq b c \<Longrightarrow> Eq a c"
    and hash_cong: "Eq a b \<Longrightarrow> Hash a = Hash b"
begin

lemma eq_iff: "Eq a b \<Longrightarrow> Eq a c \<longleftrightarrow> Eq b c"
  using eq_sym eq_trans by blast

lemma eq_iff_right: "Eq a b \<Longrightarrow> Eq c a \<longleftrightarrow> Eq c b"
  using eq_sym eq_trans by blast

end

text \<open>The tag byte and the first group to probe, from a hash.\<close>

definition h7_of :: "u64 \<Rightarrow> u8" where
  "h7_of hash = ucast (drop_bit (8 * 8 - 7) hash AND 0x7f)"

definition home :: "nat \<Rightarrow> u64 \<Rightarrow> nat" where
  "home n hash = unat (hash div 8) mod n"

lemma h7_of_top_clear: "\<not> bit (h7_of hash) 7"
proof -
  have "(0x7f :: u64) = mask 7" by (simp add: mask_eq_exp_minus_1)
  then have "\<not> bit (0x7f :: u64) 7" by (simp only: bit_mask_iff) simp
  then show ?thesis by (simp only: h7_of_def bit_ucast_iff bit_and_iff) simp
qed

lemma home_less: "0 < n \<Longrightarrow> home n hash < n"
  by (simp add: home_def)

section \<open>Views\<close>

datatype slot = Empty | Tomb | Full u8 nat

record 'e view =
  ngroups :: nat
  slot :: "nat \<Rightarrow> nat \<Rightarrow> slot"
  elem :: "nat \<Rightarrow> 'e option"
  dead :: "nat \<Rightarrow> bool"
  bound :: nat

definition live :: "'e view \<Rightarrow> nat \<Rightarrow> bool" where
  "live v i \<longleftrightarrow> i < bound v \<and> \<not> dead v i"

definition contents :: "'e view \<Rightarrow> 'e list" where
  "contents v = map (\<lambda>i. the (elem v i)) (filter (\<lambda>i. \<not> dead v i) [0..<bound v])"

definition has_empty :: "'e view \<Rightarrow> nat \<Rightarrow> bool" where
  "has_empty v g \<longleftrightarrow> (\<exists>s < 8. slot v g s = Empty)"

definition nonempty :: "'e view \<Rightarrow> (nat \<times> nat) set" where
  "nonempty v = {(g, s). g < ngroups v \<and> s < 8 \<and> slot v g s \<noteq> Empty}"

text \<open>No group from \<open>a\<close> up to, but not including, \<open>g\<close> in probe order has an empty slot.\<close>

definition clear_path :: "'e view \<Rightarrow> nat \<Rightarrow> nat \<Rightarrow> bool" where
  "clear_path v a g \<longleftrightarrow>
     (\<forall>d < (g + ngroups v - a) mod ngroups v. \<not> has_empty v ((a + d) mod ngroups v))"

definition placed :: "('e \<Rightarrow> u64) \<Rightarrow> 'e view \<Rightarrow> nat \<Rightarrow> 'e \<Rightarrow> nat \<Rightarrow> nat \<Rightarrow> bool" where
  "placed Hash v i e g s \<longleftrightarrow>
     g < ngroups v \<and> s < 8 \<and> slot v g s = Full (h7_of (Hash e)) i \<and>
     clear_path v (home (ngroups v) (Hash e)) g"

text \<open>
  The invariant: full slots point at live elements that carry their tag; every live element
  has a slot that its probe sequence reaches before any empty slot; no two slots share an
  index and no two live elements are equal keys; the fill bound counts at least the slots
  in use, which is what keeps a bin from filling up with tombstones.
\<close>

definition view_inv :: "('e \<Rightarrow> u64) \<Rightarrow> ('e \<Rightarrow> 'e \<Rightarrow> bool) \<Rightarrow> 'e view \<Rightarrow> bool" where
  "view_inv Hash Eq v \<longleftrightarrow>
     0 < ngroups v \<and>
     (\<forall>g s t i. g < ngroups v \<longrightarrow> s < 8 \<longrightarrow> slot v g s = Full t i \<longrightarrow> live v i) \<and>
     (\<forall>i. live v i \<longrightarrow> (\<exists>e g s. elem v i = Some e \<and> placed Hash v i e g s)) \<and>
     (\<forall>g s t g' s' t' i. g < ngroups v \<longrightarrow> s < 8 \<longrightarrow> g' < ngroups v \<longrightarrow> s' < 8 \<longrightarrow>
        slot v g s = Full t i \<longrightarrow> slot v g' s' = Full t' i \<longrightarrow> g = g' \<and> s = s') \<and>
     (\<forall>i j e e'. live v i \<longrightarrow> live v j \<longrightarrow> elem v i = Some e \<longrightarrow> elem v j = Some e' \<longrightarrow>
        Eq e e' \<longrightarrow> i = j) \<and>
     (\<forall>i \<ge> bound v. \<not> dead v i) \<and>
     card (nonempty v) \<le> bound v"

lemma view_inv_ngroups: "view_inv Hash Eq v \<Longrightarrow> 0 < ngroups v"
  unfolding view_inv_def by blast

lemma view_inv_full:
  "view_inv Hash Eq v \<Longrightarrow> g < ngroups v \<Longrightarrow> s < 8 \<Longrightarrow> slot v g s = Full t i \<Longrightarrow> live v i"
  unfolding view_inv_def by blast

lemma view_inv_live:
  "view_inv Hash Eq v \<Longrightarrow> live v i \<Longrightarrow> \<exists>e g s. elem v i = Some e \<and> placed Hash v i e g s"
  unfolding view_inv_def by blast

lemma view_inv_slot_inj:
  "view_inv Hash Eq v \<Longrightarrow> g < ngroups v \<Longrightarrow> s < 8 \<Longrightarrow> g' < ngroups v \<Longrightarrow> s' < 8 \<Longrightarrow>
     slot v g s = Full t i \<Longrightarrow> slot v g' s' = Full t' i \<Longrightarrow> g = g' \<and> s = s'"
  unfolding view_inv_def by blast

lemma view_inv_keys_inj:
  "view_inv Hash Eq v \<Longrightarrow> live v i \<Longrightarrow> live v j \<Longrightarrow> elem v i = Some e \<Longrightarrow> elem v j = Some e' \<Longrightarrow>
     Eq e e' \<Longrightarrow> i = j"
  unfolding view_inv_def by blast

lemma view_inv_dead: "view_inv Hash Eq v \<Longrightarrow> bound v \<le> i \<Longrightarrow> \<not> dead v i"
  unfolding view_inv_def by blast

lemma view_inv_count: "view_inv Hash Eq v \<Longrightarrow> card (nonempty v) \<le> bound v"
  unfolding view_inv_def by blast

lemmas view_inv_dests =
  view_inv_ngroups view_inv_full view_inv_live view_inv_slot_inj view_inv_keys_inj view_inv_dead
  view_inv_count

lemma view_invI:
  assumes "0 < ngroups v"
    and "\<And>g s t i. g < ngroups v \<Longrightarrow> s < 8 \<Longrightarrow> slot v g s = Full t i \<Longrightarrow> live v i"
    and "\<And>i. live v i \<Longrightarrow> \<exists>e g s. elem v i = Some e \<and> placed Hash v i e g s"
    and "\<And>g s t g' s' t' i. g < ngroups v \<Longrightarrow> s < 8 \<Longrightarrow> g' < ngroups v \<Longrightarrow> s' < 8 \<Longrightarrow>
        slot v g s = Full t i \<Longrightarrow> slot v g' s' = Full t' i \<Longrightarrow> g = g' \<and> s = s'"
    and "\<And>i j e e'. live v i \<Longrightarrow> live v j \<Longrightarrow> elem v i = Some e \<Longrightarrow> elem v j = Some e' \<Longrightarrow>
        Eq e e' \<Longrightarrow> i = j"
    and "\<And>i. bound v \<le> i \<Longrightarrow> \<not> dead v i"
    and "card (nonempty v) \<le> bound v"
  shows "view_inv Hash Eq v"
  unfolding view_inv_def using assms by (intro conjI allI impI) blast+

lemma finite_nonempty [simp]: "finite (nonempty v)"
  by (rule finite_subset [of _ "{..<ngroups v} \<times> {..<8}"]) (auto simp: nonempty_def)

lemma exists_empty_group:
  assumes "view_inv Hash Eq v" and "bound v < 8 * ngroups v"
  shows "\<exists>g < ngroups v. has_empty v g"
proof (rule ccontr)
  assume "\<not> ?thesis"
  then have "nonempty v = {..<ngroups v} \<times> {..<8}"
    by (auto simp: nonempty_def has_empty_def)
  then have "card (nonempty v) = ngroups v * 8" by (simp add: card_cartesian_product)
  with view_inv_count [OF assms(1)] assms(2) show False by simp
qed

text \<open>The stored elements, as a set of live indices and as a list.\<close>

lemma live_elem: "view_inv Hash Eq v \<Longrightarrow> live v i \<Longrightarrow> \<exists>e. elem v i = Some e"
  by (drule (1) view_inv_live) blast

lemma in_contents_iff:
  assumes "view_inv Hash Eq v"
  shows "e \<in> set (contents v) \<longleftrightarrow> (\<exists>i. live v i \<and> elem v i = Some e)"
proof -
  have "e \<in> set (contents v) \<longleftrightarrow> (\<exists>i. live v i \<and> the (elem v i) = e)"
    by (auto simp: contents_def live_def)
  then show ?thesis using live_elem [OF assms] by force
qed

section \<open>Updates\<close>

definition view_put :: "nat \<Rightarrow> nat \<Rightarrow> u8 \<Rightarrow> 'e \<Rightarrow> 'e view \<Rightarrow> 'e view" where
  "view_put g s t e v = v\<lparr>slot := (slot v)(g := (slot v g)(s := Full t (bound v))),
     elem := (elem v)(bound v := Some e), bound := Suc (bound v)\<rparr>"

definition view_kill :: "nat \<Rightarrow> nat \<Rightarrow> nat \<Rightarrow> 'e view \<Rightarrow> 'e view" where
  "view_kill g s i v = v\<lparr>slot := (slot v)(g := (slot v g)(s := Tomb)), dead := (dead v)(i := True)\<rparr>"

definition view_set :: "nat \<Rightarrow> 'e \<Rightarrow> 'e view \<Rightarrow> 'e view" where
  "view_set i e v = v\<lparr>elem := (elem v)(i := Some e)\<rparr>"

lemma view_put_sel [view_simps]:
  "ngroups (view_put g s t e v) = ngroups v"
  "slot (view_put g s t e v) g' s' = (if g' = g \<and> s' = s then Full t (bound v) else slot v g' s')"
  "elem (view_put g s t e v) i = (if i = bound v then Some e else elem v i)"
  "dead (view_put g s t e v) = dead v"
  "bound (view_put g s t e v) = Suc (bound v)"
  by (auto simp: view_put_def)

lemma view_kill_sel [view_simps]:
  "ngroups (view_kill g s i v) = ngroups v"
  "slot (view_kill g s i v) g' s' = (if g' = g \<and> s' = s then Tomb else slot v g' s')"
  "elem (view_kill g s i v) = elem v"
  "dead (view_kill g s i v) j = (j = i \<or> dead v j)"
  "bound (view_kill g s i v) = bound v"
  by (auto simp: view_kill_def)

lemma view_set_sel [view_simps]:
  "ngroups (view_set i e v) = ngroups v"
  "slot (view_set i e v) = slot v"
  "elem (view_set i e v) j = (if j = i then Some e else elem v j)"
  "dead (view_set i e v) = dead v"
  "bound (view_set i e v) = bound v"
  by (auto simp: view_set_def)

text \<open>An update that empties no slot keeps every clear path clear.\<close>

lemma clear_path_mono:
  assumes "clear_path v a g" and "ngroups w = ngroups v"
    and "\<And>g. has_empty w g \<Longrightarrow> has_empty v g"
  shows "clear_path w a g"
  using assms unfolding clear_path_def by metis

lemma placed_mono:
  assumes "placed Hash v i e g s" and "ngroups w = ngroups v"
    and "\<And>g. has_empty w g \<Longrightarrow> has_empty v g" and "slot w g s = slot v g s"
  shows "placed Hash w i e g s"
  using assms clear_path_mono [of v _ g w] unfolding placed_def by simp

lemma has_empty_put: "has_empty (view_put g s t e v) g' \<Longrightarrow> has_empty v g'"
  by (auto simp: has_empty_def view_simps split: if_splits)

lemma has_empty_kill: "has_empty (view_kill g s i v) g' \<Longrightarrow> has_empty v g'"
  by (auto simp: has_empty_def view_simps split: if_splits)

lemma live_put: "view_inv Hash Eq v \<Longrightarrow> live (view_put g s t e v) i \<longleftrightarrow> i = bound v \<or> live v i"
  by (auto simp: live_def view_simps dest: view_inv_dead)

lemma card_nonempty_put:
  "card (nonempty (view_put g s t e v)) \<le> Suc (card (nonempty v))"
proof -
  have "nonempty (view_put g s t e v) \<subseteq> insert (g, s) (nonempty v)"
    by (auto simp: nonempty_def view_simps)
  then have "card (nonempty (view_put g s t e v)) \<le> card (insert (g, s) (nonempty v))"
    by (intro card_mono) auto
  then show ?thesis by (simp add: card_insert_if split: if_splits)
qed

lemma view_put_inv:
  assumes hk: "hash_key Hash Eq" and inv: "view_inv Hash Eq v"
    and slot: "g < ngroups v" "s < 8" "\<And>t i. slot v g s \<noteq> Full t i"
    and path: "clear_path v (home (ngroups v) (Hash e)) g"
    and absent: "\<And>i x. live v i \<Longrightarrow> elem v i = Some x \<Longrightarrow> \<not> Eq x e"
  shows "view_inv Hash Eq (view_put g s (h7_of (Hash e)) e v)" (is "view_inv _ _ ?w")
proof (rule view_invI)
  note live = live_put [OF inv, of g s "h7_of (Hash e)" e]
  have new: "\<not> live v (bound v)" by (simp add: live_def)
  show "0 < ngroups ?w" using view_inv_ngroups [OF inv] by (simp add: view_simps)
  show "live ?w i" if "g' < ngroups ?w" "s' < 8" "slot ?w g' s' = Full t i" for g' s' t i
    using that view_inv_full [OF inv, of g' s' t i] by (auto simp: view_simps live split: if_splits)
  show "\<exists>x g' s'. elem ?w i = Some x \<and> placed Hash ?w i x g' s'" if l: "live ?w i" for i
  proof (cases "i = bound v")
    case True
    have "clear_path ?w (home (ngroups v) (Hash e)) g"
      by (rule clear_path_mono [OF path]) (auto simp: view_simps dest: has_empty_put)
    then have "placed Hash ?w i e g s" using True slot by (simp add: placed_def view_simps)
    then show ?thesis using True by (auto simp: view_simps)
  next
    case False
    then obtain x g' s' where x: "elem v i = Some x" and p: "placed Hash v i x g' s'"
      using l live view_inv_live [OF inv] by blast
    then have "(g', s') \<noteq> (g, s)" using slot(3) by (auto simp: placed_def)
    then have "placed Hash ?w i x g' s'"
      by (intro placed_mono [OF p]) (auto simp: view_simps dest: has_empty_put)
    then show ?thesis using x False by (auto simp: view_simps)
  qed
  show "g1 = g2 \<and> s1 = s2"
    if "g1 < ngroups ?w" "s1 < 8" "g2 < ngroups ?w" "s2 < 8"
      "slot ?w g1 s1 = Full t1 i" "slot ?w g2 s2 = Full t2 i" for g1 s1 t1 g2 s2 t2 i
    using that view_inv_slot_inj [OF inv, of g1 s1 g2 s2 t1 i t2] new
      view_inv_full [OF inv, of g1 s1 t1 i] view_inv_full [OF inv, of g2 s2 t2 i]
    by (auto simp: view_simps split: if_splits)
  show "i = j"
    if "live ?w i" "live ?w j" "elem ?w i = Some x" "elem ?w j = Some y" "Eq x y" for i j x y
    using that absent new view_inv_keys_inj [OF inv, of i j x y] hash_key.eq_sym [OF hk, of x y]
    by (auto simp: view_simps live split: if_splits)
  show "\<not> dead ?w i" if "bound ?w \<le> i" for i
    using that view_inv_dead [OF inv, of i] by (simp add: view_simps)
  show "card (nonempty ?w) \<le> bound ?w"
    using card_nonempty_put [of g s _ e v] view_inv_count [OF inv]
    by (simp add: view_simps) (meson Suc_le_mono le_trans)
qed

lemma contents_put:
  assumes "\<not> dead v (bound v)"
  shows "contents (view_put g s t e v) = contents v @ [e]"
proof -
  have "map (\<lambda>i. the (elem (view_put g s t e v) i)) (filter (\<lambda>i. \<not> dead v i) [0..<bound v])
      = contents v"
    unfolding contents_def by (rule map_cong) (auto simp: view_simps)
  then show ?thesis using assms by (simp add: contents_def view_simps)
qed

lemma card_nonempty_kill:
  "slot v g s \<noteq> Empty \<Longrightarrow> nonempty (view_kill g s i v) = nonempty v"
  by (auto simp: nonempty_def view_simps split: if_splits)

lemma view_kill_inv:
  assumes inv: "view_inv Hash Eq v"
    and slot: "g < ngroups v" "s < 8" "slot v g s = Full t i"
  shows "view_inv Hash Eq (view_kill g s i v)" (is "view_inv _ _ ?w")
proof (rule view_invI)
  have live: "live ?w j \<longleftrightarrow> j \<noteq> i \<and> live v j" for j
    by (auto simp: live_def view_simps)
  show "0 < ngroups ?w" using view_inv_ngroups [OF inv] by (simp add: view_simps)
  show "live ?w j" if "g' < ngroups ?w" "s' < 8" "slot ?w g' s' = Full t' j" for g' s' t' j
  proof -
    have other: "(g', s') \<noteq> (g, s)" "slot v g' s' = Full t' j"
      using that(3) by (auto simp: view_simps split: if_splits)
    have range: "g' < ngroups v" using that(1) by (simp add: view_simps)
    have "j \<noteq> i"
      using view_inv_slot_inj [OF inv range that(2) slot(1,2) other(2), of t] slot(3) other(1) by auto
    then show ?thesis using view_inv_full [OF inv range that(2) other(2)] live by simp
  qed
  show "\<exists>x g' s'. elem ?w j = Some x \<and> placed Hash ?w j x g' s'" if l: "live ?w j" for j
  proof -
    have j: "live v j" "j \<noteq> i" using l by (simp_all add: live)
    obtain x g' s' where x: "elem v j = Some x" and p: "placed Hash v j x g' s'"
      using view_inv_live [OF inv j(1)] by blast
    then have "(g', s') \<noteq> (g, s)" using slot(3) j(2) by (auto simp: placed_def)
    then have "placed Hash ?w j x g' s'"
      by (intro placed_mono [OF p]) (auto simp: view_simps dest: has_empty_kill)
    then show ?thesis using x by (auto simp: view_simps)
  qed
  show "g1 = g2 \<and> s1 = s2"
    if "g1 < ngroups ?w" "s1 < 8" "g2 < ngroups ?w" "s2 < 8"
      "slot ?w g1 s1 = Full t1 j" "slot ?w g2 s2 = Full t2 j" for g1 s1 t1 g2 s2 t2 j
    using that by (intro view_inv_slot_inj [OF inv, of g1 s1 g2 s2 t1 j t2])
      (simp_all add: view_simps split: if_splits)
  show "j = k"
    if "live ?w j" "live ?w k" "elem ?w j = Some x" "elem ?w k = Some y" "Eq x y" for j k x y
    using that by (intro view_inv_keys_inj [OF inv, of j k x y]) (simp_all add: view_simps live)
  show "\<not> dead ?w j" if "bound ?w \<le> j" for j
  proof -
    have "i < bound v" using view_inv_full [OF inv slot] by (simp add: live_def)
    then show ?thesis using that view_inv_dead [OF inv, of j] by (simp add: view_simps)
  qed
  show "card (nonempty ?w) \<le> bound ?w"
    using view_inv_count [OF inv] card_nonempty_kill [of v g s i] slot(3)
    by (simp only: view_simps) simp
qed

lemma contents_kill:
  assumes hk: "hash_key Hash Eq" and inv: "view_inv Hash Eq v"
    and i: "live v i" "elem v i = Some x" "Eq x e"
  shows "contents (view_kill g s i v) = filter (\<lambda>y. \<not> Eq y e) (contents v)"
proof -
  have "Eq (the (elem v j)) e \<longleftrightarrow> j = i" if l: "live v j" for j
  proof
    assume "Eq (the (elem v j)) e"
    moreover obtain y where "elem v j = Some y" using live_elem [OF inv l] by blast
    ultimately show "j = i"
      using view_inv_keys_inj [OF inv l i(1) _ i(2), of y] hash_key.eq_trans [OF hk, of y e x]
        hash_key.eq_sym [OF hk i(3)] by simp
  qed (use i in simp)
  then have "filter (\<lambda>j. \<not> (j = i \<or> dead v j)) [0..<bound v]
      = filter (\<lambda>j. \<not> Eq (the (elem v j)) e) (filter (\<lambda>j. \<not> dead v j) [0..<bound v])"
    unfolding filter_filter by (intro filter_cong) (auto simp: live_def)
  then show ?thesis by (simp add: contents_def view_simps filter_map comp_def)
qed

lemma view_set_inv:
  assumes hk: "hash_key Hash Eq" and inv: "view_inv Hash Eq v"
    and i: "live v i" "elem v i = Some x" "Eq x e"
  shows "view_inv Hash Eq (view_set i e v)" (is "view_inv _ _ ?w")
proof (rule view_invI)
  have live: "live ?w = live v" by (rule ext) (simp add: live_def view_simps)
  have hash: "Hash e = Hash x" using hash_key.hash_cong [OF hk i(3)] by simp
  have empty: "has_empty ?w g \<Longrightarrow> has_empty v g" for g by (simp add: has_empty_def view_simps)
  show "0 < ngroups ?w" using view_inv_ngroups [OF inv] by (simp add: view_simps)
  show "live ?w j" if "g' < ngroups ?w" "s' < 8" "slot ?w g' s' = Full t' j" for g' s' t' j
    using that view_inv_full [OF inv, of g' s' t' j] by (simp add: view_simps live)
  show "\<exists>y g' s'. elem ?w j = Some y \<and> placed Hash ?w j y g' s'" if l: "live ?w j" for j
  proof -
    obtain y g' s' where y: "elem v j = Some y" and p: "placed Hash v j y g' s'"
      using view_inv_live [OF inv l [unfolded live]] by blast
    then have "placed Hash ?w j y g' s'"
      by (intro placed_mono [OF p]) (auto simp: view_simps dest: empty)
    then show ?thesis using y i hash by (cases "j = i") (auto simp: view_simps placed_def)
  qed
  show "g1 = g2 \<and> s1 = s2"
    if "g1 < ngroups ?w" "s1 < 8" "g2 < ngroups ?w" "s2 < 8"
      "slot ?w g1 s1 = Full t1 j" "slot ?w g2 s2 = Full t2 j" for g1 s1 t1 g2 s2 t2 j
    using that view_inv_slot_inj [OF inv, of g1 s1 g2 s2 t1 j t2] by (simp add: view_simps)
  show "j = k"
    if "live ?w j" "live ?w k" "elem ?w j = Some y" "elem ?w k = Some z" "Eq y z" for j k y z
  proof -
    have keys: "live v j" "live v k" using that live by auto
    obtain y' z' where o: "elem v j = Some y'" "elem v k = Some z'"
      using live_elem [OF inv keys(1)] live_elem [OF inv keys(2)] by blast
    have "Eq y' y" "Eq z' z"
      using that o i hash_key.eq_refl [OF hk] by (auto simp: view_simps split: if_splits)
    then have "Eq y' z'" using that(5) hash_key.eq_trans [OF hk] hash_key.eq_sym [OF hk] by metis
    then show ?thesis using view_inv_keys_inj [OF inv keys o] by blast
  qed
  show "\<not> dead ?w j" if "bound ?w \<le> j" for j
    using that view_inv_dead [OF inv, of j] by (simp add: view_simps)
  have "nonempty ?w = nonempty v" by (simp add: nonempty_def view_simps)
  then show "card (nonempty ?w) \<le> bound ?w" using view_inv_count [OF inv] by (simp add: view_simps)
qed

lemma contents_set:
  assumes hk: "hash_key Hash Eq" and inv: "view_inv Hash Eq v"
    and i: "live v i" "elem v i = Some x" "Eq x e"
  shows "contents (view_set i e v) = map (\<lambda>y. if Eq y e then e else y) (contents v)"
proof -
  have "the (elem (view_set i e v) j) = (if Eq (the (elem v j)) e then e else the (elem v j))"
    if l: "live v j" for j
  proof -
    obtain y where y: "elem v j = Some y" using live_elem [OF inv l] by blast
    have "Eq y e \<longleftrightarrow> j = i"
      using view_inv_keys_inj [OF inv l i(1) y i(2)] hash_key.eq_trans [OF hk] hash_key.eq_sym [OF hk] i y
      by (metis option.inject)
    then show ?thesis using y by (simp add: view_simps)
  qed
  then show ?thesis by (auto simp: contents_def view_simps live_def)
qed

lemma find_contents:
  assumes hk: "hash_key Hash Eq" and inv: "view_inv Hash Eq v"
    and i: "live v i" "elem v i = Some x" "Eq x e"
  shows "List.find (\<lambda>y. Eq y e) (contents v) = Some x"
proof -
  have "x \<in> set (contents v)" using in_contents_iff [OF inv] i by blast
  then obtain y where y: "List.find (\<lambda>y. Eq y e) (contents v) = Some y"
    using i(3) by (metis find_None_iff option.exhaust)
  then have "y \<in> set (contents v)" "Eq y e" by (auto simp: find_Some_iff)
  then obtain j where j: "live v j" "elem v j = Some y" using in_contents_iff [OF inv] by blast
  have "Eq y x" using \<open>Eq y e\<close> i(3) hash_key.eq_trans [OF hk] hash_key.eq_sym [OF hk] by blast
  then have "j = i" using view_inv_keys_inj [OF inv j(1) i(1) j(2) i(2)] by blast
  then show ?thesis using y j i by simp
qed

lemma length_contents: "length (contents v) \<le> bound v"
  unfolding contents_def using length_filter_le [of _ "[0..<bound v]"] by simp

text \<open>A bin with only empty slots.\<close>

lemma view_empty_inv:
  assumes "0 < ngroups v" and "\<And>g s. g < ngroups v \<Longrightarrow> s < 8 \<Longrightarrow> slot v g s = Empty"
    and "bound v = 0" and "\<And>i. \<not> dead v i"
  shows "view_inv Hash Eq v" and "contents v = []"
proof -
  have "nonempty v = {}" using assms(2) by (auto simp: nonempty_def)
  then show "view_inv Hash Eq v" using assms by (intro view_invI) (auto simp: live_def)
  show "contents v = []" using assms(3) by (simp add: contents_def)
qed

section \<open>Probing\<close>

text \<open>
  How a probe ends: at a full slot whose element is equal to the key (group, slot, element
  index), or at the first empty slot of the first group that has one.
\<close>

datatype outcome = Matched nat nat nat | Vacant nat nat

definition no_match :: "'e view \<Rightarrow> u8 \<Rightarrow> ('e \<Rightarrow> bool) \<Rightarrow> nat \<Rightarrow> bool" where
  "no_match v h M g \<longleftrightarrow>
     (\<forall>s i e. s < 8 \<longrightarrow> slot v g s = Full h i \<longrightarrow> elem v i = Some e \<longrightarrow> \<not> M e)"

text \<open>What the scan of one group must report.\<close>

fun scan_ok :: "'e view \<Rightarrow> u8 \<Rightarrow> ('e \<Rightarrow> bool) \<Rightarrow> nat \<Rightarrow> nat + outcome \<Rightarrow> bool" where
  "scan_ok v h M g (Inl g') \<longleftrightarrow>
     g' = Suc g mod ngroups v \<and> no_match v h M g \<and> \<not> has_empty v g"
| "scan_ok v h M g (Inr (Matched g' s i)) \<longleftrightarrow>
     g' = g \<and> s < 8 \<and> (\<exists>t e. slot v g s = Full t i \<and> elem v i = Some e \<and> M e)"
| "scan_ok v h M g (Inr (Vacant g' s)) \<longleftrightarrow>
     g' = g \<and> s < 8 \<and> slot v g s = Empty \<and> (\<forall>s' < s. slot v g s' \<noteq> Empty) \<and> no_match v h M g"

text \<open>What a whole probe for \<open>el\<close> must report.\<close>

fun probe_ok :: "('e \<Rightarrow> u64) \<Rightarrow> ('e \<Rightarrow> 'e \<Rightarrow> bool) \<Rightarrow> 'e view \<Rightarrow> 'e \<Rightarrow> outcome \<Rightarrow> bool" where
  "probe_ok Hash Eq v el (Matched g s i) \<longleftrightarrow>
     g < ngroups v \<and> s < 8 \<and> (\<exists>t e. slot v g s = Full t i \<and> elem v i = Some e \<and> Eq e el)"
| "probe_ok Hash Eq v el (Vacant g s) \<longleftrightarrow>
     g < ngroups v \<and> s < 8 \<and> slot v g s = Empty \<and> (\<forall>s' < s. slot v g s' \<noteq> Empty) \<and>
     clear_path v (home (ngroups v) (Hash el)) g \<and>
     (\<forall>i e. live v i \<longrightarrow> elem v i = Some e \<longrightarrow> \<not> Eq e el)"

definition dist :: "nat \<Rightarrow> nat \<Rightarrow> nat \<Rightarrow> nat" where
  "dist n a b = (b + n - a) mod n"

lemma dist_cases: "a < n \<Longrightarrow> b < n \<Longrightarrow> dist n a b = (if a \<le> b then b - a else b + n - a)"
  by (simp add: dist_def mod_if)

lemma dist_step:
  assumes "a < n" "b < n" "a \<noteq> b"
  shows "dist n a b = Suc (dist n (Suc a mod n) b)"
proof (cases "Suc a = n")
  case True
  then have "dist n (Suc a mod n) b = b" using assms dist_cases [of 0 n b] by simp
  then show ?thesis using assms True dist_cases [of a n b] by simp
next
  case False
  then have "Suc a < n" "Suc a mod n = Suc a" using assms by auto
  then show ?thesis using assms dist_cases [of a n b] dist_cases [of "Suc a" n b] by auto
qed

lemma add_dist: "a < n \<Longrightarrow> b < n \<Longrightarrow> (a + dist n a b) mod n = b"
  by (simp add: dist_cases)

lemma dist_add: "a < n \<Longrightarrow> k < n \<Longrightarrow> dist n a ((a + k) mod n) = k"
  by (cases "a + k < n") (auto simp: dist_cases mod_if)

lemma vacant_absent:
  assumes hk: "hash_key Hash Eq" and inv: "view_inv Hash Eq v"
    and k: "k < ngroups v" and a: "a = home (ngroups v) (Hash el)"
    and before: "\<And>d. d < k \<Longrightarrow> no_match v (h7_of (Hash el)) (\<lambda>e. Eq e el) ((a + d) mod ngroups v)"
    and here: "no_match v (h7_of (Hash el)) (\<lambda>e. Eq e el) ((a + k) mod ngroups v)"
    and empty: "has_empty v ((a + k) mod ngroups v)"
    and i: "live v i" "elem v i = Some e"
  shows "\<not> Eq e el"
proof
  assume eq: "Eq e el"
  let ?n = "ngroups v"
  have an: "a < ?n" using a k by (simp add: home_less)
  obtain g s where "placed Hash v i e g s" using view_inv_live [OF inv i(1)] i(2) by auto
  then have g: "g < ?n" "s < 8" "slot v g s = Full (h7_of (Hash el)) i" "clear_path v a g"
    using hash_key.hash_cong [OF hk eq] by (auto simp: placed_def a)
  let ?d = "dist ?n a g"
  have "?d \<le> k"
    using g(4) empty unfolding clear_path_def dist_def by (meson not_le)
  moreover have "(a + ?d) mod ?n = g" using an g(1) by (rule add_dist)
  ultimately have "no_match v (h7_of (Hash el)) (\<lambda>e. Eq e el) g"
    using before [of ?d] here by (cases "?d = k") auto
  then show False using g i(2) eq by (auto simp: no_match_def)
qed

text \<open>An outcome that is right is the only right one.\<close>

lemma clear_pathD:
  "clear_path v a g \<Longrightarrow> d < dist (ngroups v) a g \<Longrightarrow> \<not> has_empty v ((a + d) mod ngroups v)"
  unfolding clear_path_def dist_def by blast

lemma clear_path_unique:
  assumes "clear_path v a g" "clear_path v a g'" "has_empty v g" "has_empty v g'"
    and "a < ngroups v" "g < ngroups v" "g' < ngroups v"
  shows "g = g'"
proof -
  let ?n = "ngroups v"
  have not_before: "\<not> dist ?n a y < dist ?n a x"
    if "clear_path v a x" "has_empty v y" "y < ?n" for x y
  proof
    assume "dist ?n a y < dist ?n a x"
    then have "\<not> has_empty v ((a + dist ?n a y) mod ?n)" by (rule clear_pathD [OF that(1)])
    then show False by (simp only: add_dist [OF assms(5) that(3)] that(2) not_True_eq_False)
  qed
  have same: "dist ?n a g = dist ?n a g'"
    using not_before [OF assms(1,4,7)] not_before [OF assms(2,3,6)]
    by (intro antisym) (simp_all only: not_less)
  have "g = (a + dist ?n a g) mod ?n" by (rule add_dist [OF assms(5,6), symmetric])
  also have "\<dots> = (a + dist ?n a g') mod ?n" by (rule arg_cong [OF same])
  also have "\<dots> = g'" by (rule add_dist [OF assms(5,7)])
  finally show ?thesis .
qed

lemma probe_ok_unique:
  assumes hk: "hash_key Hash Eq" and inv: "view_inv Hash Eq v"
    and r: "probe_ok Hash Eq v el r" "probe_ok Hash Eq v el r'"
  shows "r = r'"
proof -
  have matched: "live v i" if "probe_ok Hash Eq v el (Matched g s i)" for g s i
    using that view_inv_full [OF inv] by auto
  have found: "i = j \<and> g = g' \<and> s = s'"
    if m: "probe_ok Hash Eq v el (Matched g s i)" "probe_ok Hash Eq v el (Matched g' s' j)" for g s i g' s' j
  proof -
    obtain t e t' e' where e: "slot v g s = Full t i" "elem v i = Some e" "Eq e el"
        "slot v g' s' = Full t' j" "elem v j = Some e'" "Eq e' el"
      using m by auto
    have "Eq e e'" using e hash_key.eq_trans [OF hk] hash_key.eq_sym [OF hk] by blast
    then have "i = j"
      using view_inv_keys_inj [OF inv matched [OF m(1)] matched [OF m(2)] e(2,5)] by blast
    then show ?thesis using view_inv_slot_inj [OF inv _ _ _ _ e(1), of g' s' t'] e(4) m by simp
  qed
  have vacant: "g = g' \<and> s = s'"
    if v: "probe_ok Hash Eq v el (Vacant g s)" "probe_ok Hash Eq v el (Vacant g' s')" for g s g' s'
  proof -
    have "home (ngroups v) (Hash el) < ngroups v" using view_inv_ngroups [OF inv] by (rule home_less)
    moreover have "has_empty v g" "has_empty v g'" using v unfolding has_empty_def by auto
    ultimately have "g = g'" using v by (intro clear_path_unique [of v _ g g']) simp_all
    moreover from this have "\<not> s < s'" "\<not> s' < s" using v by auto
    ultimately show ?thesis by simp
  qed
  have mixed: False if m: "probe_ok Hash Eq v el (Matched g s i)" "probe_ok Hash Eq v el (Vacant g' s')" for g s i g' s'
    using matched [OF m(1)] m by auto
  show ?thesis
  proof (cases r)
    case (Matched g s i)
    then show ?thesis using r found [of g s i] mixed [of g s i] by (cases r') blast+
  next
    case (Vacant g s)
    then show ?thesis using r vacant [of g s] mixed [of _ _ _ g s] by (cases r') blast+
  qed
qed

text \<open>
  The interface of a probe loop: \<open>ok\<close> are the states it may run in, \<open>pos\<close> reads the current
  group off the loop variables and \<open>out\<close> the outcome off the loop's result. \<open>aux\<close> is what the loop
  knows of its other variables and \<open>auxr\<close> what it promises of the rest of its result.
\<close>

locale probing = step_loop step loop
  for step :: "'c \<Rightarrow> 's \<Rightarrow> ('s + 'r) option" and loop :: "'c \<Rightarrow> 's \<Rightarrow> 'r option" +
  fixes ok :: "'c \<Rightarrow> bool" and view :: "'c \<Rightarrow> 'e view"
    and tag :: "'c \<Rightarrow> u8" and matches :: "'c \<Rightarrow> 'e \<Rightarrow> bool"
    and pos :: "'s \<Rightarrow> nat" and out :: "'r \<Rightarrow> outcome"
    and aux :: "'c \<Rightarrow> 's \<Rightarrow> bool" and auxr :: "'c \<Rightarrow> 'r \<Rightarrow> bool"
  assumes step_scans: "ok c \<Longrightarrow> aux c s \<Longrightarrow> pos s < ngroups (view c) \<Longrightarrow>
    \<exists>r. step c s = Some r \<and> scan_ok (view c) (tag c) (matches c) (pos s) (map_sum pos out r) \<and>
      case_sum (aux c) (auxr c) r"
begin

text \<open>The loop ends at the first group with a match or an empty slot.\<close>

lemma probe_ends:
  assumes "ok c" and "g0 < ngroups (view c)" and "has_empty (view c) g0"
    and "pos s < ngroups (view c)" "aux c s"
  shows "\<exists>r k. loop c s = Some r \<and> auxr c r \<and> k \<le> dist (ngroups (view c)) (pos s) g0 \<and>
    (\<forall>d < k. no_match (view c) (tag c) (matches c) ((pos s + d) mod ngroups (view c)) \<and>
      \<not> has_empty (view c) ((pos s + d) mod ngroups (view c))) \<and>
    scan_ok (view c) (tag c) (matches c) ((pos s + k) mod ngroups (view c)) (Inr (out r))"
  using assms(4,5)
proof (induction "dist (ngroups (view c)) (pos s) g0" arbitrary: s rule: less_induct)
  case less
  let ?n = "ngroups (view c)" and ?ok = "scan_ok (view c) (tag c) (matches c)"
  let ?skip = "\<lambda>g. no_match (view c) (tag c) (matches c) g \<and> \<not> has_empty (view c) g"
  obtain r where r: "step c s = Some r" "?ok (pos s) (map_sum pos out r)" "case_sum (aux c) (auxr c) r"
    using step_scans [OF assms(1) less.prems(2,1)] by blast
  show ?case
  proof (cases r)
    case (Inr o')
    then have "loop c s = Some o'" using r(1) by (subst loop_unfold) simp
    moreover have "?ok (pos s) (Inr (out o'))" "auxr c o'" using r(2,3) Inr by simp_all
    ultimately show ?thesis using less.prems by (intro exI [of _ o'] exI [of _ 0]) simp
  next
    case (Inl s')
    have s': "pos s' = Suc (pos s) mod ?n" and skip: "?skip (pos s)"
      using r(2) Inl by auto
    then have ne: "pos s \<noteq> g0" using assms(3) by blast
    have D: "dist ?n (pos s) g0 = Suc (dist ?n (pos s') g0)"
      using dist_step [OF less.prems(1) assms(2) ne] s' by simp
    have "pos s' < ?n" "aux c s'" using s' less.prems r(3) Inl by simp_all
    then obtain o' k where ih: "loop c s' = Some o'" "auxr c o'" "k \<le> dist ?n (pos s') g0"
        "\<forall>d < k. ?skip ((pos s' + d) mod ?n)" "?ok ((pos s' + k) mod ?n) (Inr (out o'))"
      using less.hyps [of s'] D by auto
    have shift: "(pos s' + d) mod ?n = (pos s + Suc d) mod ?n" for d
      by (simp add: s' mod_add_left_eq)
    have "?skip ((pos s + d) mod ?n)" if "d < Suc k" for d
      using that ih(4) skip less.prems shift by (cases d) auto
    moreover have "loop c s = Some o'" using r(1) Inl ih(1) by (subst loop_unfold) simp
    ultimately show ?thesis
      using ih(2,3,5) D shift by (intro exI [of _ o'] exI [of _ "Suc k"]) simp
  qed
qed

lemma probe_correct:
  assumes hk: "hash_key Hash Eq" and ok: "ok c" and inv: "view_inv Hash Eq (view c)"
    and room: "bound (view c) < 8 * ngroups (view c)"
    and c: "matches c = (\<lambda>e. Eq e el)" "tag c = h7_of (Hash el)"
    and s: "pos s = home (ngroups (view c)) (Hash el)" and aux: "aux c s"
  shows "\<exists>r. loop c s = Some r \<and> probe_ok Hash Eq (view c) el (out r) \<and> auxr c r"
proof -
  let ?v = "view c" let ?n = "ngroups ?v"
  have n: "0 < ?n" using inv by (rule view_inv_ngroups)
  have pos: "pos s < ?n" using s n by (simp add: home_less)
  obtain g0 where "g0 < ?n" "has_empty ?v g0" using exists_empty_group [OF inv room] by blast
  then obtain r k where r: "loop c s = Some r" "k \<le> dist ?n (pos s) g0" "auxr c r"
      and skip: "\<And>d. d < k \<Longrightarrow> no_match ?v (tag c) (matches c) ((pos s + d) mod ?n) \<and>
        \<not> has_empty ?v ((pos s + d) mod ?n)"
      and ends: "scan_ok ?v (tag c) (matches c) ((pos s + k) mod ?n) (Inr (out r))"
    using probe_ends [OF ok _ _ pos aux] by blast
  have k: "k < ?n" using r(2) n by (simp add: dist_def) (meson le_less_trans mod_less_divisor)
  have "probe_ok Hash Eq ?v el (out r)"
  proof (cases "out r")
    case (Matched g t i)
    then show ?thesis using ends n c by auto
  next
    case (Vacant g t)
    then have g: "g = (pos s + k) mod ?n" "t < 8" "slot ?v g t = Empty" "\<forall>s' < t. slot ?v g s' \<noteq> Empty"
      "no_match ?v (tag c) (matches c) g" using ends by auto
    then have empty: "has_empty ?v ((pos s + k) mod ?n)" by (auto simp: has_empty_def)
    have "clear_path ?v (pos s) g"
      using skip dist_add [OF pos k] by (auto simp: clear_path_def g(1) dist_def)
    moreover have "\<not> Eq e el" if "live ?v i" "elem ?v i = Some e" for i e
      by (rule vacant_absent [OF hk inv k s _ _ empty that]) (use skip g c in auto)
    ultimately show ?thesis using Vacant g n s by simp
  qed
  then show ?thesis using r(1,3) by blast
qed

end

text \<open>Walking on from a group without an empty slot keeps the path clear.\<close>

lemma clear_path_refl: "a < ngroups v \<Longrightarrow> clear_path v a a"
  by (simp add: clear_path_def)

lemma clear_path_next:
  assumes "clear_path v a g" "\<not> has_empty v g" "a < ngroups v" "g < ngroups v"
  shows "clear_path v a (Suc g mod ngroups v)"
proof (cases "Suc g mod ngroups v = a")
  case True
  then show ?thesis using clear_path_refl [OF assms(3)] by simp
next
  case False
  let ?n = "ngroups v" and ?g = "Suc g mod ngroups v"
  have "dist ?n a ?g = Suc (dist ?n a g)"
    using False assms(3,4) by (auto simp: dist_cases mod_if split: if_splits)
  then have "\<not> has_empty v ((a + d) mod ?n)" if "d < dist ?n a ?g" for d
    using that clear_pathD [OF assms(1), of d] assms(2) add_dist [OF assms(3,4)] by (cases "d = dist ?n a g") auto
  then show ?thesis by (simp add: clear_path_def dist_def)
qed

end
