(* ===== verification/Table_Spec.thy ===== *)
theory Table_Spec
  imports Bin_View
begin

text \<open>
  What a table promises: its contents are a list of elements, oldest first, no two of them
  equal keys, and each operation is an operation on that list. Two interfaces go with it.
  \<open>bin_add\<close> is what a rebuild needs of a bin, that adding an absent element appends it.
  \<open>dictionary\<close> is what a client relies on, that a table answers every command as the list
  does; its lemmas lift this to whole sequences of commands.
\<close>

section \<open>Lists as dictionaries\<close>

definition member :: "('e \<Rightarrow> 'e \<Rightarrow> bool) \<Rightarrow> 'e list \<Rightarrow> 'e \<Rightarrow> bool" where
  "member Eq xs e \<longleftrightarrow> (\<exists>x \<in> set xs. Eq x e)"

datatype 'e cmd = Insert 'e | Replace 'e | Remove 'e | Find 'e

datatype 'e reply = Flag bool | Got "'e option"

primrec spec_step :: "('e \<Rightarrow> 'e \<Rightarrow> bool) \<Rightarrow> 'e list \<Rightarrow> 'e cmd \<Rightarrow> 'e reply \<times> 'e list" where
  "spec_step Eq xs (Insert e) = (Flag (member Eq xs e), if member Eq xs e then xs else xs @ [e])"
| "spec_step Eq xs (Replace e) = (Flag (member Eq xs e),
     if member Eq xs e then map (\<lambda>x. if Eq x e then e else x) xs else xs @ [e])"
| "spec_step Eq xs (Remove e) = (Flag (member Eq xs e), filter (\<lambda>x. \<not> Eq x e) xs)"
| "spec_step Eq xs (Find e) = (Got (List.find (\<lambda>x. Eq x e) xs), xs)"

primrec spec_run :: "('e \<Rightarrow> 'e \<Rightarrow> bool) \<Rightarrow> 'e list \<Rightarrow> 'e cmd list \<Rightarrow> 'e reply list \<times> 'e list" where
  "spec_run Eq xs [] = ([], xs)"
| "spec_run Eq xs (c # cs) =
     (let (r, ys) = spec_step Eq xs c; (rs, zs) = spec_run Eq ys cs in (r # rs, zs))"

primrec run_cmds :: "('t \<Rightarrow> 'e cmd \<Rightarrow> ('e reply \<times> 't) option) \<Rightarrow> 't \<Rightarrow> 'e cmd list \<Rightarrow>
    ('e reply list \<times> 't) option" where
  "run_cmds step t [] = Some ([], t)"
| "run_cmds step t (c # cs) =
     do {
       (r, t) \<leftarrow> step t c;
       (rs, t) \<leftarrow> run_cmds step t cs;
       Some (r # rs, t)
     }"

text \<open>No two elements of the list are equal keys.\<close>

definition keys_distinct :: "('e \<Rightarrow> 'e \<Rightarrow> bool) \<Rightarrow> 'e list \<Rightarrow> bool" where
  "keys_distinct Eq xs \<longleftrightarrow> sorted_wrt (\<lambda>x y. \<not> Eq x y) xs"

lemma keys_distinct_snoc: "keys_distinct Eq (xs @ [e]) \<longleftrightarrow> keys_distinct Eq xs \<and> \<not> member Eq xs e"
  by (auto simp: keys_distinct_def sorted_wrt_append member_def)

lemma keys_distinct_Cons: "keys_distinct Eq (x # xs) \<longleftrightarrow> (\<forall>y \<in> set xs. \<not> Eq x y) \<and> keys_distinct Eq xs"
  by (simp add: keys_distinct_def)

lemma length_remove_key:
  assumes hk: "hash_key Hash Eq" and "keys_distinct Eq xs" and "member Eq xs e"
  shows "Suc (length (filter (\<lambda>x. \<not> Eq x e) xs)) = length xs"
  using assms(2,3)
proof (induction xs)
  case (Cons x xs)
  show ?case
  proof (cases "Eq x e")
    case True
    then have "\<not> Eq y e" if "y \<in> set xs" for y
      using Cons.prems(1) that hash_key.eq_trans [OF hk, of x e y] hash_key.eq_sym [OF hk]
      by (auto simp: keys_distinct_Cons)
    then show ?thesis using True by (simp add: filter_id_conv)
  next
    case False
    then show ?thesis using Cons by (auto simp: keys_distinct_Cons member_def)
  qed
qed (simp add: member_def)

lemma contents_keys_distinct:
  assumes inv: "view_inv Hash Eq v"
  shows "keys_distinct Eq (contents v)"
proof -
  have "sorted_wrt (\<lambda>i j. \<not> Eq (the (elem v i)) (the (elem v j))) (filter (\<lambda>i. \<not> dead v i) [0..<bound v])"
  proof (rule sorted_wrt_mono_rel [OF _ sorted_wrt_filter [OF sorted_wrt_upt]])
    fix i j assume "i \<in> set (filter (\<lambda>i. \<not> dead v i) [0..<bound v])"
      "j \<in> set (filter (\<lambda>i. \<not> dead v i) [0..<bound v])" and less: "i < j"
    then have l: "live v i" "live v j" by (auto simp: live_def)
    obtain x y where "elem v i = Some x" "elem v j = Some y" using live_elem [OF inv] l by blast
    then show "\<not> Eq (the (elem v i)) (the (elem v j))"
      using view_inv_keys_inj [OF inv l] less by auto
  qed
  then show ?thesis by (simp add: keys_distinct_def contents_def sorted_wrt_map)
qed

lemma find_after_replace:
  assumes "hash_key Hash Eq"
  shows "List.find (\<lambda>x. Eq x q) (snd (spec_step Eq xs (Replace e))) =
    (if Eq e q then Some e else List.find (\<lambda>x. Eq x q) xs)"
proof -
  note eq = hash_key.eq_refl [OF assms] hash_key.eq_sym [OF assms] hash_key.eq_trans [OF assms]
  have other: "List.find (\<lambda>x. Eq x q) (map (\<lambda>x. if Eq x e then e else x) xs) = List.find (\<lambda>x. Eq x q) xs"
    if "\<not> Eq e q"
    by (induction xs) (use that in \<open>auto intro: eq(2,3)\<close>)
  have same: "List.find (\<lambda>x. Eq x q) (map (\<lambda>x. if Eq x e then e else x) xs) = Some e"
    if "Eq e q" "\<exists>x \<in> set xs. Eq x e"
    using that(2) by (induction xs) (use that(1) in \<open>auto intro: eq(2,3)\<close>)
  have "List.find (\<lambda>x. Eq x q) (xs @ [e]) = (if Eq e q then Some e else List.find (\<lambda>x. Eq x q) xs)"
    if "\<forall>x \<in> set xs. \<not> Eq x e"
    using that by (induction xs) (auto intro: eq(2,3))
  then show ?thesis using same other by (simp add: member_def)
qed

section \<open>Copying elements into a bin\<close>

primrec add_all :: "(u64 \<Rightarrow> 'b \<Rightarrow> 'e \<Rightarrow> (u64 \<times> 'b) option) \<Rightarrow> 'e list \<Rightarrow> u64 \<Rightarrow> 'b \<Rightarrow> (u64 \<times> 'b) option" where
  "add_all add [] num b = Some (num, b)"
| "add_all add (e # es) num b = do { (num, b) \<leftarrow> add num b e; add_all add es num b }"

locale bin_add =
  fixes Eq :: "'e \<Rightarrow> 'e \<Rightarrow> bool" and add :: "u64 \<Rightarrow> 'b \<Rightarrow> 'e \<Rightarrow> (u64 \<times> 'b) option"
    and inv :: "'b \<Rightarrow> bool" and abs :: "'b \<Rightarrow> 'e list" and used :: "'b \<Rightarrow> nat" and cap :: nat
  assumes add_absent: "inv b \<Longrightarrow> used b < cap \<Longrightarrow> \<not> member Eq (abs b) e \<Longrightarrow>
    \<exists>num' b'. add num b e = Some (num', b') \<and> inv b' \<and> abs b' = abs b @ [e] \<and> used b' = Suc (used b)"
begin

lemma add_all_appends:
  assumes "inv b" "used b + length es \<le> cap" "keys_distinct Eq (abs b @ es)"
  shows "\<exists>num' b'. add_all add es num b = Some (num', b') \<and> inv b' \<and> abs b' = abs b @ es \<and>
    used b' = used b + length es"
  using assms
proof (induction es arbitrary: b num)
  case Nil
  then show ?case by simp
next
  case (Cons e es)
  have "\<not> member Eq (abs b) e"
    using Cons.prems(3) by (auto simp: keys_distinct_def sorted_wrt_append member_def)
  then obtain num' b' where b': "add num b e = Some (num', b')" "inv b'" "abs b' = abs b @ [e]"
      "used b' = Suc (used b)"
    using add_absent [of b e num] Cons.prems by auto
  have "used b' + length es \<le> cap" "keys_distinct Eq (abs b' @ es)" using b' Cons.prems by simp_all
  then show ?case using Cons.IH [OF b'(2), of num'] b' by simp
qed

lemma add_all_agree:
  assumes agree: "\<And>b e num. inv b \<Longrightarrow> add num b e = add' num b e"
    and "inv b" "used b + length es \<le> cap" "keys_distinct Eq (abs b @ es)"
  shows "add_all add es num b = add_all add' es num b"
  using assms(2-)
proof (induction es arbitrary: b num)
  case (Cons e es)
  have "\<not> member Eq (abs b) e"
    using Cons.prems(3) by (auto simp: keys_distinct_def sorted_wrt_append member_def)
  then obtain num' b' where b': "add num b e = Some (num', b')" "inv b'" "abs b' = abs b @ [e]"
      "used b' = Suc (used b)"
    using add_absent [of b e num] Cons.prems by auto
  have "used b' + length es \<le> cap" "keys_distinct Eq (abs b' @ es)" using b' Cons.prems by simp_all
  then show ?case using Cons.IH [OF b'(2), of num'] b'(1) agree [OF Cons.prems(1), of num e] by simp
qed simp

end

section \<open>Clients\<close>

lemma length_spec_step: "length (snd (spec_step Eq xs c)) \<le> Suc (length xs)"
  by (cases c) (auto intro: le_SucI)

locale dictionary =
  fixes Eq :: "'e \<Rightarrow> 'e \<Rightarrow> bool" and step :: "'t \<Rightarrow> 'e cmd \<Rightarrow> ('e reply \<times> 't) option"
    and inv :: "'t \<Rightarrow> bool" and abs :: "'t \<Rightarrow> 'e list" and limit :: nat
  assumes step_refines: "inv t \<Longrightarrow> length (abs t) < limit \<Longrightarrow>
    \<exists>t'. step t c = Some (fst (spec_step Eq (abs t) c), t') \<and> inv t' \<and> abs t' = snd (spec_step Eq (abs t) c)"
begin

text \<open>A sequence of commands is answered as the list answers it.\<close>

lemma run_refines:
  assumes "inv t" "length (abs t) + length cs \<le> limit"
  shows "\<exists>t'. run_cmds step t cs = Some (fst (spec_run Eq (abs t) cs), t') \<and> inv t' \<and>
    abs t' = snd (spec_run Eq (abs t) cs)"
  using assms
proof (induction cs arbitrary: t)
  case Nil
  then show ?case by simp
next
  case (Cons c cs)
  obtain t' where t': "step t c = Some (fst (spec_step Eq (abs t) c), t')" "inv t'"
      "abs t' = snd (spec_step Eq (abs t) c)"
    using step_refines [of t c] Cons.prems by auto
  have "length (abs t') + length cs \<le> limit"
    using t'(3) length_spec_step [of Eq "abs t" c] Cons.prems(2) by simp
  then show ?case using Cons.IH [OF t'(2)] t' by (auto simp: Let_def split: prod.split)
qed

end

end
