(* ===== verification/Client.thy ===== *)
theory Client
  imports Table_Spec
begin

text \<open>
  The calls of \<open>tests/test_c.c\<close> and \<open>benchmarks/bench_c.c\<close>. \<open>perform\<close> is the table's operation with
  the action fixed, \<open>store\<close> the assignment through the pointer it returned, \<open>load\<close> the read through it;
  \<open>'p\<close> is the type of pointers to elements.
\<close>

type_synonym ('t, 'e, 'p) call = "'t \<Rightarrow> 'e \<Rightarrow> (bool \<times> 'p option \<times> 't) option"

text \<open>\<open>if (!perform (t, &e, INSERT, &r)) *r = e;\<close>\<close>

definition client_insert :: "('t, 'e, 'p) call \<Rightarrow> ('t \<Rightarrow> 'p option \<Rightarrow> 'e \<Rightarrow> 't option) \<Rightarrow> 't \<Rightarrow> 'e \<Rightarrow>
    (bool \<times> 't) option" where
  "client_insert perform store t e =
     do {
       (found, res, t) \<leftarrow> perform t e;
       if \<not> found then do { t \<leftarrow> store t res e; Some (found, t) } else Some (found, t)
     }"

text \<open>\<open>perform (t, &e, INSERT, &r); *r = e;\<close>: insert or replace.\<close>

definition client_replace :: "('t, 'e, 'p) call \<Rightarrow> ('t \<Rightarrow> 'p option \<Rightarrow> 'e \<Rightarrow> 't option) \<Rightarrow> 't \<Rightarrow> 'e \<Rightarrow>
    (bool \<times> 't) option" where
  "client_replace perform store t e =
     do {
       (found, res, t) \<leftarrow> perform t e;
       t \<leftarrow> store t res e;
       Some (found, t)
     }"

text \<open>\<open>if (perform (t, &e, FIND, &r))\<close> use \<open>*r\<close>.\<close>

definition client_find :: "('t, 'e, 'p) call \<Rightarrow> ('t \<Rightarrow> 'p option \<Rightarrow> 'e option) \<Rightarrow> 't \<Rightarrow> 'e \<Rightarrow>
    ('e option \<times> 't) option" where
  "client_find perform load t e =
     do {
       (found, res, t) \<leftarrow> perform t e;
       if found then do { x \<leftarrow> load t res; Some (Some x, t) } else Some (None, t)
     }"

definition client_remove :: "('t, 'e, 'p) call \<Rightarrow> 't \<Rightarrow> 'e \<Rightarrow> (bool \<times> 't) option" where
  "client_remove perform t e =
     do {
       (found, res, t) \<leftarrow> perform t e;
       Some (found, t)
     }"

primrec client_step :: "('t, 'e, 'p) call \<Rightarrow> ('t, 'e, 'p) call \<Rightarrow> ('t, 'e, 'p) call \<Rightarrow>
    ('t \<Rightarrow> 'p option \<Rightarrow> 'e \<Rightarrow> 't option) \<Rightarrow> ('t \<Rightarrow> 'p option \<Rightarrow> 'e option) \<Rightarrow> 't \<Rightarrow> 'e cmd \<Rightarrow>
    ('e reply \<times> 't) option" where
  "client_step find_op delete_op insert_op store load t (Insert e) =
     do { (r, t) \<leftarrow> client_insert insert_op store t e; Some (Flag r, t) }"
| "client_step find_op delete_op insert_op store load t (Replace e) =
     do { (r, t) \<leftarrow> client_replace insert_op store t e; Some (Flag r, t) }"
| "client_step find_op delete_op insert_op store load t (Remove e) =
     do { (r, t) \<leftarrow> client_remove delete_op t e; Some (Flag r, t) }"
| "client_step find_op delete_op insert_op store load t (Find e) =
     do { (r, t) \<leftarrow> client_find find_op load t e; Some (Got r, t) }"

text \<open>The loop of a client over an iterator, collecting what it points at.\<close>

partial_function (option) client_iterate :: "('i \<Rightarrow> bool) \<Rightarrow> ('i \<Rightarrow> 'e option) \<Rightarrow> ('i \<Rightarrow> 'i option) \<Rightarrow> 'i \<Rightarrow>
    'e list option" where
  "client_iterate valid deref next it =
     (if valid it then do {
        e \<leftarrow> deref it;
        it \<leftarrow> next it;
        es \<leftarrow> client_iterate valid deref next it;
        Some (e # es)
      }
      else Some [])"

text \<open>
  \<open>at is it\<close> tells that the iterator stands before the elements at the indices \<open>is\<close>: then the loop
  collects them.
\<close>

lemma client_iterate_collects:
  assumes "at is it" and "\<And>it. at [] it \<Longrightarrow> \<not> valid it"
    and "\<And>i is it. at (i # is) it \<Longrightarrow> valid it \<and> deref it = Some (f i) \<and> (\<exists>it'. next it = Some it' \<and> at is it')"
  shows "client_iterate valid deref next it = Some (map f is)"
  using assms(1)
proof (induction "is" arbitrary: it)
  case Nil
  then show ?case using assms(2) by (subst client_iterate.simps) simp
next
  case (Cons i "is")
  then obtain it' where it': "valid it" "deref it = Some (f i)" "next it = Some it'" "at is it'"
    using assms(3) by blast
  then show ?case using Cons.IH [OF it'(4)] by (subst client_iterate.simps) simp
qed

end
