(* ===== verification/Flat_Table.thy ===== *)
theory Flat_Table
  imports Client
begin

text \<open>
  Tables with a single bin, as both versions of the plain table have: the actions, the record of a
  table, and the interface \<open>flat_table\<close>. The interface
  asks of a bin how find, insert and delete act on its view, and of a table that its operations are
  composed of those of the bin as the headers compose them; its lemmas show that rebuilding keeps the
  elements and their order, that every call acts on the list of elements as its contract says, and
  that iteration visits that list.
\<close>

section \<open>Actions and tables\<close>

text \<open>The enum, ordered as its constants are: \<open>action >= IHT_INSERT\<close> is a comparison of ints.\<close>

datatype iht_action = IHT_FIND | IHT_DELETE | IHT_INSERT

primrec iht_action_code :: "iht_action \<Rightarrow> nat" where
  "iht_action_code IHT_FIND = 0"
| "iht_action_code IHT_DELETE = 1"
| "iht_action_code IHT_INSERT = 2"

instantiation iht_action :: linorder
begin

definition less_eq_iht_action :: "iht_action \<Rightarrow> iht_action \<Rightarrow> bool" where
  "less_eq_iht_action a b \<longleftrightarrow> iht_action_code a \<le> iht_action_code b"

definition less_iht_action :: "iht_action \<Rightarrow> iht_action \<Rightarrow> bool" where
  "less_iht_action a b \<longleftrightarrow> iht_action_code a < iht_action_code b"

instance
proof
  show "a = b" if "a \<le> b" "b \<le> a" for a b :: iht_action
    using that by (cases a; cases b) (auto simp: less_eq_iht_action_def)
qed (auto simp: less_eq_iht_action_def less_iht_action_def)

end

lemma iht_action_order:
  "\<not> IHT_INSERT \<le> IHT_FIND" "IHT_FIND < IHT_INSERT" "\<not> IHT_INSERT \<le> IHT_DELETE" "IHT_DELETE < IHT_INSERT"
  by (simp_all add: less_eq_iht_action_def less_iht_action_def)

text \<open>The structure of a table, with the type of its bin as a parameter, and its iterator.\<close>

record 'b bin_table =
  els_num :: u64
  bin :: 'b

record iht_iter =
  el_idx :: u64
  ptr :: "nat option"

lemma bin_table_collapse [simp]: "\<lparr>els_num = els_num t, bin = bin t\<rparr> = (t :: 'b bin_table)"
  by simp

section \<open>Sizes\<close>

lemma pow2_le_30: "k \<le> 30 \<Longrightarrow> (2 :: nat) ^ k \<le> 2 ^ 30"
  by (rule power_increasing) simp_all

lemma unat_pow2_minus_1: "k \<le> 30 \<Longrightarrow> unat (2 ^ k - 1 :: u64) = 2 ^ k - 1"
  by (subst unat_sub) (simp_all add: word_le_nat_alt)

lemma table_sizes:
  assumes "k \<le> 30"
  shows "unat (8 * 2 ^ k :: u64) = 8 * 2 ^ k" "unat (4 * 2 ^ k :: u64) = 4 * 2 ^ k"
    and "(8 * 2 ^ k :: u64) div 2 = 4 * 2 ^ k" "(8 * 2 ^ k :: u64) div 8 = 2 ^ k"
    and "unat (2 ^ k * 40 :: u64) = 40 * 2 ^ k" "unat (2 ^ k :: u64) = 2 ^ k"
    and "unat (4 * 2 ^ k - 1 :: u64) = 4 * 2 ^ k - 1" "unat ((4 * 2 ^ k + 7) div 8 :: u64) = (4 * 2 ^ k + 7) div 8"
proof -
  have le: "(2 :: nat) ^ k \<le> 2 ^ 30" by (rule pow2_le_30 [OF assms])
  then show u: "unat (8 * 2 ^ k :: u64) = 8 * 2 ^ k" "unat (4 * 2 ^ k :: u64) = 4 * 2 ^ k"
    "unat (2 ^ k * 40 :: u64) = 40 * 2 ^ k" "unat (2 ^ k :: u64) = 2 ^ k"
    using assms by (simp_all add: unat_mult_less)
  show "(8 * 2 ^ k :: u64) div 2 = 4 * 2 ^ k" "(8 * 2 ^ k :: u64) div 8 = 2 ^ k"
    using u by (simp_all add: word_unat_eq_iff unat_div)
  have "(1 :: u64) \<le> 4 * 2 ^ k" using u by (simp add: word_le_nat_alt)
  then show "unat (4 * 2 ^ k - 1 :: u64) = 4 * 2 ^ k - 1" using u by (subst unat_sub) simp_all
  show "unat ((4 * 2 ^ k + 7) div 8 :: u64) = (4 * 2 ^ k + 7) div 8"
    using u(2) le by (simp add: unat_div unat_add_less)
qed

lemma ceil_4: "(m + 3) div 4 \<le> p \<longleftrightarrow> m \<le> 4 * (p :: nat)"
  by arith

text \<open>
  The loop \<open>while (size / 2 < min_size) size *= 2;\<close> of the constructors: it ends with the least power
  of two that leaves enough room, and never ends once the size has wrapped around.
\<close>

lemma size_loop_runs:
  fixes loop :: "u64 \<Rightarrow> u64 option"
  assumes unfold: "\<And>s. loop s = (if s div 2 < min_size then loop (s * 2) else Some s)"
    and "j \<le> k" "k \<le> 30" "unat min_size \<le> 4 * 2 ^ k" "k = j \<or> 4 * 2 ^ (k - 1) < unat min_size"
  shows "loop (8 * 2 ^ j) = Some (8 * 2 ^ k)"
  using assms(2-)
proof (induction "k - j" arbitrary: j)
  case 0
  then have "j = k" by simp
  then show ?case using 0 table_sizes [of k] by (subst unfold) (simp add: word_less_nat_alt)
next
  case (Suc d)
  then have j: "Suc j \<le> k" "j \<le> 30" by auto
  have "(2 :: nat) ^ j \<le> 2 ^ (k - 1)" using j(1) by (intro power_increasing) auto
  then have less: "4 * 2 ^ j < unat min_size" using Suc.prems(4) j(1) by linarith
  have "loop (8 * 2 ^ Suc j) = Some (8 * 2 ^ k)"
    using Suc.hyps(2) Suc.prems j by (intro Suc.hyps(1)) auto
  then show ?case
    using less table_sizes [OF j(2)]
    by (subst unfold) (simp add: word_less_nat_alt mult.commute mult.left_commute)
qed

lemma size_loop_wraps:
  assumes "\<not> y div 2 < min_size" "y = (8 :: u64) * 2 ^ j" "2 ^ 62 < unat min_size"
  shows False
proof -
  have pow: "y = 2 ^ (j + 3)" using assms(2) by (simp add: power_add)
  have "unat y \<le> 2 ^ 63"
  proof (cases "j + 3 < 64")
    case True
    then have "(2 :: nat) ^ (j + 3) \<le> 2 ^ 63" by (intro power_increasing) auto
    then show ?thesis using True pow by simp
  next
    case False
    then have "y = 0" using pow by simp
    then show ?thesis by simp
  qed
  then have "unat (y div 2) \<le> 2 ^ 62" by (simp add: unat_div)
  then show False using assms by (simp add: word_less_nat_alt)
qed

lemma table_power:
  assumes "unat min_size \<le> 2 ^ 32"
  shows "\<exists>k \<le> 30. unat min_size \<le> 4 * 2 ^ k \<and> (k = 0 \<or> 4 * 2 ^ (k - 1) < unat min_size)"
proof -
  have "(unat min_size + 3) div 4 \<le> 2 ^ 30" using assms by (simp add: ceil_4)
  from least_pow2 [OF this] show ?thesis
    unfolding ceil_4 not_le [symmetric] by blast
qed

section \<open>The interface of a table with one bin\<close>

text \<open>
  What a table stands for and its invariant at rest: the bin's invariant, with at least one element
  cell still free, and the counter equal to the number of stored elements.
\<close>

definition flat_abs :: "('b \<Rightarrow> 'e view) \<Rightarrow> 'b bin_table \<Rightarrow> 'e list" where
  "flat_abs view t = contents (view (bin t))"

definition flat_inv :: "(nat \<Rightarrow> 'b \<Rightarrow> bool) \<Rightarrow> ('b \<Rightarrow> 'e view) \<Rightarrow> nat \<Rightarrow> 'b bin_table \<Rightarrow> bool" where
  "flat_inv bin_inv view k t \<longleftrightarrow> bin_inv k (bin t) \<and> bound (view (bin t)) < 4 * 2 ^ k \<and>
     unat (els_num t) = length (flat_abs view t)"

text \<open>
  The bin: \<open>do_1\<close> and \<open>new_bin\<close> with the laws of find, insert and delete on its view; the
  arrays a table reads directly.
\<close>

locale flat_bin =
  fixes Hash :: "'e \<Rightarrow> u64" and Eq :: "'e \<Rightarrow> 'e \<Rightarrow> bool"
    and do_1 :: "u64 \<Rightarrow> 'b \<Rightarrow> 'e \<Rightarrow> iht_action \<Rightarrow> (bool \<times> nat option \<times> u64 \<times> 'b) option"
    and new_bin :: "u64 \<Rightarrow> u64 \<Rightarrow> 'b option"
    and els_of :: "'b \<Rightarrow> 'e option list" and with_els :: "'e option list \<Rightarrow> 'b \<Rightarrow> 'b"
    and del_of :: "'b \<Rightarrow> u8 list" and bound_of :: "'b \<Rightarrow> u64" and mask_of :: "'b \<Rightarrow> u64"
    and view :: "'b \<Rightarrow> 'e view" and bin_inv :: "nat \<Rightarrow> 'b \<Rightarrow> bool"
  assumes bin_view: "bin_inv k b \<Longrightarrow> view_inv Hash Eq (view b) \<and> elem (view b) = read_el (els_of b) \<and>
      dead (view b) = del_bit (del_of b) \<and> bound (view b) = unat (bound_of b)"
    and bin_size: "bin_inv k b \<Longrightarrow> k \<le> 30 \<and> mask_of b = 2 ^ k - 1 \<and> length (els_of b) = 4 * 2 ^ k \<and>
      length (del_of b) = (4 * 2 ^ k + 7) div 8"
    and new_bin_empty: "k \<le> 30 \<Longrightarrow> \<exists>b. new_bin (8 * 2 ^ k) (4 * 2 ^ k) = Some b \<and> bin_inv k b \<and>
      bound_of b = 0 \<and> contents (view b) = []"
    and do_1_present: "hash_key Hash Eq \<Longrightarrow> bin_inv k b \<Longrightarrow> y \<in> set (contents (view b)) \<Longrightarrow> Eq y el \<Longrightarrow>
      \<exists>i x. live (view b) i \<and> elem (view b) i = Some x \<and> Eq x el \<and>
        (\<forall>a. a \<noteq> IHT_DELETE \<longrightarrow> do_1 num b el a = Some (True, Some i, num, b)) \<and>
        (\<exists>b'. do_1 num b el IHT_DELETE = Some (True, None, num - 1, b') \<and> bin_inv k b' \<and> bound_of b' = bound_of b \<and>
          contents (view b') = filter (\<lambda>x. \<not> Eq x el) (contents (view b)))"
    and do_1_absent: "hash_key Hash Eq \<Longrightarrow> bin_inv k b \<Longrightarrow> \<forall>x \<in> set (contents (view b)). \<not> Eq x el \<Longrightarrow>
      a < IHT_INSERT \<Longrightarrow> do_1 num b el a = Some (False, None, num, b)"
    and do_1_insert: "hash_key Hash Eq \<Longrightarrow> bin_inv k b \<Longrightarrow> \<forall>x \<in> set (contents (view b)). \<not> Eq x el \<Longrightarrow>
      unat (bound_of b) < 4 * 2 ^ k - 1 \<Longrightarrow>
      \<exists>b' xs. do_1 num b el IHT_INSERT = Some (False, Some (unat (bound_of b)), num + 1, b') \<and>
        write_el (els_of b') (unat (bound_of b)) el = Some xs \<and> bin_inv k (with_els xs b') \<and>
        unat (bound_of (with_els xs b')) = Suc (unat (bound_of b)) \<and>
        contents (view (with_els xs b')) = contents (view b) @ [el]"
    and set_el: "hash_key Hash Eq \<Longrightarrow> bin_inv k b \<Longrightarrow> live (view b) i \<Longrightarrow> elem (view b) i = Some x \<Longrightarrow> Eq x e \<Longrightarrow>
      write_el (els_of b) i e = Some xs \<Longrightarrow>
      bin_inv k (with_els xs b) \<and> view (with_els xs b) = view_set i e (view b)"
begin

text \<open>The body of the copying loop of a rebuild: insert an element and store it through the pointer.\<close>

definition add_el :: "u64 \<Rightarrow> 'b \<Rightarrow> 'e \<Rightarrow> (u64 \<times> 'b) option" where
  "add_el num b e =
     do {
       (found, res, num, b) \<leftarrow> do_1 num b e IHT_INSERT;
       r \<leftarrow> res;
       xs \<leftarrow> write_el (els_of b) r e;
       Some (num, with_els xs b)
     }"

lemma add_el_absent:
  assumes "hash_key Hash Eq \<and> bin_inv k b" "unat (bound_of b) < 4 * 2 ^ k - 1" "\<not> member Eq (contents (view b)) e"
  shows "\<exists>num' b'. add_el num b e = Some (num', b') \<and> (hash_key Hash Eq \<and> bin_inv k b') \<and>
    contents (view b') = contents (view b) @ [e] \<and> unat (bound_of b') = Suc (unat (bound_of b))"
  using do_1_insert [of k b e num] assms by (auto simp: member_def add_el_def)

lemma bin_invD:
  assumes "bin_inv k b"
  shows "view_inv Hash Eq (view b)" "elem (view b) = read_el (els_of b)" "dead (view b) = del_bit (del_of b)"
    "bound (view b) = unat (bound_of b)" "k \<le> 30" "mask_of b = 2 ^ k - 1" "length (els_of b) = 4 * 2 ^ k"
    "length (del_of b) = (4 * 2 ^ k + 7) div 8"
  using bin_view [OF assms] bin_size [OF assms] by simp_all

lemma live_read:
  assumes "bin_inv k b" "live (view b) i"
  shows "read_el (els_of b) i = Some (the (elem (view b) i))"
  using live_elem [OF bin_invD(1) [OF assms(1)] assms(2)] bin_invD(2) [OF assms(1)] by force

end

sublocale flat_bin \<subseteq> adds: bin_add Eq add_el "\<lambda>b. hash_key Hash Eq \<and> bin_inv k b" "\<lambda>b. contents (view b)"
    "\<lambda>b. unat (bound_of b)" "4 * 2 ^ k - 1" for k
  by unfold_locales (rule add_el_absent)

text \<open>The table: its operations, composed of those of the bin.\<close>

locale flat_table = flat_bin Hash Eq do_1 new_bin els_of with_els del_of bound_of mask_of view bin_inv
  for Hash :: "'e \<Rightarrow> u64" and Eq :: "'e \<Rightarrow> 'e \<Rightarrow> bool"
    and do_1 :: "u64 \<Rightarrow> 'b \<Rightarrow> 'e \<Rightarrow> iht_action \<Rightarrow> (bool \<times> nat option \<times> u64 \<times> 'b) option"
    and new_bin :: "u64 \<Rightarrow> u64 \<Rightarrow> 'b option"
    and els_of :: "'b \<Rightarrow> 'e option list" and with_els :: "'e option list \<Rightarrow> 'b \<Rightarrow> 'b"
    and del_of :: "'b \<Rightarrow> u8 list" and bound_of :: "'b \<Rightarrow> u64" and mask_of :: "'b \<Rightarrow> u64"
    and view :: "'b \<Rightarrow> 'e view" and bin_inv :: "nat \<Rightarrow> 'b \<Rightarrow> bool" +
  fixes reinsert :: "'b \<Rightarrow> nat list \<Rightarrow> u64 \<Rightarrow> 'b \<Rightarrow> (u64 \<times> 'b) option"
    and rebuild :: "'b bin_table \<Rightarrow> 'b bin_table option"
    and perform :: "iht_action \<Rightarrow> 'b bin_table \<Rightarrow> 'e \<Rightarrow> (bool \<times> nat option \<times> 'b bin_table) option"
    and store :: "'b bin_table \<Rightarrow> nat option \<Rightarrow> 'e \<Rightarrow> 'b bin_table option"
    and load :: "'b bin_table \<Rightarrow> nat option \<Rightarrow> 'e option"
    and advance :: "'b bin_table \<Rightarrow> iht_iter \<Rightarrow> iht_iter option"
  assumes reinsert_Nil: "reinsert old [] num rb = Some (num, rb)"
    and reinsert_Cons: "reinsert old (i # is) num rb = do {
        d \<leftarrow> del_test (del_of old) i;
        if d then reinsert old is num rb
        else do { e \<leftarrow> read_el (els_of old) i; (num, rb) \<leftarrow> add_el num rb e; reinsert old is num rb }
      }"
    and rebuild_unfold: "rebuild t = do {
        let size = (mask_of (bin t) + 1) * 8;
        let size = (if size \<le> 4 * els_num t then size * 2 else size);
        rb \<leftarrow> new_bin size (size div 2);
        (num, rb) \<leftarrow> reinsert (bin t) [0..<unat (bound_of (bin t))] (els_num t) rb;
        Some \<lparr>els_num = els_num t, bin = rb\<rparr>
      }"
    and perform_unfold: "perform a t e = do {
        t \<leftarrow> (if a \<ge> IHT_INSERT \<and> (mask_of (bin t) + 1) * 8 div 2 - 1 \<le> bound_of (bin t) then rebuild t else Some t);
        (found, res, num, b) \<leftarrow> do_1 (els_num t) (bin t) e a;
        Some (found, res, \<lparr>els_num = num, bin = b\<rparr>)
      }"
    and store_unfold: "store t res e = do {
        r \<leftarrow> res;
        xs \<leftarrow> write_el (els_of (bin t)) r e;
        Some (t\<lparr>bin := with_els xs (bin t)\<rparr>)
      }"
    and load_unfold: "load t res = do { r \<leftarrow> res; read_el (els_of (bin t)) r }"
    and advance_unfold: "advance t it =
      (if el_idx it < bound_of (bin t) then do {
         d \<leftarrow> del_test (del_of (bin t)) (unat (el_idx it));
         if \<not> d then Some (it\<lparr>ptr := Some (unat (el_idx it))\<rparr>) else advance t (it\<lparr>el_idx := el_idx it + 1\<rparr>)
       }
       else Some (it\<lparr>ptr := None\<rparr>))"
begin

abbreviation tab_inv :: "nat \<Rightarrow> 'b bin_table \<Rightarrow> bool" where "tab_inv \<equiv> flat_inv bin_inv view"

abbreviation tab_abs :: "'b bin_table \<Rightarrow> 'e list" where "tab_abs \<equiv> flat_abs view"

lemma tab_invD:
  assumes "tab_inv k t"
  shows "bin_inv k (bin t)" "unat (bound_of (bin t)) < 4 * 2 ^ k"
    "unat (els_num t) = length (tab_abs t)" "unat (els_num t) \<le> unat (bound_of (bin t))" "k \<le> 30"
    "mask_of (bin t) + 1 = 2 ^ k" "view_inv Hash Eq (view (bin t))"
proof -
  show inv: "bin_inv k (bin t)" using assms by (simp add: flat_inv_def)
  note d = bin_invD [OF inv]
  show "unat (bound_of (bin t)) < 4 * 2 ^ k" "unat (els_num t) = length (tab_abs t)"
    "k \<le> 30" "mask_of (bin t) + 1 = 2 ^ k" "view_inv Hash Eq (view (bin t))"
    using d assms by (simp_all add: flat_inv_def)
  then show "unat (els_num t) \<le> unat (bound_of (bin t))"
    using length_contents [of "view (bin t)"] d(4) by (simp add: flat_abs_def)
qed

lemma tab_abs_distinct: "tab_inv k t \<Longrightarrow> keys_distinct Eq (tab_abs t)"
  unfolding flat_abs_def by (rule contents_keys_distinct) (rule tab_invD(7))

lemma new_table:
  assumes "bin_inv k b" "bound_of b = 0" "contents (view b) = []"
  shows "tab_inv k \<lparr>els_num = 0, bin = b\<rparr> \<and> tab_abs \<lparr>els_num = 0, bin = b\<rparr> = []"
  using assms bin_invD(4) [OF assms(1)] by (simp add: flat_inv_def flat_abs_def)

subsection \<open>Rebuilding\<close>

lemma reinsert_eq:
  assumes "\<And>i. i \<in> set is \<Longrightarrow> i div 8 < length (del_of old)"
    and "\<And>i. i \<in> set is \<Longrightarrow> \<not> del_bit (del_of old) i \<Longrightarrow> read_el (els_of old) i \<noteq> None"
  shows "reinsert old is num rb =
    add_all add_el (map (\<lambda>i. the (read_el (els_of old) i)) (filter (\<lambda>i. \<not> del_bit (del_of old) i) is)) num rb"
  using assms
proof (induction "is" arbitrary: num rb)
  case Nil
  then show ?case by (simp add: reinsert_Nil)
next
  case (Cons i "is")
  have d: "del_test (del_of old) i = Some (del_bit (del_of old) i)"
    using Cons.prems(1) [of i] by (simp add: del_test_eq)
  show ?case
  proof (cases "del_bit (del_of old) i")
    case True
    then show ?thesis using Cons d by (simp add: reinsert_Cons)
  next
    case False
    then obtain e where "read_el (els_of old) i = Some e" using Cons.prems(2) [of i] by auto
    then show ?thesis using Cons d False by (cases "add_el num rb e") (auto simp: reinsert_Cons)
  qed
qed

lemma reinsert_contents:
  assumes inv: "tab_inv k t"
  shows "reinsert (bin t) [0..<unat (bound_of (bin t))] num rb = add_all add_el (tab_abs t) num rb"
proof -
  note d = tab_invD [OF inv]
  note b = bin_invD [OF d(1)]
  have "read_el (els_of (bin t)) i \<noteq> None" if "i < unat (bound_of (bin t))" "\<not> del_bit (del_of (bin t)) i" for i
    using live_elem [OF d(7), of i] that b by (auto simp: live_def)
  moreover have "i div 8 < length (del_of (bin t))" if "i < unat (bound_of (bin t))" for i
    using that d(2) b(8) by simp
  ultimately show ?thesis
    by (subst reinsert_eq) (auto simp: flat_abs_def contents_def b)
qed

lemma rebuild_size_eq:
  assumes inv: "tab_inv k t"
  shows "(let size = (mask_of (bin t) + 1) * 8 in if size \<le> 4 * els_num t then size * 2 else size) =
    8 * 2 ^ (if 2 * 2 ^ k \<le> length (tab_abs t) then Suc k else k)"
proof -
  note d = tab_invD [OF inv]
  have "unat (els_num t) < 4 * 2 ^ 30" using d(2,4) pow2_le_30 [OF d(5)] by linarith
  then have "unat (4 * els_num t) = 4 * unat (els_num t)" by (subst unat_mult_less) simp_all
  then have "(8 * 2 ^ k \<le> 4 * els_num t) = (2 * 2 ^ k \<le> length (tab_abs t))"
    using table_sizes(1) [OF d(5)] d(3) by (simp add: word_le_nat_alt)
  then show ?thesis by (simp add: d(6) Let_def mult.commute mult.left_commute)
qed

text \<open>
  A rebuild keeps the elements and their order and leaves room for an insertion. A table
  with fewer than \<open>2 ^ 31\<close> elements stays within the 32-bit index range.
\<close>

lemma rebuild_grows:
  assumes inv: "tab_inv k t" and small: "length (tab_abs t) < 2 ^ 31"
    and k': "k' = (if 2 * 2 ^ k \<le> length (tab_abs t) then Suc k else k)"
  shows "k' \<le> 30" "length (tab_abs t) < 4 * 2 ^ k' - 1"
proof -
  note d = tab_invD [OF inv]
  show "k' \<le> 30"
  proof (cases "2 * 2 ^ k \<le> length (tab_abs t)")
    case True
    then have "(2 :: nat) ^ Suc k < 2 ^ 31" using small by simp
    then have "Suc k < 31" by (rule power_less_imp_less_exp [rotated]) simp
    then show ?thesis by (simp add: k')
  qed (simp add: k' d(5))
  show "length (tab_abs t) < 4 * 2 ^ k' - 1" using d(2-4) by (auto simp: k')
qed

lemma rebuild_eq:
  assumes inv: "tab_inv k t" and small: "length (tab_abs t) < 2 ^ 31"
    and k': "k' = (if 2 * 2 ^ k \<le> length (tab_abs t) then Suc k else k)"
  shows "rebuild t = do {
    rb \<leftarrow> new_bin (8 * 2 ^ k') (4 * 2 ^ k');
    (num, rb) \<leftarrow> add_all add_el (tab_abs t) (els_num t) rb;
    Some \<lparr>els_num = els_num t, bin = rb\<rparr>
  }"
  using rebuild_unfold [of t] rebuild_size_eq [OF inv] table_sizes(3) [OF rebuild_grows(1) [OF assms]]
  unfolding Let_def reinsert_contents [OF inv] k' by simp

lemma rebuild_correct:
  assumes hk: "hash_key Hash Eq" and inv: "tab_inv k t" and small: "length (tab_abs t) < 2 ^ 31"
  shows "\<exists>t' k'. rebuild t = Some t' \<and> tab_inv k' t' \<and> tab_abs t' = tab_abs t \<and>
    k' = (if 2 * 2 ^ k \<le> length (tab_abs t) then Suc k else k) \<and>
    unat (bound_of (bin t')) = length (tab_abs t) \<and> unat (bound_of (bin t')) < 4 * 2 ^ k' - 1"
proof -
  define k' where "k' = (if 2 * 2 ^ k \<le> length (tab_abs t) then Suc k else k)"
  note grow = rebuild_grows [OF inv small k'_def]
  obtain rb where rb: "new_bin (8 * 2 ^ k') (4 * 2 ^ k') = Some rb" "bin_inv k' rb"
      "bound_of rb = 0" "contents (view rb) = []"
    using new_bin_empty [OF grow(1)] by blast
  moreover have "length (tab_abs t) \<le> 4 * 2 ^ k' - 1" using grow(2) by linarith
  ultimately obtain num b where b: "add_all add_el (tab_abs t) (els_num t) rb = Some (num, b)"
      "bin_inv k' b" "contents (view b) = tab_abs t" "unat (bound_of b) = length (tab_abs t)"
    using adds.add_all_appends [of k' rb "tab_abs t" "els_num t"] hk tab_abs_distinct [OF inv] by auto
  let ?t = "\<lparr>els_num = els_num t, bin = b\<rparr>"
  have "rebuild t = Some ?t" using rebuild_eq [OF inv small k'_def] rb(1) b(1) by simp
  moreover have "tab_inv k' ?t"
    using b grow(2) tab_invD(3) [OF inv] bin_invD(4) [OF b(2)] by (simp add: flat_inv_def flat_abs_def)
  ultimately show ?thesis
    using b grow by (intro exI [of _ ?t] exI [of _ k']) (simp add: flat_abs_def k'_def)
qed

subsection \<open>The operations on the list of elements\<close>

text \<open>Find and delete never rebuild.\<close>

lemma perform_find:
  assumes hk: "hash_key Hash Eq" and inv: "tab_inv k t"
  shows "member Eq (tab_abs t) e \<Longrightarrow>
      \<exists>i x. perform IHT_FIND t e = Some (True, Some i, t) \<and> read_el (els_of (bin t)) i = Some x \<and>
        Eq x e \<and> List.find (\<lambda>x. Eq x e) (tab_abs t) = Some x"
    and "\<not> member Eq (tab_abs t) e \<Longrightarrow> perform IHT_FIND t e = Some (False, None, t)"
proof -
  note d = tab_invD [OF inv]
  show "\<exists>i x. perform IHT_FIND t e = Some (True, Some i, t) \<and>
      read_el (els_of (bin t)) i = Some x \<and> Eq x e \<and> List.find (\<lambda>x. Eq x e) (tab_abs t) = Some x"
    if "member Eq (tab_abs t) e"
  proof -
    obtain y where "y \<in> set (contents (view (bin t)))" "Eq y e"
      using \<open>member Eq (tab_abs t) e\<close> by (auto simp: member_def flat_abs_def)
    then obtain i x where i: "live (view (bin t)) i" "elem (view (bin t)) i = Some x" "Eq x e"
        "do_1 (els_num t) (bin t) e IHT_FIND = Some (True, Some i, els_num t, bin t)"
      using do_1_present [OF hk d(1)] by blast
    then show ?thesis
      using find_contents [OF hk d(7) i(1-3)] bin_invD(2) [OF d(1)]
      by (auto simp: perform_unfold iht_action_order flat_abs_def)
  qed
  show "perform IHT_FIND t e = Some (False, None, t)" if "\<not> member Eq (tab_abs t) e"
    using do_1_absent [OF hk d(1) _ iht_action_order(2), of e "els_num t"] that
    by (simp add: member_def flat_abs_def perform_unfold iht_action_order)
qed

lemma perform_delete:
  assumes hk: "hash_key Hash Eq" and inv: "tab_inv k t"
  shows "\<exists>t'. perform IHT_DELETE t e = Some (member Eq (tab_abs t) e, None, t') \<and>
    tab_inv k t' \<and> tab_abs t' = filter (\<lambda>x. \<not> Eq x e) (tab_abs t)"
proof -
  note d = tab_invD [OF inv]
  show ?thesis
  proof (cases "member Eq (tab_abs t) e")
    case True
    then obtain b' where b': "do_1 (els_num t) (bin t) e IHT_DELETE = Some (True, None, els_num t - 1, b')"
        "bin_inv k b'" "bound_of b' = bound_of (bin t)"
        "contents (view b') = filter (\<lambda>x. \<not> Eq x e) (tab_abs t)"
      using do_1_present [OF hk d(1), of _ e "els_num t"] by (auto simp: member_def flat_abs_def)
    have len: "Suc (length (filter (\<lambda>x. \<not> Eq x e) (tab_abs t))) = length (tab_abs t)"
      by (rule length_remove_key [OF hk tab_abs_distinct [OF inv] True])
    then have "unat (els_num t - 1) = length (filter (\<lambda>x. \<not> Eq x e) (tab_abs t))"
      using d(3) by (subst unat_sub) (simp_all add: word_le_nat_alt)
    then have "tab_inv k \<lparr>els_num = els_num t - 1, bin = b'\<rparr>"
      using b' d(2) bin_invD(4) [OF b'(2)] by (simp add: flat_inv_def flat_abs_def)
    then show ?thesis using b' True by (simp add: perform_unfold iht_action_order flat_abs_def)
  next
    case False
    then have "filter (\<lambda>x. \<not> Eq x e) (tab_abs t) = tab_abs t"
      by (auto simp: member_def filter_id_conv)
    then show ?thesis
      using do_1_absent [OF hk d(1) _ iht_action_order(4), of e "els_num t"] False inv
      by (auto simp: member_def flat_abs_def perform_unfold iht_action_order)
  qed
qed

text \<open>An insertion rebuilds first when only one element cell is left.\<close>

lemma make_room:
  assumes hk: "hash_key Hash Eq" and inv: "tab_inv k t" and small: "length (tab_abs t) < 2 ^ 31"
  shows "\<exists>t' k'. tab_inv k' t' \<and> tab_abs t' = tab_abs t \<and> k \<le> k' \<and>
    unat (bound_of (bin t')) < 4 * 2 ^ k' - 1 \<and>
    perform IHT_INSERT t e = do {
      (found, res, num, b) \<leftarrow> do_1 (els_num t') (bin t') e IHT_INSERT;
      Some (found, res, \<lparr>els_num = num, bin = b\<rparr>)
    }"
proof -
  note d = tab_invD [OF inv]
  let ?full = "4 * 2 ^ k - 1 \<le> bound_of (bin t)"
  have full: "?full \<longleftrightarrow> \<not> unat (bound_of (bin t)) < 4 * 2 ^ k - 1"
    by (simp only: word_le_nat_alt not_less table_sizes(7) [OF d(5)])
  have perform: "perform IHT_INSERT t e = do {
      t \<leftarrow> (if ?full then rebuild t else Some t);
      (found, res, num, b) \<leftarrow> do_1 (els_num t) (bin t) e IHT_INSERT;
      Some (found, res, \<lparr>els_num = num, bin = b\<rparr>)
    }"
    using table_sizes(3) [OF d(5)] by (simp add: perform_unfold d(6) mult.commute)
  show ?thesis
  proof (cases ?full)
    case True
    obtain t' k' where t': "rebuild t = Some t'" "tab_inv k' t'" "tab_abs t' = tab_abs t"
        "k' = (if 2 * 2 ^ k \<le> length (tab_abs t) then Suc k else k)" "unat (bound_of (bin t')) < 4 * 2 ^ k' - 1"
      using rebuild_correct [OF hk inv small] by blast
    moreover from t'(4) have "k \<le> k'" by simp
    ultimately show ?thesis using True perform by (intro exI [of _ t'] exI [of _ k']) simp
  next
    case False
    then show ?thesis using inv full perform by auto
  qed
qed

lemma perform_insert_present:
  assumes hk: "hash_key Hash Eq" and inv: "tab_inv k t" and small: "length (tab_abs t) < 2 ^ 31"
    and "member Eq (tab_abs t) e"
  shows "\<exists>t' k' i x. perform IHT_INSERT t e = Some (True, Some i, t') \<and>
    tab_inv k' t' \<and> k \<le> k' \<and> tab_abs t' = tab_abs t \<and>
    live (view (bin t')) i \<and> elem (view (bin t')) i = Some x \<and> Eq x e"
proof -
  obtain t' k' where t': "tab_inv k' t'" "tab_abs t' = tab_abs t" "k \<le> k'"
      "perform IHT_INSERT t e = do {
        (found, res, num, b) \<leftarrow> do_1 (els_num t') (bin t') e IHT_INSERT;
        Some (found, res, \<lparr>els_num = num, bin = b\<rparr>)
      }"
    using make_room [OF hk inv small] by blast
  obtain y where "y \<in> set (contents (view (bin t')))" "Eq y e"
    using assms(4) t'(2) by (auto simp: member_def flat_abs_def)
  then obtain i x where i: "live (view (bin t')) i" "elem (view (bin t')) i = Some x" "Eq x e"
      "do_1 (els_num t') (bin t') e IHT_INSERT = Some (True, Some i, els_num t', bin t')"
    using do_1_present [OF hk tab_invD(1) [OF t'(1)]] by blast
  then show ?thesis using t' by auto
qed

lemma perform_insert_absent:
  assumes hk: "hash_key Hash Eq" and inv: "tab_inv k t" and small: "length (tab_abs t) < 2 ^ 31"
    and "\<not> member Eq (tab_abs t) e"
  shows "\<exists>t' k' i t''. perform IHT_INSERT t e = Some (False, Some i, t') \<and>
    store t' (Some i) e = Some t'' \<and> tab_inv k' t'' \<and> k \<le> k' \<and> tab_abs t'' = tab_abs t @ [e]"
proof -
  obtain t1 k' where t1: "tab_inv k' t1" "tab_abs t1 = tab_abs t" "k \<le> k'"
      "unat (bound_of (bin t1)) < 4 * 2 ^ k' - 1"
      "perform IHT_INSERT t e = do {
        (found, res, num, b) \<leftarrow> do_1 (els_num t1) (bin t1) e IHT_INSERT;
        Some (found, res, \<lparr>els_num = num, bin = b\<rparr>)
      }"
    using make_room [OF hk inv small] by blast
  note d = tab_invD [OF t1(1)]
  have "\<forall>x \<in> set (contents (view (bin t1))). \<not> Eq x e"
    using assms(4) t1(2) by (auto simp: member_def flat_abs_def)
  from do_1_insert [OF hk d(1) this t1(4)] obtain b' xs where b':
      "do_1 (els_num t1) (bin t1) e IHT_INSERT =
        Some (False, Some (unat (bound_of (bin t1))), els_num t1 + 1, b')"
      "write_el (els_of b') (unat (bound_of (bin t1))) e = Some xs" "bin_inv k' (with_els xs b')"
      "unat (bound_of (with_els xs b')) = Suc (unat (bound_of (bin t1)))"
      "contents (view (with_els xs b')) = contents (view (bin t1)) @ [e]"
    by blast
  let ?t = "\<lparr>els_num = els_num t1 + 1, bin = with_els xs b'\<rparr>"
  have "unat (els_num t1) < 2 ^ 31" using d(3) t1(2) small by simp
  then have "unat (els_num t1 + 1) = Suc (unat (els_num t1))" by (subst unat_add_less) simp_all
  then have "tab_inv k' ?t"
    using b' t1(4) d(3) bin_invD(4) [OF b'(3)] by (simp add: flat_inv_def flat_abs_def)
  moreover have "store \<lparr>els_num = els_num t1 + 1, bin = b'\<rparr> (Some (unat (bound_of (bin t1)))) e = Some ?t"
    using b'(2) by (simp add: store_unfold)
  moreover have "tab_abs ?t = tab_abs t @ [e]"
    using b'(5) t1(2) by (simp add: flat_abs_def)
  ultimately show ?thesis using t1(3,5) b'(1) by auto
qed

text \<open>Storing an equal element through a returned pointer replaces it in place.\<close>

lemma store_correct:
  assumes hk: "hash_key Hash Eq" and inv: "tab_inv k t"
    and i: "live (view (bin t)) i" "elem (view (bin t)) i = Some x" "Eq x e"
  shows "\<exists>t'. store t (Some i) e = Some t' \<and> tab_inv k t' \<and>
    tab_abs t' = map (\<lambda>y. if Eq y e then e else y) (tab_abs t)"
proof -
  note d = tab_invD [OF inv]
  have "i < length (els_of (bin t))"
    using i(1) d(2) bin_invD(4,7) [OF d(1)] by (simp add: live_def)
  then obtain xs where xs: "write_el (els_of (bin t)) i e = Some xs" by (simp add: write_el_def)
  let ?t = "t\<lparr>bin := with_els xs (bin t)\<rparr>"
  have b: "bin_inv k (with_els xs (bin t))" "view (with_els xs (bin t)) = view_set i e (view (bin t))"
    using set_el [OF hk d(1) i xs] by blast+
  have "tab_inv k ?t" "tab_abs ?t = map (\<lambda>y. if Eq y e then e else y) (tab_abs t)"
    using b contents_set [OF hk d(7) i] inv by (simp_all add: flat_inv_def flat_abs_def view_set_sel)
  then show ?thesis using xs by (simp add: store_unfold)
qed

text \<open>A client's command acts as the specification says.\<close>

abbreviation step :: "'b bin_table \<Rightarrow> 'e cmd \<Rightarrow> ('e reply \<times> 'b bin_table) option" where
  "step \<equiv> client_step (perform IHT_FIND) (perform IHT_DELETE) (perform IHT_INSERT) store load"

lemma step_find:
  assumes hk: "hash_key Hash Eq" and inv: "tab_inv k t"
  shows "step t (Find e) = Some (Got (List.find (\<lambda>x. Eq x e) (tab_abs t)), t)"
proof -
  have "List.find (\<lambda>x. Eq x e) (tab_abs t) = None" if "\<not> member Eq (tab_abs t) e"
    using that by (simp add: member_def find_None_iff)
  then show ?thesis
    using perform_find [OF hk inv, of e]
    by (cases "member Eq (tab_abs t) e") (auto simp: client_find_def load_unfold)
qed

lemma step_refines:
  assumes hk: "hash_key Hash Eq" and inv: "tab_inv k t" and small: "length (tab_abs t) < 2 ^ 31"
  shows "\<exists>t' k'. step t c = Some (fst (spec_step Eq (tab_abs t) c), t') \<and>
    tab_inv k' t' \<and> k \<le> k' \<and> tab_abs t' = snd (spec_step Eq (tab_abs t) c)"
proof (cases c)
  case (Insert e)
  show ?thesis
    using perform_insert_present [OF hk inv small, of e] perform_insert_absent [OF hk inv small, of e]
    by (cases "member Eq (tab_abs t) e") (auto simp: Insert client_insert_def)
next
  case (Replace e)
  show ?thesis
  proof (cases "member Eq (tab_abs t) e")
    case True
    then obtain t' k' i x where t': "perform IHT_INSERT t e = Some (True, Some i, t')"
        "tab_inv k' t'" "k \<le> k'" "tab_abs t' = tab_abs t"
        "live (view (bin t')) i" "elem (view (bin t')) i = Some x" "Eq x e"
      using perform_insert_present [OF hk inv small] by blast
    then show ?thesis
      using store_correct [OF hk t'(2,5-7)] True by (auto simp: Replace client_replace_def)
  next
    case False
    then show ?thesis
      using perform_insert_absent [OF hk inv small False] by (auto simp: Replace client_replace_def)
  qed
next
  case (Remove e)
  show ?thesis
    using perform_delete [OF hk inv, of e] by (auto simp: Remove client_remove_def)
next
  case (Find e)
  show ?thesis using step_find [OF hk inv] inv by (auto simp: Find simp del: client_step.simps)
qed

text \<open>
  What was stored is found: an insertion followed by the store through the returned pointer makes
  every find of an equal key return the stored element, and changes no other answer.
\<close>

lemma store_then_find:
  assumes hk: "hash_key Hash Eq" and inv: "tab_inv k t" and small: "length (tab_abs t) < 2 ^ 31"
  shows "\<exists>i t1 t2. perform IHT_INSERT t e = Some (member Eq (tab_abs t) e, Some i, t1) \<and> store t1 (Some i) e = Some t2 \<and>
    (\<forall>q. Eq e q \<longrightarrow> (\<exists>j. perform IHT_FIND t2 q = Some (True, Some j, t2) \<and> load t2 (Some j) = Some e)) \<and>
    (\<forall>q. \<not> Eq e q \<longrightarrow> map_option fst (step t2 (Find q)) = map_option fst (step t (Find q)))"
proof -
  define ys where "ys = snd (spec_step Eq (tab_abs t) (Replace e))"
  have "\<exists>i t1 t2 k'. perform IHT_INSERT t e = Some (member Eq (tab_abs t) e, Some i, t1) \<and>
      store t1 (Some i) e = Some t2 \<and> tab_inv k' t2 \<and> tab_abs t2 = ys"
  proof (cases "member Eq (tab_abs t) e")
    case True
    then obtain t' k' i x where t': "perform IHT_INSERT t e = Some (True, Some i, t')"
        "tab_inv k' t'" "tab_abs t' = tab_abs t"
        "live (view (bin t')) i" "elem (view (bin t')) i = Some x" "Eq x e"
      using perform_insert_present [OF hk inv small] by blast
    then show ?thesis using store_correct [OF hk t'(2,4-6)] True by (auto simp: ys_def)
  next
    case False
    then show ?thesis using perform_insert_absent [OF hk inv small False] by (auto simp: ys_def)
  qed
  then obtain i t1 t2 k' where t2: "perform IHT_INSERT t e = Some (member Eq (tab_abs t) e, Some i, t1)"
      "store t1 (Some i) e = Some t2" "tab_inv k' t2" "tab_abs t2 = ys"
    by blast
  have find: "List.find (\<lambda>x. Eq x q) ys = (if Eq e q then Some e else List.find (\<lambda>x. Eq x q) (tab_abs t))" for q
    unfolding ys_def by (rule find_after_replace [OF hk])
  have "\<exists>j. perform IHT_FIND t2 q = Some (True, Some j, t2) \<and> load t2 (Some j) = Some e" if "Eq e q" for q
    using perform_find [OF hk t2(3), of q] find [of q] that t2(4)
      find_Some_iff [of "\<lambda>x. Eq x q" ys e]
    by (cases "member Eq ys q") (auto simp: load_unfold member_def)
  moreover have "step u (Find q) = Some (Got (List.find (\<lambda>x. Eq x q) (tab_abs u)), u)" if "tab_inv j u" for u j q
    using step_find [OF hk that] .
  ultimately show ?thesis using t2 find inv by (intro exI [of _ i] exI [of _ t1] exI [of _ t2]) auto
qed

subsection \<open>Iteration\<close>

definition live_from :: "'b bin_table \<Rightarrow> nat \<Rightarrow> nat list" where
  "live_from t j = filter (\<lambda>i. \<not> del_bit (del_of (bin t)) i) [j..<unat (bound_of (bin t))]"

lemma live_from_rec:
  "live_from t j = (if j < unat (bound_of (bin t))
     then (if del_bit (del_of (bin t)) j then [] else [j]) @ live_from t (Suc j) else [])"
  by (simp add: live_from_def upt_rec [of j])

text \<open>The iterator stands before the live elements at the indices \<open>is\<close>.\<close>

definition stands :: "'b bin_table \<Rightarrow> nat list \<Rightarrow> iht_iter \<Rightarrow> bool" where
  "stands t is it \<longleftrightarrow> (case is of
       [] \<Rightarrow> ptr it = None
     | i # js \<Rightarrow> ptr it = Some i \<and> unat (el_idx it) = i \<and> i < unat (bound_of (bin t)) \<and>
         \<not> del_bit (del_of (bin t)) i \<and> js = live_from t (Suc i))"

lemma del_test_bound:
  assumes "tab_inv k t" "i < unat (bound_of (bin t))"
  shows "del_test (del_of (bin t)) i = Some (del_bit (del_of (bin t)) i)"
  using tab_invD(2) [OF assms(1)] bin_invD(8) [OF tab_invD(1) [OF assms(1)]] assms(2) by (simp add: del_test_eq)

lemma advance_correct:
  assumes inv: "tab_inv k t" and "unat (el_idx it) \<le> unat (bound_of (bin t))"
  shows "\<exists>it'. advance t it = Some it' \<and> stands t (live_from t (unat (el_idx it))) it'"
  using assms(2)
proof (induction "unat (bound_of (bin t)) - unat (el_idx it)" arbitrary: it rule: less_induct)
  case less
  show ?case
  proof (cases "el_idx it < bound_of (bin t)")
    case True
    then have lt: "unat (el_idx it) < unat (bound_of (bin t))" by (simp add: word_less_nat_alt)
    have "unat (el_idx it + 1) = Suc (unat (el_idx it))" using unat_succ_less [OF True] by simp
    then show ?thesis
      using less.hyps [of "it\<lparr>el_idx := el_idx it + 1\<rparr>"] True lt del_test_bound [OF inv lt]
        live_from_rec [of t "unat (el_idx it)"]
      by (cases "del_bit (del_of (bin t)) (unat (el_idx it))") (simp_all add: advance_unfold [of t it] stands_def)
  next
    case False
    then show ?thesis
      using live_from_rec [of t "unat (el_idx it)"]
      by (simp add: advance_unfold [of t it] word_less_nat_alt stands_def)
  qed
qed

lemma iterate_correct:
  assumes inv: "tab_inv k t"
  shows "do {
      it \<leftarrow> advance t \<lparr>el_idx = 0, ptr = None\<rparr>;
      client_iterate (\<lambda>it. ptr it \<noteq> None) (\<lambda>it. load t (ptr it)) (\<lambda>it. advance t (it\<lparr>el_idx := el_idx it + 1\<rparr>)) it
    } = Some (tab_abs t)"
proof -
  note d = tab_invD [OF inv]
  let ?f = "\<lambda>i. the (elem (view (bin t)) i)"
  obtain it where it: "advance t \<lparr>el_idx = 0, ptr = None\<rparr> = Some it" "stands t (live_from t 0) it"
    using advance_correct [OF inv, of "\<lparr>el_idx = 0, ptr = None\<rparr>"] by auto
  have "client_iterate (\<lambda>it. ptr it \<noteq> None) (\<lambda>it. load t (ptr it)) (\<lambda>it. advance t (it\<lparr>el_idx := el_idx it + 1\<rparr>)) it =
      Some (map ?f (live_from t 0))"
  proof (rule client_iterate_collects [where at = "stands t", OF it(2)])
    fix i js it
    assume st: "stands t (i # js) it"
    have "live (view (bin t)) i" using st bin_invD(3,4) [OF d(1)] by (simp add: stands_def live_def)
    moreover have "unat (el_idx it + 1) = Suc i"
      using st unat_succ_less [of "el_idx it" "bound_of (bin t)"] by (simp add: stands_def word_less_nat_alt)
    ultimately show "ptr it \<noteq> None \<and> load t (ptr it) = Some (?f i) \<and>
        (\<exists>it'. advance t (it\<lparr>el_idx := el_idx it + 1\<rparr>) = Some it' \<and> stands t js it')"
      using st live_read [OF d(1)] advance_correct [OF inv, of "it\<lparr>el_idx := el_idx it + 1\<rparr>"]
      by (simp add: stands_def load_unfold)
  qed (simp add: stands_def)
  moreover have "map ?f (live_from t 0) = tab_abs t"
    using bin_invD(3,4) [OF d(1)] by (simp add: live_from_def flat_abs_def contents_def)
  ultimately show ?thesis using it(1) by simp
qed

end

text \<open>A table with one bin is a dictionary.\<close>

sublocale flat_table \<subseteq> dict: dictionary Eq step "\<lambda>t. hash_key Hash Eq \<and> (\<exists>k. tab_inv k t)" tab_abs "2 ^ 31"
  by unfold_locales (use step_refines in blast)

end
