(* ===== verification/Ihtab.thy ===== *)
theory Ihtab
  imports Flat_Table
begin

text \<open>
  The C11 table of \<open>ihtab.h\<close>: one dense element array, a deletion bitmap, and groups of
  eight tag bytes followed by eight 32-bit indices in one byte array. Definitions follow the
  header from top to bottom; \<open>El\<close>, \<open>Hash\<close> and \<open>Eq\<close>, the arguments of \<open>DEFINE_IHT\<close>, are the
  type \<open>'e\<close> and the first arguments of the operations, and the platform the preprocessor
  selects is an argument too. A pointer into the element array is the index it points at.
\<close>

section \<open>Constants and group scans\<close>

definition IHT_GROUP_SIZE :: u64 where "IHT_GROUP_SIZE = 8"

definition IHT_GROUP_BYTES :: u64 where "IHT_GROUP_BYTES = IHT_GROUP_SIZE * (1 + 4)"

definition IHT_EMPTY_H7 :: u8 where "IHT_EMPTY_H7 = 0xc0"

definition IHT_DELETED_H7 :: u8 where "IHT_DELETED_H7 = 0x80"

definition IHT_LF_FACTOR :: u64 where "IHT_LF_FACTOR = 1"

definition IHT_LF_DIVISOR :: u64 where "IHT_LF_DIVISOR = 2"

definition IHT_MASK_SCALE :: "platform \<Rightarrow> bool" where
  "IHT_MASK_SCALE P \<longleftrightarrow> P = SWAR"

definition iht_group_load :: "platform \<Rightarrow> cells \<Rightarrow> nat \<Rightarrow> group_t option" where
  "iht_group_load P m p = map_option (\<lambda>g.
     case P of
       X86_SSE2 \<Rightarrow> SSE2_group (mm_cvtsi64_si128 g)
     | AARCH64_NEON \<Rightarrow> NEON_group g
     | SWAR \<Rightarrow> SWAR_group g) (load_word m p)"

fun iht_match_mask :: "group_t \<Rightarrow> u8 \<Rightarrow> u64" where
  "iht_match_mask (SSE2_group g) h7_val =
     (let h7_vec = mm_set1_epi8 h7_val
      in ucast (mm_movemask_epi8 (mm_cmpeq_epi8 g h7_vec)) AND 0xff)"
| "iht_match_mask (NEON_group g) h7_val =
     (let group = vcreate_u8 g;
          match_eq = vceq_u8 group (vdup_n_u8 h7_val)
      in ucast (vaddv_u8 (vand_u8 match_eq [1, 2, 4, 8, 16, 32, 64, 128])))"
| "iht_match_mask (SWAR_group g) h7_val =
     (let cmp = g XOR (SWAR_LSB * ucast h7_val)
      in (cmp - SWAR_LSB) AND NOT cmp AND SWAR_MSB)"

fun iht_match_empty :: "group_t \<Rightarrow> u64" where
  "iht_match_empty (SSE2_group g) =
     ucast (mm_movemask_epi8 (mm_and_si128 g (mm_slli_epi64 g 1))) AND 0xff"
| "iht_match_empty (NEON_group g) = iht_match_mask (NEON_group g) IHT_EMPTY_H7"
| "iht_match_empty (SWAR_group g) = (g AND SWAR_MSB) AND push_bit 1 g"

section \<open>State\<close>

record 'e hbin_iht =
  els_bound :: u64
  els :: "'e option list"
  deleted :: "u8 list"
  groups :: cells
  groups_mask :: u64

type_synonym 'e iht = "'e hbin_iht bin_table"

definition iht_destroy_bin :: "'e hbin_iht \<Rightarrow> 'e hbin_iht" where
  "iht_destroy_bin b = b\<lparr>els := [], deleted := [], groups := []\<rparr>"

section \<open>Find, insert and delete in one bin\<close>

definition iht_base :: "nat \<Rightarrow> nat" where
  "iht_base group_ind = unat (of_nat group_ind * IHT_GROUP_BYTES)"

text \<open>
  The inner \<open>while (mmask)\<close> loop: the first slot of the mask whose element is equal to
  \<open>*el\<close>, with its element index.
\<close>

function iht_scan :: "platform \<Rightarrow> ('e \<Rightarrow> 'e \<Rightarrow> bool) \<Rightarrow> 'e hbin_iht \<Rightarrow> nat \<Rightarrow> 'e \<Rightarrow> u64 \<Rightarrow>
    (nat \<times> u32) option option" where
  "iht_scan P Eq b group_base el mmask =
     (if mmask = 0 then Some None
      else do {
        let slot_bit = first_slot (IHT_MASK_SCALE P) mmask;
        el_ind \<leftarrow> load_word (groups b) (group_base + 8 + 4 * slot_bit);
        e \<leftarrow> read_el (els b) (unat el_ind);
        if Eq e el then Some (Some (slot_bit, el_ind))
        else iht_scan P Eq b group_base el (mmask AND (mmask - 1))
      })"
  by pat_completeness auto
termination
  by (relation "measure (\<lambda>(P, Eq, b, group_base, el, mmask). unat mmask)") (auto intro: and_pred_less)

declare iht_scan.simps [simp del]

text \<open>One round of the outer \<open>for (;;)\<close> loop, up to its returns or the next \<open>group_ind\<close>.\<close>

definition iht_probe_step :: "platform \<Rightarrow> ('e \<Rightarrow> 'e \<Rightarrow> bool) \<Rightarrow> 'e hbin_iht \<Rightarrow> u8 \<Rightarrow> 'e \<Rightarrow> u64 \<Rightarrow>
    (u64 + outcome) option" where
  "iht_probe_step P Eq b h7_val el group_ind =
     do {
       let group_base = iht_base (unat group_ind);
       group \<leftarrow> iht_group_load P (groups b) group_base;
       found \<leftarrow> iht_scan P Eq b group_base el (iht_match_mask group h7_val);
       case found of
         Some (slot_bit, el_ind) \<Rightarrow> Some (Inr (Matched (unat group_ind) slot_bit (unat el_ind)))
       | None \<Rightarrow>
           (let emask = iht_match_empty group
            in if emask \<noteq> 0
               then Some (Inr (Vacant (unat group_ind) (first_slot (IHT_MASK_SCALE P) emask)))
               else Some (Inl ((group_ind + 1) AND groups_mask b)))
     }"

partial_function (option) iht_probe :: "platform \<Rightarrow> ('e \<Rightarrow> 'e \<Rightarrow> bool) \<Rightarrow> 'e hbin_iht \<Rightarrow> u8 \<Rightarrow> 'e \<Rightarrow>
    u64 \<Rightarrow> outcome option" where
  "iht_probe P Eq b h7_val el group_ind =
     (case iht_probe_step P Eq b h7_val el group_ind of
        None \<Rightarrow> None
      | Some (Inl group_ind') \<Rightarrow> iht_probe P Eq b h7_val el group_ind'
      | Some (Inr r) \<Rightarrow> Some r)"

text \<open>
  \<open>iht_do_1\<close> works on a bin and on the element counter of its table. The result is the
  returned flag, the pointer stored through \<open>res\<close> if one is stored, the counter and the bin.
\<close>

definition iht_do_1 :: "platform \<Rightarrow> ('e \<Rightarrow> u64) \<Rightarrow> ('e \<Rightarrow> 'e \<Rightarrow> bool) \<Rightarrow> u64 \<Rightarrow> 'e hbin_iht \<Rightarrow> 'e \<Rightarrow>
    iht_action \<Rightarrow> (bool \<times> nat option \<times> u64 \<times> 'e hbin_iht) option" where
  "iht_do_1 P Hash Eq num b el action =
     do {
       let hash = Hash el;
       let h7_val = h7_of hash;
       r \<leftarrow> iht_probe P Eq b h7_val el ((hash div IHT_GROUP_SIZE) AND groups_mask b);
       case r of
         Matched group_ind slot_bit el_ind \<Rightarrow>
           if action \<noteq> IHT_DELETE then Some (True, Some el_ind, num, b)
           else do {
             d \<leftarrow> del_set (deleted b) el_ind;
             gs \<leftarrow> store_bytes (groups b) (iht_base group_ind + slot_bit) [IHT_DELETED_H7];
             Some (True, None, num - 1, b\<lparr>deleted := d, groups := gs\<rparr>)
           }
       | Vacant group_ind slot_bit \<Rightarrow>
           if action \<ge> IHT_INSERT then do {
             gs \<leftarrow> store_bytes (groups b) (iht_base group_ind + slot_bit) [h7_val];
             gs \<leftarrow> store_word gs (iht_base group_ind + 8 + 4 * slot_bit) (ucast (els_bound b) :: u32);
             Some (False, Some (unat (els_bound b)), num + 1,
               b\<lparr>groups := gs, els_bound := els_bound b + 1\<rparr>)
           }
           else Some (False, None, num, b)
     }"

section \<open>Allocation and rebuilding\<close>

text \<open>The allocation code shared by \<open>iht_rebuild\<close> and \<open>iht_create\<close>.\<close>

definition iht_new_bin :: "u64 \<Rightarrow> u64 \<Rightarrow> 'e hbin_iht option" where
  "iht_new_bin indexes_size els_size =
     do {
       let del_bytes = (els_size + 7) div 8;
       let num_groups = indexes_size div IHT_GROUP_SIZE;
       gs \<leftarrow> memset_each iht_base 8 IHT_EMPTY_H7 [0..<unat num_groups]
         (replicate (unat (num_groups * IHT_GROUP_BYTES)) None);
       Some \<lparr>els_bound = 0, els = replicate (unat els_size) None,
         deleted = replicate (unat del_bytes) 0, groups = gs, groups_mask = num_groups - 1\<rparr>
     }"

text \<open>The copying loop of \<open>iht_rebuild\<close>.\<close>

primrec iht_reinsert :: "platform \<Rightarrow> ('e \<Rightarrow> u64) \<Rightarrow> ('e \<Rightarrow> 'e \<Rightarrow> bool) \<Rightarrow> 'e hbin_iht \<Rightarrow> nat list \<Rightarrow>
    u64 \<Rightarrow> 'e hbin_iht \<Rightarrow> (u64 \<times> 'e hbin_iht) option" where
  "iht_reinsert P Hash Eq old [] num rb = Some (num, rb)"
| "iht_reinsert P Hash Eq old (i # is) num rb =
     do {
       d \<leftarrow> del_test (deleted old) i;
       if d then iht_reinsert P Hash Eq old is num rb
       else do {
         e \<leftarrow> read_el (els old) i;
         (found, res, num, rb) \<leftarrow> iht_do_1 P Hash Eq num rb e IHT_INSERT;
         r \<leftarrow> res;
         xs \<leftarrow> write_el (els rb) r e;
         iht_reinsert P Hash Eq old is num (rb\<lparr>els := xs\<rparr>)
       }
     }"

definition iht_rebuild_size :: "'e iht \<Rightarrow> u64" where
  "iht_rebuild_size t =
     (let indexes_size = (groups_mask (bin t) + 1) * IHT_GROUP_SIZE
      in if 2 * IHT_LF_DIVISOR * els_num t \<ge> IHT_LF_FACTOR * indexes_size
         then indexes_size * 2 else indexes_size)"

definition iht_rebuild :: "platform \<Rightarrow> ('e \<Rightarrow> u64) \<Rightarrow> ('e \<Rightarrow> 'e \<Rightarrow> bool) \<Rightarrow> 'e iht \<Rightarrow> 'e iht option" where
  "iht_rebuild P Hash Eq t =
     do {
       let indexes_size = iht_rebuild_size t;
       let els_size = indexes_size * IHT_LF_FACTOR div IHT_LF_DIVISOR;
       rb \<leftarrow> iht_new_bin indexes_size els_size;
       let saved = els_num t;
       (num, rb) \<leftarrow> iht_reinsert P Hash Eq (bin t) [0..<unat (els_bound (bin t))] (els_num t) rb;
       Some \<lparr>els_num = saved, bin = rb\<rparr>
     }"

partial_function (option) iht_create_size :: "u64 \<Rightarrow> u64 \<Rightarrow> u64 option" where
  "iht_create_size min_size indexes_size =
     (if indexes_size * IHT_LF_FACTOR div IHT_LF_DIVISOR < min_size
      then iht_create_size min_size (indexes_size * 2) else Some indexes_size)"

definition iht_create :: "u64 \<Rightarrow> 'e iht option" where
  "iht_create min_size =
     do {
       indexes_size \<leftarrow> iht_create_size min_size IHT_GROUP_SIZE;
       let els_size = indexes_size * IHT_LF_FACTOR div IHT_LF_DIVISOR;
       b \<leftarrow> iht_new_bin indexes_size els_size;
       Some \<lparr>els_num = 0, bin = b\<rparr>
     }"

definition iht_destroy :: "'e iht \<Rightarrow> 'e iht" where
  "iht_destroy t = t\<lparr>bin := iht_destroy_bin (bin t)\<rparr>"

section \<open>The interface\<close>

definition iht_perform :: "platform \<Rightarrow> ('e \<Rightarrow> u64) \<Rightarrow> ('e \<Rightarrow> 'e \<Rightarrow> bool) \<Rightarrow> 'e iht \<Rightarrow> 'e \<Rightarrow> iht_action \<Rightarrow>
    (bool \<times> nat option \<times> 'e iht) option" where
  "iht_perform P Hash Eq t el action =
     do {
       t \<leftarrow> (if action \<ge> IHT_INSERT
             then (let indexes_size = (groups_mask (bin t) + 1) * IHT_GROUP_SIZE;
                       els_size = indexes_size * IHT_LF_FACTOR div IHT_LF_DIVISOR - 1
                   in if els_bound (bin t) \<ge> els_size then iht_rebuild P Hash Eq t else Some t)
             else Some t);
       (found, res, num, b) \<leftarrow> iht_do_1 P Hash Eq (els_num t) (bin t) el action;
       Some (found, res, \<lparr>els_num = num, bin = b\<rparr>)
     }"

definition iht_els_count :: "'e iht \<Rightarrow> u64" where
  "iht_els_count t = els_num t"

definition iht_size :: "'e iht \<Rightarrow> u64" where
  "iht_size t = (groups_mask (bin t) + 1) * IHT_GROUP_SIZE * IHT_LF_FACTOR div IHT_LF_DIVISOR"

function iht_iter_advance :: "'e iht \<Rightarrow> iht_iter \<Rightarrow> iht_iter option" where
  "iht_iter_advance t it =
     (if el_idx it < els_bound (bin t) then do {
        d \<leftarrow> del_test (deleted (bin t)) (unat (el_idx it));
        if \<not> d then Some (it\<lparr>ptr := Some (unat (el_idx it))\<rparr>)
        else iht_iter_advance t (it\<lparr>el_idx := el_idx it + 1\<rparr>)
      }
      else Some (it\<lparr>ptr := None\<rparr>))"
  by pat_completeness auto
termination
proof (relation "measure (\<lambda>(t, it). unat (els_bound (bin t)) - unat (el_idx it))")
  fix t :: "'e iht" and it :: iht_iter and d
  assume less: "el_idx it < els_bound (bin t)"
  have "unat (el_idx it + 1) = unat (el_idx it) + 1"
    using less by (rule unat_succ_less)
  with less show "((t, it\<lparr>el_idx := el_idx it + 1\<rparr>), t, it)
      \<in> measure (\<lambda>(t, it). unat (els_bound (bin t)) - unat (el_idx it))"
    by (simp add: word_less_nat_alt)
qed simp

declare iht_iter_advance.simps [simp del]

definition iht_iter_begin :: "'e iht \<Rightarrow> iht_iter option" where
  "iht_iter_begin t = iht_iter_advance t \<lparr>el_idx = 0, ptr = None\<rparr>"

definition iht_iter_valid :: "iht_iter \<Rightarrow> bool" where
  "iht_iter_valid it \<longleftrightarrow> ptr it \<noteq> None"

definition iht_iter_next :: "'e iht \<Rightarrow> iht_iter \<Rightarrow> iht_iter option" where
  "iht_iter_next t it = iht_iter_advance t (it\<lparr>el_idx := el_idx it + 1\<rparr>)"

section \<open>Client code\<close>

text \<open>The store and the read through the returned pointer, \<open>*r = e\<close> and \<open>*r\<close>.\<close>

definition iht_store :: "'e iht \<Rightarrow> nat option \<Rightarrow> 'e \<Rightarrow> 'e iht option" where
  "iht_store t res e =
     do {
       r \<leftarrow> res;
       xs \<leftarrow> write_el (els (bin t)) r e;
       Some (t\<lparr>bin := (bin t)\<lparr>els := xs\<rparr>\<rparr>)
     }"

definition iht_load :: "'e iht \<Rightarrow> nat option \<Rightarrow> 'e option" where
  "iht_load t res = do { r \<leftarrow> res; read_el (els (bin t)) r }"

definition iht_step :: "platform \<Rightarrow> ('e \<Rightarrow> u64) \<Rightarrow> ('e \<Rightarrow> 'e \<Rightarrow> bool) \<Rightarrow> 'e iht \<Rightarrow> 'e cmd \<Rightarrow> ('e reply \<times> 'e iht) option" where
  "iht_step P Hash Eq = client_step (\<lambda>t e. iht_perform P Hash Eq t e IHT_FIND)
     (\<lambda>t e. iht_perform P Hash Eq t e IHT_DELETE) (\<lambda>t e. iht_perform P Hash Eq t e IHT_INSERT) iht_store iht_load"

definition iht_iterate :: "'e iht \<Rightarrow> 'e list option" where
  "iht_iterate t =
     do {
       it \<leftarrow> iht_iter_begin t;
       client_iterate iht_iter_valid (\<lambda>it. iht_load t (ptr it)) (iht_iter_next t) it
     }"

end
