(* ===== verification/Layout.thy ===== *)
theory Layout
  imports Bin_View
begin

text \<open>
  The interleaved group layout of \<open>ihtab.h\<close> and \<open>ixhtab.h\<close>: group \<open>g\<close> is eight tag bytes
  followed by eight indices of a fixed width. The index width is a type parameter, 32 bits
  in one header and 16 in the other. The theory gives the slots such a byte array stands
  for, and interprets the interface \<open>slot_store\<close> of the two writes a table makes: filling a
  slot and marking it deleted.
\<close>

section \<open>The interface of a slot store\<close>

locale slot_store =
  fixes wf :: "nat \<Rightarrow> 'm \<Rightarrow> bool" and slot_at :: "'m \<Rightarrow> nat \<Rightarrow> nat \<Rightarrow> slot"
    and fill_at :: "'m \<Rightarrow> nat \<Rightarrow> nat \<Rightarrow> u8 \<Rightarrow> nat \<Rightarrow> 'm option"
    and kill_at :: "'m \<Rightarrow> nat \<Rightarrow> nat \<Rightarrow> 'm option"
    and max_index :: nat
  assumes fill: "wf n m \<Longrightarrow> g < n \<Longrightarrow> s < 8 \<Longrightarrow> \<not> bit t 7 \<Longrightarrow> i < max_index \<Longrightarrow>
      \<exists>m'. fill_at m g s t i = Some m' \<and> wf n m' \<and>
        (\<forall>g' < n. \<forall>s' < 8. slot_at m' g' s' = (if g' = g \<and> s' = s then Full t i else slot_at m g' s'))"
    and kill: "wf n m \<Longrightarrow> g < n \<Longrightarrow> s < 8 \<Longrightarrow> slot_at m g s = Full t i \<Longrightarrow>
      \<exists>m'. kill_at m g s = Some m' \<and> wf n m' \<and>
        (\<forall>g' < n. \<forall>s' < 8. slot_at m' g' s' = (if g' = g \<and> s' = s then Tomb else slot_at m g' s'))"
begin

text \<open>The view of a store with \<open>n\<close> groups, and the two writes as view updates.\<close>

lemma fill_view:
  assumes "wf n m" "g < n" "s < 8" "\<not> bit t 7" "bound v < max_index"
    and "ngroups v = n" "slot v = (\<lambda>g s. if g < n \<and> s < 8 then slot_at m g s else Empty)"
  shows "\<exists>m'. fill_at m g s t (bound v) = Some m' \<and> wf n m' \<and>
    (\<lambda>g s. if g < n \<and> s < 8 then slot_at m' g s else Empty) = slot (view_put g s t e v)"
proof -
  obtain m' where "fill_at m g s t (bound v) = Some m'" "wf n m'"
      "\<And>g' s'. g' < n \<Longrightarrow> s' < 8 \<Longrightarrow> slot_at m' g' s' =
        (if g' = g \<and> s' = s then Full t (bound v) else slot_at m g' s')"
    using fill [OF assms(1-5)] by blast
  moreover from this have "(\<lambda>g s. if g < n \<and> s < 8 then slot_at m' g s else Empty)
      = slot (view_put g s t e v)"
    using assms by (intro ext) (auto simp: view_simps)
  ultimately show ?thesis by blast
qed

lemma kill_view:
  assumes "wf n m" "g < n" "s < 8" "slot v g s = Full t i"
    and "ngroups v = n" "slot v = (\<lambda>g s. if g < n \<and> s < 8 then slot_at m g s else Empty)"
  shows "\<exists>m'. kill_at m g s = Some m' \<and> wf n m' \<and>
    (\<lambda>g s. if g < n \<and> s < 8 then slot_at m' g s else Empty) = slot (view_kill g s i v)"
proof -
  have "slot_at m g s = Full t i" using assms by simp
  then obtain m' where "kill_at m g s = Some m'" "wf n m'"
      "\<And>g' s'. g' < n \<Longrightarrow> s' < 8 \<Longrightarrow> slot_at m' g' s' =
        (if g' = g \<and> s' = s then Tomb else slot_at m g' s')"
    using kill [OF assms(1-3)] by blast
  moreover from this have "(\<lambda>g s. if g < n \<and> s < 8 then slot_at m' g s else Empty)
      = slot (view_kill g s i v)"
    using assms by (intro ext) (auto simp: view_simps)
  ultimately show ?thesis by blast
qed

end

section \<open>Interleaved groups\<close>

text \<open>The tag bytes a table keeps: a tag with a clear top bit, the deleted mark, the empty mark.\<close>

definition valid_tag :: "u8 \<Rightarrow> bool" where
  "valid_tag t \<longleftrightarrow> \<not> bit t 7 \<or> t = 0x80 \<or> t = 0xc0"

definition il_width :: "'i::len itself \<Rightarrow> nat" where
  "il_width _ = LENGTH('i) div 8"

definition il_base :: "'i::len itself \<Rightarrow> nat \<Rightarrow> nat" where
  "il_base T g = g * (8 * (1 + il_width T))"

definition il_index :: "'i::len itself \<Rightarrow> cells \<Rightarrow> nat \<Rightarrow> nat \<Rightarrow> 'i word option" where
  "il_index T m g s = load_word m (il_base T g + 8 + il_width T * s)"

definition il_slot :: "'i::len itself \<Rightarrow> cells \<Rightarrow> nat \<Rightarrow> nat \<Rightarrow> slot" where
  "il_slot T m g s = (case m ! (il_base T g + s) of
       None \<Rightarrow> Empty
     | Some t \<Rightarrow> if t = 0xc0 then Empty else if t = 0x80 then Tomb
         else (case il_index T m g s of None \<Rightarrow> Empty | Some i \<Rightarrow> Full t (unat i)))"

definition il_wf :: "'i::len itself \<Rightarrow> nat \<Rightarrow> cells \<Rightarrow> bool" where
  "il_wf T n m \<longleftrightarrow> length m = il_base T n \<and>
     (\<forall>g < n. \<forall>s < 8. \<exists>t. m ! (il_base T g + s) = Some t \<and> valid_tag t \<and>
        (\<not> bit t 7 \<longrightarrow> il_index T m g s \<noteq> None))"

definition il_fill :: "'i::len itself \<Rightarrow> cells \<Rightarrow> nat \<Rightarrow> nat \<Rightarrow> u8 \<Rightarrow> nat \<Rightarrow> cells option" where
  "il_fill T m g s t i =
     do {
       m \<leftarrow> store_bytes m (il_base T g + s) [t];
       store_word m (il_base T g + 8 + il_width T * s) (of_nat i :: 'i word)
     }"

definition il_kill :: "'i::len itself \<Rightarrow> cells \<Rightarrow> nat \<Rightarrow> nat \<Rightarrow> cells option" where
  "il_kill T m g s = store_bytes m (il_base T g + s) [0x80]"

lemma valid_tag_top: "\<not> bit t 7 \<Longrightarrow> valid_tag t \<and> t \<noteq> 0x80 \<and> t \<noteq> 0xc0"
proof -
  have "bit (0x80 :: u8) 7" "bit (0xc0 :: u8) 7" by simp_all
  then show "\<not> bit t 7 \<Longrightarrow> valid_tag t \<and> t \<noteq> 0x80 \<and> t \<noteq> 0xc0" by (auto simp: valid_tag_def)
qed

lemma il_base_less: "g < n \<Longrightarrow> il_base T g + 8 * (1 + il_width T) \<le> il_base T n"
  using mult_le_mono1 [of "Suc g" n "8 * (1 + il_width T)"] by (simp add: il_base_def)

lemma il_index_end:
  assumes "g < n" "s < 8"
  shows "il_base T g + 8 + il_width T * s + il_width T \<le> il_base T n"
proof -
  have "il_width T * Suc s \<le> il_width T * 8" using assms(2) by (intro mult_le_mono2) simp
  then have "il_width T * s + il_width T \<le> 8 * il_width T"
    by (simp only: mult_Suc_right add.commute mult.commute)
  moreover have "il_base T g + 8 + 8 * il_width T \<le> il_base T n"
    using il_base_less [OF assms(1), of T] by simp
  ultimately show ?thesis by linarith
qed

text \<open>Addresses of different slots do not meet, nor do tags and indices.\<close>

lemma il_tag_addr_inj:
  assumes "il_base T g + s = il_base T g' + s'" "s < 8" "s' < 8"
  shows "g = g' \<and> s = s'"
proof -
  consider "g < g'" | "g' < g" | "g = g'" by linarith
  then show ?thesis
    using assms il_base_less [of g g' T] il_base_less [of g' g T] by cases auto
qed

lemma il_tag_index_apart:
  assumes "s < 8" "s' < 8"
  shows "il_base T g + s < il_base T g' + 8 + il_width T * s' \<or>
    il_base T g' + 8 + il_width T * s' + il_width T \<le> il_base T g + s"
proof -
  consider "g \<le> g'" | "g' < g" by linarith
  then show ?thesis
  proof cases
    case 1
    then have "il_base T g \<le> il_base T g'" by (simp add: il_base_def)
    then show ?thesis using assms by linarith
  next
    case 2
    then show ?thesis using il_index_end [OF 2 assms(2), of T] by linarith
  qed
qed

lemma il_index_apart:
  assumes "s < 8" "s' < 8" "(g, s) \<noteq> (g', s')"
  shows "il_base T g + 8 + il_width T * s + il_width T \<le> il_base T g' + 8 + il_width T * s' \<or>
    il_base T g' + 8 + il_width T * s' + il_width T \<le> il_base T g + 8 + il_width T * s"
proof -
  consider "g < g'" | "g' < g" | "g = g'" "s < s'" | "g = g'" "s' < s" using assms(3) by force
  then show ?thesis
  proof cases
    case 1
    then show ?thesis using il_index_end [OF 1 assms(1), of T] by linarith
  next
    case 2
    then show ?thesis using il_index_end [OF 2 assms(2), of T] by linarith
  next
    case 3
    then show ?thesis using mult_le_mono2 [of "Suc s" s' "il_width T"] by simp
  next
    case 4
    then show ?thesis using mult_le_mono2 [of "Suc s'" s "il_width T"] by simp
  qed
qed

text \<open>The two writes, cell by cell.\<close>

lemma store_tag_props:
  assumes "length m = il_base T n" "g < n" "s < 8"
  shows "\<exists>m'. store_bytes m (il_base T g + s) [t] = Some m' \<and> length m' = length m \<and>
    (\<forall>g' < n. \<forall>s' < 8. m' ! (il_base T g' + s') =
      (if g' = g \<and> s' = s then Some t else m ! (il_base T g' + s'))) \<and>
    (\<forall>g' s'. s' < 8 \<longrightarrow> il_index T m' g' s' = il_index T m g' s')"
proof -
  have "il_base T g + s + length [t] \<le> length m"
    using assms il_base_less [of g n T] by simp
  then obtain m' where m': "store_bytes m (il_base T g + s) [t] = Some m'"
    using store_bytes_defined by blast
  note p = store_bytes_props [OF m']
  have "m' ! (il_base T g' + s') = (if g' = g \<and> s' = s then Some t else m ! (il_base T g' + s'))"
    if "g' < n" "s' < 8" for g' s'
  proof -
    have "il_base T g' + s' < length m" using that assms(1) il_base_less [of g' n T] by simp
    moreover have "il_base T g + s = il_base T g' + s' \<longleftrightarrow> g' = g \<and> s' = s"
      using il_tag_addr_inj [of T g s g' s'] that(2) assms(3) by auto
    ultimately show ?thesis by (subst p(2)) auto
  qed
  moreover have "il_index T m' g' s' = il_index T m g' s'" if "s' < 8" for g' s'
    unfolding il_index_def load_word_def
    using il_tag_index_apart [OF assms(3) that, of T g g']
    by (subst load_store_bytes_other [OF m']) (auto simp: il_width_def)
  ultimately show ?thesis using m' p(1) by blast
qed

lemma store_index_props:
  fixes T :: "'i::len itself" and i :: "'i word"
  assumes "length m = il_base T n" "g < n" "s < 8" "8 dvd LENGTH('i)"
  shows "\<exists>m'. store_word m (il_base T g + 8 + il_width T * s) i = Some m' \<and> length m' = length m \<and>
    (\<forall>g' < n. \<forall>s' < 8. m' ! (il_base T g' + s') = m ! (il_base T g' + s')) \<and>
    (\<forall>g' s'. s' < 8 \<longrightarrow> il_index T m' g' s' = (if g' = g \<and> s' = s then Some i else il_index T m g' s'))"
proof -
  let ?a = "il_base T g + 8 + il_width T * s"
  have "?a + length (le_bytes i) \<le> length m"
    using il_index_end [OF assms(2,3), of T] assms(1) by (simp add: il_width_def)
  then obtain m' where m': "store_word m ?a i = Some m'"
    unfolding store_word_def using store_bytes_defined by blast
  note p = store_bytes_props [OF m' [unfolded store_word_def]]
  have "m' ! (il_base T g' + s') = m ! (il_base T g' + s')" if "g' < n" "s' < 8" for g' s'
  proof -
    have "il_base T g' + s' < length m" using that assms(1) il_base_less [of g' n T] by simp
    then show ?thesis
      using il_tag_index_apart [OF that(2) assms(3), of T g' g] by (subst p(2)) (auto simp: il_width_def)
  qed
  moreover have "il_index T m' g' s' = (if g' = g \<and> s' = s then Some i else il_index T m g' s')"
    if "s' < 8" for g' s'
  proof (cases "g' = g \<and> s' = s")
    case True
    then show ?thesis using load_store_word_same [OF m' assms(4)] by (simp add: il_index_def)
  next
    case False
    then have "il_index T m' g' s' = il_index T m g' s'"
      using il_index_apart [OF that assms(3), of g' g T] unfolding il_index_def
      by (intro load_store_word_other [OF m']) (auto simp: il_width_def)
    then show ?thesis by (simp only: False if_False)
  qed
  ultimately show ?thesis using m' p(1) by blast
qed

lemma il_fill_law:
  fixes T :: "'i::len itself"
  assumes wf: "il_wf T n m" and at: "g < n" "s < 8" and t: "\<not> bit t 7"
    and i: "i < 2 ^ LENGTH('i)" and w: "8 dvd LENGTH('i)"
  shows "\<exists>m'. il_fill T m g s t i = Some m' \<and> il_wf T n m' \<and>
    (\<forall>g' < n. \<forall>s' < 8. il_slot T m' g' s' = (if g' = g \<and> s' = s then Full t i else il_slot T m g' s'))"
proof -
  have len: "length m = il_base T n" using wf by (simp add: il_wf_def)
  obtain m1 where m1: "store_bytes m (il_base T g + s) [t] = Some m1" "length m1 = length m"
      "\<And>g' s'. g' < n \<Longrightarrow> s' < 8 \<Longrightarrow> m1 ! (il_base T g' + s') =
        (if g' = g \<and> s' = s then Some t else m ! (il_base T g' + s'))"
      "\<And>g' s'. s' < 8 \<Longrightarrow> il_index T m1 g' s' = il_index T m g' s'"
    using store_tag_props [OF len at, of t] by blast
  have len1: "length m1 = il_base T n" using m1(2) len by simp
  obtain m2 where m2: "store_word m1 (il_base T g + 8 + il_width T * s) (of_nat i :: 'i word) = Some m2"
      "length m2 = length m1"
      "\<And>g' s'. g' < n \<Longrightarrow> s' < 8 \<Longrightarrow> m2 ! (il_base T g' + s') = m1 ! (il_base T g' + s')"
      "\<And>g' s'. s' < 8 \<Longrightarrow> il_index T m2 g' s' =
        (if g' = g \<and> s' = s then Some (of_nat i) else il_index T m1 g' s')"
    using store_index_props [OF len1 at w] by blast
  have "il_fill T m g s t i = Some m2" using m1(1) m2(1) by (simp add: il_fill_def)
  moreover have "il_wf T n m2"
    unfolding il_wf_def
  proof (intro conjI allI impI)
    show "length m2 = il_base T n" using m2(2) len1 by simp
    fix g' s' :: nat assume r: "g' < n" "s' < 8"
    then obtain t' where "m ! (il_base T g' + s') = Some t'" "valid_tag t'"
        "\<not> bit t' 7 \<longrightarrow> il_index T m g' s' \<noteq> None"
      using wf unfolding il_wf_def by blast
    then show "\<exists>t. m2 ! (il_base T g' + s') = Some t \<and> valid_tag t \<and>
        (\<not> bit t 7 \<longrightarrow> il_index T m2 g' s' \<noteq> None)"
      using r valid_tag_top [OF t] by (auto simp: m2 m1)
  qed
  moreover have "il_slot T m2 g' s' = (if g' = g \<and> s' = s then Full t i else il_slot T m g' s')"
    if "g' < n" "s' < 8" for g' s'
    using that valid_tag_top [OF t] i
    by (simp add: il_slot_def m2 m1 unat_of_nat_less split: option.split)
  ultimately show ?thesis by blast
qed

lemma il_kill_law:
  fixes T :: "'i::len itself"
  assumes wf: "il_wf T n m" and at: "g < n" "s < 8"
  shows "\<exists>m'. il_kill T m g s = Some m' \<and> il_wf T n m' \<and>
    (\<forall>g' < n. \<forall>s' < 8. il_slot T m' g' s' = (if g' = g \<and> s' = s then Tomb else il_slot T m g' s'))"
proof -
  have len: "length m = il_base T n" using wf by (simp add: il_wf_def)
  obtain m1 where m1: "store_bytes m (il_base T g + s) [0x80] = Some m1" "length m1 = length m"
      "\<And>g' s'. g' < n \<Longrightarrow> s' < 8 \<Longrightarrow> m1 ! (il_base T g' + s') =
        (if g' = g \<and> s' = s then Some 0x80 else m ! (il_base T g' + s'))"
      "\<And>g' s'. s' < 8 \<Longrightarrow> il_index T m1 g' s' = il_index T m g' s'"
    using store_tag_props [OF len at, of "0x80"] by blast
  have "il_wf T n m1"
    unfolding il_wf_def
  proof (intro conjI allI impI)
    show "length m1 = il_base T n" using m1(2) len by simp
    fix g' s' :: nat assume r: "g' < n" "s' < 8"
    then obtain t' where "m ! (il_base T g' + s') = Some t'" "valid_tag t'"
        "\<not> bit t' 7 \<longrightarrow> il_index T m g' s' \<noteq> None"
      using wf unfolding il_wf_def by blast
    then show "\<exists>t. m1 ! (il_base T g' + s') = Some t \<and> valid_tag t \<and>
        (\<not> bit t 7 \<longrightarrow> il_index T m1 g' s' \<noteq> None)"
      using r by (auto simp: m1 valid_tag_def)
  qed
  moreover have "il_slot T m1 g' s' = (if g' = g \<and> s' = s then Tomb else il_slot T m g' s')"
    if "g' < n" "s' < 8" for g' s'
    using that by (simp add: il_slot_def m1 split: option.split)
  ultimately show ?thesis using m1(1) by (auto simp: il_kill_def)
qed

interpretation il32: slot_store "il_wf TYPE(32)" "il_slot TYPE(32)" "il_fill TYPE(32)" "il_kill TYPE(32)" "2 ^ 32"
  by unfold_locales (use il_fill_law [where T = "TYPE(32)"] il_kill_law [where T = "TYPE(32)"] in auto)

interpretation il16: slot_store "il_wf TYPE(16)" "il_slot TYPE(16)" "il_fill TYPE(16)" "il_kill TYPE(16)" "2 ^ 16"
  by unfold_locales (use il_fill_law [where T = "TYPE(16)"] il_kill_law [where T = "TYPE(16)"] in auto)

text \<open>One group, loaded as a 64-bit word.\<close>

lemma il_group_load:
  assumes "il_wf T n m" "g < n"
  shows "\<exists>w. load_word m (il_base T g) = Some (w :: u64) \<and>
    (\<forall>s < 8. m ! (il_base T g + s) = Some (lane w s) \<and> valid_tag (lane w s))"
proof -
  define bs where "bs = map (\<lambda>s. the (m ! (il_base T g + s))) [0..<8]"
  have tag: "m ! (il_base T g + s) = Some (bs ! s) \<and> valid_tag (bs ! s)" if "s < 8" for s
    using assms that by (force simp: il_wf_def bs_def)
  have "il_base T g + 8 \<le> length m"
    using assms il_base_less [of g n T] by (simp add: il_wf_def)
  then have "load_bytes m (il_base T g) 8 = Some bs"
    using tag by (simp add: load_bytes_eq_Some_iff bs_def)
  then have "load_word m (il_base T g) = Some (le_word bs :: u64)" by (simp add: load_word_def)
  moreover have "lane (le_word bs) s = bs ! s" if "s < 8" for s
    using that by (intro lane_le_word) (simp_all add: bs_def)
  ultimately show ?thesis using tag by auto
qed

lemma il_slot_cases:
  assumes "il_wf T n m" "g < n" "s < 8" "m ! (il_base T g + s) = Some t"
  shows "t = 0xc0 \<and> il_slot T m g s = Empty \<or> t = 0x80 \<and> il_slot T m g s = Tomb \<or>
    (\<exists>i. \<not> bit t 7 \<and> il_index T m g s = Some i \<and> il_slot T m g s = Full t (unat i))"
proof -
  have "valid_tag t \<and> (\<not> bit t 7 \<longrightarrow> il_index T m g s \<noteq> None)"
    using assms unfolding il_wf_def by (metis option.inject)
  then show ?thesis
    using valid_tag_top [of t] assms(4) by (auto simp: il_slot_def valid_tag_def)
qed

text \<open>What the masks of a group word say about the slots of a view.\<close>

definition il_slots :: "'i::len itself \<Rightarrow> nat \<Rightarrow> cells \<Rightarrow> nat \<Rightarrow> nat \<Rightarrow> slot" where
  "il_slots T n m = (\<lambda>g s. if g < n \<and> s < 8 then il_slot T m g s else Empty)"

lemma il_hit:
  assumes engine: "group_engine hits empties 0xc0 valid_tag" and wf: "il_wf T n m" "g < n"
    and v: "ngroups v = n" "slot v = il_slots T n m" "view_inv Hash Eq v"
    and w: "load_word m (il_base T g) = Some w" and h: "\<not> bit h 7" and s: "s \<in> set (hits w h)"
  shows "s < 8 \<and> (\<exists>i e. il_index T m g s = Some i \<and> slot v g s = Full (lane w s) (unat i) \<and>
    elem v (unat i) = Some e)"
proof -
  have s8: "s < 8" "\<not> bit (lane w s) 7" using group_engine.hit_in_use [OF engine h s] by auto
  then have "m ! (il_base T g + s) = Some (lane w s)" using il_group_load [OF wf] w by auto
  then obtain i where i: "il_index T m g s = Some i" "il_slot T m g s = Full (lane w s) (unat i)"
    using il_slot_cases [OF wf s8(1)] s8(2) by force
  then have full: "slot v g s = Full (lane w s) (unat i)" using v s8 wf by (simp add: il_slots_def)
  then have "live v (unat i)" using view_inv_full [OF v(3)] v(1) wf(2) s8(1) by simp
  then show ?thesis using live_elem [OF v(3)] i full s8(1) by blast
qed

lemma il_no_match:
  assumes engine: "group_engine hits empties 0xc0 valid_tag" and wf: "il_wf T n m" "g < n"
    and v: "slot v = il_slots T n m" and w: "load_word m (il_base T g) = Some w"
    and none: "\<And>s i e. s \<in> set (hits w h) \<Longrightarrow> slot v g s = Full h i \<Longrightarrow> elem v i = Some e \<Longrightarrow> \<not> M e"
  shows "no_match v h M g"
  unfolding no_match_def
proof (intro allI impI)
  fix s i e assume s: "s < 8" "slot v g s = Full h i" "elem v i = Some e"
  have "m ! (il_base T g + s) = Some (lane w s)" using il_group_load [OF wf] w s(1) by auto
  moreover have "il_slot T m g s = Full h i" using s(1,2) wf(2) v by (simp add: il_slots_def)
  ultimately have "lane w s = h" using il_slot_cases [OF wf s(1)] by auto
  then show "\<not> M e" using none s group_engine.hit_complete [OF engine s(1)] by blast
qed

lemma il_empties:
  assumes engine: "group_engine hits empties 0xc0 valid_tag" and wf: "il_wf T n m" "g < n"
    and v: "slot v = il_slots T n m" and w: "load_word m (il_base T g) = Some w"
  shows "empties w = filter (\<lambda>s. slot v g s = Empty) [0..<8]"
proof -
  have tag: "m ! (il_base T g + s) = Some (lane w s) \<and> valid_tag (lane w s)" if "s < 8" for s
    using il_group_load [OF wf] w that by auto
  have "empties w = filter (\<lambda>s. lane w s = 0xc0) [0..<8]"
    using tag by (intro group_engine.empties_eq [OF engine]) blast
  also have "\<dots> = filter (\<lambda>s. slot v g s = Empty) [0..<8]"
  proof (rule filter_cong [OF refl])
    fix s :: nat assume "s \<in> set [0..<8]"
    then have s: "s < 8" by simp
    have "\<not> bit (lane w s) 7 \<Longrightarrow> lane w s \<noteq> 0xc0" using valid_tag_top by blast
    then show "lane w s = 0xc0 \<longleftrightarrow> slot v g s = Empty"
      using il_slot_cases [OF wf s] tag [OF s] wf(2) s by (auto simp: v il_slots_def)
  qed
  finally show ?thesis .
qed

lemma first_empty:
  assumes "filter (\<lambda>s. slot v g s = Empty) [0..<8] = s # ss"
  shows "s < 8 \<and> slot v g s = Empty \<and> (\<forall>s' < s. slot v g s' \<noteq> Empty)"
proof -
  have sorted: "sorted_wrt (<) (s # ss)"
    using sorted_wrt_filter [OF sorted_wrt_upt, of "\<lambda>s. slot v g s = Empty" 0 8] assms by simp
  have mem: "x \<in> set (s # ss) \<longleftrightarrow> x < 8 \<and> slot v g x = Empty" for x
    by (subst assms [symmetric]) auto
  then have s: "s < 8" "slot v g s = Empty" by auto
  moreover have "slot v g s' \<noteq> Empty" if "s' < s" for s'
  proof
    assume "slot v g s' = Empty"
    then have "s' \<in> set (s # ss)" using mem [of s'] that s(1) by simp
    then show False using sorted that by auto
  qed
  ultimately show ?thesis by blast
qed

lemma no_empty: "filter (\<lambda>s. slot v g s = Empty) [0..<8] = [] \<longleftrightarrow> \<not> has_empty v g"
  by (auto simp: filter_empty_conv has_empty_def)

text \<open>
  The scan of one group: \<open>il_eq\<close> is the comparison the inner loop makes at a slot. Each of the
  three ways a scan can go is right for the view.
\<close>

definition il_eq :: "'i::len itself \<Rightarrow> cells \<Rightarrow> 'e view \<Rightarrow> ('e \<Rightarrow> bool) \<Rightarrow> nat \<Rightarrow> nat \<Rightarrow> bool" where
  "il_eq T m v M g s = M (the (elem v (unat (the (il_index T m g s)))))"

lemma il_scan:
  assumes engine: "group_engine hits empties 0xc0 valid_tag" and wf: "il_wf T n m" "g < n"
    and v: "ngroups v = n" "slot v = il_slots T n m" "view_inv Hash Eq v"
    and w: "load_word m (il_base T g) = Some w" and h: "\<not> bit h 7"
  shows il_get: "s \<in> set (hits w h) \<Longrightarrow> \<exists>i e. il_index T m g s = Some i \<and> elem v (unat i) = Some e"
    and il_found: "List.find (il_eq T m v M g) (hits w h) = Some s \<Longrightarrow>
      scan_ok v h M g (Inr (Matched g s (unat (the (il_index T m g s)))))"
    and il_vacant: "List.find (il_eq T m v M g) (hits w h) = None \<Longrightarrow> empties w = s # ss \<Longrightarrow>
      scan_ok v h M g (Inr (Vacant g s))"
    and il_pass: "List.find (il_eq T m v M g) (hits w h) = None \<Longrightarrow> empties w = [] \<Longrightarrow>
      scan_ok v h M g (Inl (Suc g mod n))"
proof -
  note hit = il_hit [OF engine wf v w h]
  show "s \<in> set (hits w h) \<Longrightarrow> \<exists>i e. il_index T m g s = Some i \<and> elem v (unat i) = Some e"
    using hit by blast
  show "scan_ok v h M g (Inr (Matched g s (unat (the (il_index T m g s)))))"
    if "List.find (il_eq T m v M g) (hits w h) = Some s"
  proof -
    have "s \<in> set (hits w h)" "il_eq T m v M g s" using that by (auto simp: find_Some_iff)
    then show ?thesis using hit [of s] by (auto simp: il_eq_def)
  qed
  have none: "no_match v h M g" if f: "List.find (il_eq T m v M g) (hits w h) = None"
  proof (rule il_no_match [OF engine wf v(2) w])
    fix s i e assume s: "s \<in> set (hits w h)" "slot v g s = Full h i" "elem v i = Some e"
    then have "\<not> il_eq T m v M g s" using f by (auto simp: find_None_iff)
    then show "\<not> M e" using hit [OF s(1)] s by (auto simp: il_eq_def)
  qed
  note empties = il_empties [OF engine wf v(2) w]
  show "List.find (il_eq T m v M g) (hits w h) = None \<Longrightarrow> empties w = s # ss \<Longrightarrow>
      scan_ok v h M g (Inr (Vacant g s))"
    using none first_empty [of v g s ss, folded empties] by simp
  show "List.find (il_eq T m v M g) (hits w h) = None \<Longrightarrow> empties w = [] \<Longrightarrow>
      scan_ok v h M g (Inl (Suc g mod n))"
    using none no_empty [of v g, folded empties] v(1) by simp
qed

text \<open>A freshly allocated array after the tags of every group are set to the empty mark.\<close>

lemma il_cleared:
  assumes "base = il_base T" "length m = il_base T n"
  shows "\<exists>m'. memset_each base 8 0xc0 [0..<n] m = Some m' \<and> il_wf T n m' \<and>
    (\<forall>g < n. \<forall>s < 8. il_slot T m' g s = Empty)"
proof -
  have "il_base T i + 8 \<le> length m" if "i \<in> set [0..<n]" for i
    using that il_base_less [of i n T] assms(2) by simp
  then obtain m' where m': "memset_each base 8 0xc0 [0..<n] m = Some m'" "length m' = length m"
      "\<And>j. j < length m \<Longrightarrow> m' ! j =
        (if \<exists>i \<in> set [0..<n]. il_base T i \<le> j \<and> j < il_base T i + 8 then Some 0xc0 else m ! j)"
    using memset_each_props [of "[0..<n]" "il_base T" 8 m "0xc0"] assms(1) by blast
  have tag: "m' ! (il_base T g + s) = Some 0xc0" if "g < n" "s < 8" for g s
  proof -
    have "il_base T g + s < length m" using that il_base_less [of g n T] assms(2) by simp
    moreover have "\<exists>i \<in> set [0..<n]. il_base T i \<le> il_base T g + s \<and> il_base T g + s < il_base T i + 8"
      using that by (intro bexI [of _ g]) auto
    ultimately show ?thesis by (subst m'(3)) auto
  qed
  then have "il_wf T n m'" using m'(2) assms(2) by (auto simp: il_wf_def valid_tag_def)
  moreover have "il_slot T m' g s = Empty" if "g < n" "s < 8" for g s
    using tag [OF that] by (simp add: il_slot_def)
  ultimately show ?thesis using m'(1) by blast
qed

end
