(* ===== verification/Ihtab_Correct.thy ===== *)
theory Ihtab_Correct
  imports Ihtab Layout
begin

text \<open>
  Correctness of the table of \<open>ihtab.h\<close>. The byte arrays of a bin are read as a view; the
  three platforms interpret \<open>group_engine\<close>, the probe loop interprets \<open>probing\<close>, and every
  operation is shown to act on the list of stored elements, oldest first, as its contract
  says.
\<close>

section \<open>Group scans\<close>

definition iht_group :: "platform \<Rightarrow> u64 \<Rightarrow> group_t" where
  "iht_group P g = (case P of
       X86_SSE2 \<Rightarrow> SSE2_group (mm_cvtsi64_si128 g)
     | AARCH64_NEON \<Rightarrow> NEON_group g
     | SWAR \<Rightarrow> SWAR_group g)"

definition iht_hits :: "platform \<Rightarrow> u64 \<Rightarrow> u8 \<Rightarrow> nat list" where
  "iht_hits P g h = mask_slots (IHT_MASK_SCALE P) (iht_match_mask (iht_group P g) h)"

definition iht_empties :: "platform \<Rightarrow> u64 \<Rightarrow> nat list" where
  "iht_empties P g = mask_slots (IHT_MASK_SCALE P) (iht_match_empty (iht_group P g))"

lemma iht_group_load_eq: "iht_group_load P m p = map_option (iht_group P) (load_word m p)"
  by (simp add: iht_group_load_def iht_group_def [abs_def])

lemma bit_iht_match_mask:
  "bit (iht_match_mask (iht_group P g) h) n \<longleftrightarrow>
     (if P = SWAR then n < 64 \<and> n mod 8 = 7 \<and> swar_hit (g XOR (SWAR_LSB * ucast h)) (n div 8)
      else n < 8 \<and> lane g n = h)"
  by (cases P) (simp_all add: iht_group_def sse2_match_bit neon_match_bit swar_match_bit Let_def)

lemma valid_tag_empty: "valid_tag t \<Longrightarrow> bit t 7 \<and> bit t 6 \<longleftrightarrow> t = 0xc0"
proof -
  have "\<not> bit (0x80 :: u8) 6" "bit (0xc0 :: u8) 6" "bit (0xc0 :: u8) 7" by simp_all
  then show "valid_tag t \<Longrightarrow> bit t 7 \<and> bit t 6 \<longleftrightarrow> t = 0xc0" by (auto simp: valid_tag_def)
qed

lemma bit_iht_match_empty:
  "bit (iht_match_empty (iht_group P g)) n \<longleftrightarrow>
     (case P of
        X86_SSE2 \<Rightarrow> n < 8 \<and> bit (lane g n) 7 \<and> bit (lane g n) 6
      | AARCH64_NEON \<Rightarrow> n < 8 \<and> lane g n = 0xc0
      | SWAR \<Rightarrow> n < 64 \<and> n mod 8 = 7 \<and> bit (lane g (n div 8)) 7 \<and> bit (lane g (n div 8)) 6)"
proof (cases P)
  case X86_SSE2
  have "bit (mm_cvtsi64_si128 g) m \<longleftrightarrow> bit g m" if "m < 64" for m
    using that by (simp add: mm_cvtsi64_si128_def bit_simps)
  moreover have "bit (mm_slli_epi64 (mm_cvtsi64_si128 g) 1) (8 * n + 7) \<longleftrightarrow> bit g (8 * n + 6)" if "n < 8"
    using bit_slli_cvtsi64 [of "8 * n + 7" g] that by (simp add: add.commute)
  ultimately show ?thesis
    using X86_SSE2 unfolding iht_group_def X86_SSE2 platform.case iht_match_empty.simps sse2_top_bits
    by (auto simp: bit_lane)
next
  case AARCH64_NEON
  then show ?thesis
    by (simp add: iht_group_def neon_match_bit Let_def IHT_EMPTY_H7_def)
next
  case SWAR
  have "8 * (n div 8) + 7 = n" "8 * (n div 8) + 6 = n - 1" "1 \<le> n" if "n mod 8 = 7"
    using that div_mult_mod_eq [of n 8] by simp_all
  then show ?thesis
    unfolding SWAR iht_group_def platform.case iht_match_empty.simps bit_and_iff bit_SWAR_MSB
      bit_push_bit_iff bit_lane
    by (auto dest: bit_imp_le_length)
qed

interpretation iht_scan: group_engine "iht_hits P" "iht_empties P" "0xc0" valid_tag for P
  unfolding iht_hits_def iht_empties_def
  by (rule engineI [where E = "\<lambda>t. if P = AARCH64_NEON then t = 0xc0 else bit t 7 \<and> bit t 6"])
    (auto simp: bit_iht_match_mask bit_iht_match_empty IHT_MASK_SCALE_def valid_tag_empty split: platform.splits)

lemma set_iht_hits:
  "set (iht_hits P g h) = {s. s < 8 \<and>
     (if P = SWAR then swar_hit (g XOR (SWAR_LSB * ucast h)) s else lane g s = h)}"
  using set_mask_slots_scaled [of "iht_match_mask (iht_group P g) h" "swar_hit (g XOR (SWAR_LSB * ucast h))"]
  by (cases "P = SWAR")
    (auto simp: iht_hits_def IHT_MASK_SCALE_def set_mask_slots_unscaled bit_iht_match_mask)

section \<open>Bins\<close>

text \<open>
  The number of groups is a power of two. The element array has half as many cells as there
  are slots, the bitmap a bit for each. Element indices have 32 bits, so that the bound on
  the number of groups keeps them exact.
\<close>

definition iht_sized :: "nat \<Rightarrow> 'e hbin_iht \<Rightarrow> bool" where
  "iht_sized k b \<longleftrightarrow> k \<le> 30 \<and> groups_mask b = 2 ^ k - 1 \<and> il_wf TYPE(32) (2 ^ k) (groups b) \<and>
     length (els b) = 4 * 2 ^ k \<and> length (deleted b) = (4 * 2 ^ k + 7) div 8"

definition iht_view :: "'e hbin_iht \<Rightarrow> 'e view" where
  "iht_view b = \<lparr>ngroups = Suc (unat (groups_mask b)),
     slot = il_slots TYPE(32) (Suc (unat (groups_mask b))) (groups b),
     elem = read_el (els b), dead = del_bit (deleted b), bound = unat (els_bound b)\<rparr>"

definition iht_bin_inv :: "('e \<Rightarrow> u64) \<Rightarrow> ('e \<Rightarrow> 'e \<Rightarrow> bool) \<Rightarrow> nat \<Rightarrow> 'e hbin_iht \<Rightarrow> bool" where
  "iht_bin_inv Hash Eq k b \<longleftrightarrow> iht_sized k b \<and> view_inv Hash Eq (iht_view b) \<and>
     unat (els_bound b) \<le> 4 * 2 ^ k"

lemma iht_view_sel [view_simps]:
  assumes "iht_sized k b"
  shows "ngroups (iht_view b) = 2 ^ k" "slot (iht_view b) = il_slots TYPE(32) (2 ^ k) (groups b)"
    and "elem (iht_view b) = read_el (els b)" "dead (iht_view b) = del_bit (deleted b)"
    and "bound (iht_view b) = unat (els_bound b)"
  using assms by (simp_all add: iht_view_def iht_sized_def unat_pow2_minus_1)

lemma iht_base_eq: "g < 2 ^ 30 \<Longrightarrow> iht_base g = il_base TYPE(32) g"
  by (simp add: iht_base_def IHT_GROUP_BYTES_def IHT_GROUP_SIZE_def il_base_def il_width_def
      unat_of_nat_less unat_mult_less)

lemma iht_next_group:
  assumes "iht_sized k b" "unat g < 2 ^ k"
  shows "unat ((g + 1) AND groups_mask b) = Suc (unat g) mod 2 ^ k"
proof -
  have "unat g < 2 ^ 30" using assms pow2_le_30 [of k] by (simp add: iht_sized_def)
  then have "unat (g + 1) = Suc (unat g)" by (subst unat_add_less) simp_all
  then show ?thesis using assms by (simp add: iht_sized_def unat_and_pow2_mask)
qed

lemma iht_home:
  "iht_sized k b \<Longrightarrow> unat ((hash div IHT_GROUP_SIZE) AND groups_mask b) = home (2 ^ k) hash"
  by (simp add: iht_sized_def unat_and_pow2_mask home_def IHT_GROUP_SIZE_def)

section \<open>Probing\<close>

text \<open>The inner loop as a search, and the outer loop as a probe.\<close>

interpretation iht_mask: mask_loop "\<lambda>(Eq, b, base, el). iht_scan P Eq b base el" "IHT_MASK_SCALE P"
    "\<lambda>(Eq, b, base, el) s. do {
       i \<leftarrow> load_word (groups b) (base + 8 + 4 * s);
       e \<leftarrow> read_el (els b) (unat i);
       Some (i, Eq e el)
     }" for P
proof (unfold_locales, goal_cases)
  case (1 c m)
  obtain Eq b base el where c: "c = (Eq, b, base, el)" by (cases c)
  show ?case
    unfolding c prod.case by (subst iht_scan.simps) (simp add: Let_def split: Option.bind_splits)
qed

lemma iht_probe_step_scans:
  assumes b: "iht_sized k b" "view_inv Hash Eq (iht_view b)" and h: "\<not> bit h 7"
    and g: "unat g < ngroups (iht_view b)"
  shows "\<exists>r. iht_probe_step P Eq b h el g = Some r \<and>
    scan_ok (iht_view b) h (\<lambda>e. Eq e el) (unat g) (map_sum unat id r)"
proof -
  let ?v = "iht_view b" and ?T = "TYPE(32)"
  note v = iht_view_sel [OF b(1)]
  have wf: "il_wf ?T (2 ^ k) (groups b)" "unat g < 2 ^ k" using b(1) g v by (simp_all add: iht_sized_def)
  have base: "iht_base (unat g) = il_base ?T (unat g)"
    using b(1) wf(2) pow2_le_30 [of k] by (intro iht_base_eq) (simp add: iht_sized_def)
  obtain w where w: "load_word (groups b) (il_base ?T (unat g)) = Some (w :: u64)"
    using il_group_load [OF wf] by blast
  let ?M = "\<lambda>e. Eq e el" and ?f = "\<lambda>s. the (il_index ?T (groups b) (unat g) s)"
  let ?found = "List.find (il_eq ?T (groups b) ?v ?M (unat g)) (iht_hits P w h)"
  note il = il_scan [OF iht_scan.group_engine_axioms [of P] wf v(1,2) b(2) w h]
  have get: "load_word (groups b) (iht_base (unat g) + 8 + 4 * s) \<bind>
      (\<lambda>i. read_el (els b) (unat i) \<bind> (\<lambda>e. Some (i, ?M e))) =
      Some (?f s, il_eq ?T (groups b) ?v ?M (unat g) s)"
    if s: "s \<in> set (iht_hits P w h)" for s
    using il(1) [OF s] by (auto simp: il_eq_def base v il_index_def il_width_def)
  have "iht_scan P Eq b (iht_base (unat g)) el (iht_match_mask (iht_group P w) h) =
      Some (map_option (\<lambda>s. (s, ?f s)) ?found)"
    using iht_mask.scan_find [of P "iht_match_mask (iht_group P w) h" "(Eq, b, iht_base (unat g), el)" ?f
        "il_eq ?T (groups b) ?v ?M (unat g)"] get
    unfolding prod.case iht_hits_def by blast
  then have step: "iht_probe_step P Eq b h el g = (case ?found of
      Some s \<Rightarrow> Some (Inr (Matched (unat g) s (unat (?f s))))
    | None \<Rightarrow> (case iht_empties P w of [] \<Rightarrow> Some (Inl ((g + 1) AND groups_mask b))
        | s # _ \<Rightarrow> Some (Inr (Vacant (unat g) s))))"
    using w mask_slots_Cons [of "iht_match_empty (iht_group P w)" "IHT_MASK_SCALE P"]
    by (auto simp: iht_probe_step_def base iht_group_load_eq Let_def iht_empties_def split: option.splits)
  show ?thesis
  proof (cases ?found)
    case (Some s)
    then show ?thesis using step il(2) by simp
  next
    case None
    then show ?thesis
      using step il(3,4) [OF None] iht_next_group [OF b(1) wf(2)] by (cases "iht_empties P w") simp_all
  qed
qed

interpretation iht_loop: probing "\<lambda>(k, Hash, Eq, b, h, el). iht_probe_step P Eq b h el"
    "\<lambda>(k, Hash, Eq, b, h, el). iht_probe P Eq b h el"
    "\<lambda>(k, Hash, Eq, b, h, el). iht_sized k b \<and> view_inv Hash Eq (iht_view b) \<and> \<not> bit h 7"
    "\<lambda>(k, Hash, Eq, b, h, el). iht_view b" "\<lambda>(k, Hash, Eq, b, h, el). h"
    "\<lambda>(k, Hash, Eq, b, h, el) e. Eq e el" unat id "\<lambda>_ _. True" "\<lambda>_ _. True" for P
proof (unfold_locales, goal_cases)
  case (1 c s)
  obtain k Hash Eq b h el where c: "c = (k, Hash, Eq, b, h, el)" by (cases c)
  show ?case unfolding c prod.case by (rule iht_probe.simps)
next
  case (2 c s)
  obtain k Hash Eq b h el where c: "c = (k, Hash, Eq, b, h, el)" by (cases c)
  show ?case
    using 2 iht_probe_step_scans [of k b Hash Eq h s P el] unfolding c prod.case by (auto split: sum.split)
qed

text \<open>The probe of \<open>iht_do_1\<close> ends with the right outcome, on every platform with the same one.\<close>

lemma iht_probe_correct:
  assumes hk: "hash_key Hash Eq" and b: "iht_sized k b" "view_inv Hash Eq (iht_view b)"
    and room: "unat (els_bound b) < 8 * 2 ^ k"
  shows "\<exists>r. iht_probe P Eq b (h7_of (Hash el)) el ((Hash el div IHT_GROUP_SIZE) AND groups_mask b) = Some r \<and>
    probe_ok Hash Eq (iht_view b) el r"
  using iht_loop.probe_correct [OF hk, of "(k, Hash, Eq, b, h7_of (Hash el), el)" el
      "(Hash el div IHT_GROUP_SIZE) AND groups_mask b" P] b room iht_home [OF b(1), of "Hash el"]
  by (simp add: h7_of_top_clear iht_view_sel [OF b(1)])

lemma iht_probe_platform:
  assumes "hash_key Hash Eq" "iht_sized k b" "view_inv Hash Eq (iht_view b)"
    and "unat (els_bound b) < 8 * 2 ^ k"
  shows "iht_probe P Eq b (h7_of (Hash el)) el ((Hash el div IHT_GROUP_SIZE) AND groups_mask b) =
    iht_probe P' Eq b (h7_of (Hash el)) el ((Hash el div IHT_GROUP_SIZE) AND groups_mask b)"
  using iht_probe_correct [OF assms, of P el] iht_probe_correct [OF assms, of P' el]
    probe_ok_unique [OF assms(1,3)] by metis

section \<open>One bin\<close>

lemma iht_bin_invD:
  assumes "iht_bin_inv Hash Eq k b"
  shows "iht_sized k b" "view_inv Hash Eq (iht_view b)" "unat (els_bound b) < 8 * 2 ^ k"
    "unat (els_bound b) \<le> 4 * 2 ^ k" "k \<le> 30"
  using assms by (auto simp: iht_bin_inv_def iht_sized_def intro: le_less_trans)

lemma iht_probe_bin:
  assumes hk: "hash_key Hash Eq" and inv: "iht_bin_inv Hash Eq k b"
  shows "(\<exists>g s t i x. g < 2 ^ k \<and> s < 8 \<and> slot (iht_view b) g s = Full t i \<and> live (iht_view b) i \<and>
      elem (iht_view b) i = Some x \<and> Eq x el \<and>
      iht_probe P Eq b (h7_of (Hash el)) el ((Hash el div IHT_GROUP_SIZE) AND groups_mask b)
        = Some (Matched g s i)) \<or>
    (\<forall>x \<in> set (contents (iht_view b)). \<not> Eq x el) \<and>
    (\<exists>g s. g < 2 ^ k \<and> s < 8 \<and> slot (iht_view b) g s = Empty \<and>
      clear_path (iht_view b) (home (2 ^ k) (Hash el)) g \<and>
      iht_probe P Eq b (h7_of (Hash el)) el ((Hash el div IHT_GROUP_SIZE) AND groups_mask b)
        = Some (Vacant g s))"
proof -
  note d = iht_bin_invD [OF inv]
  note v = iht_view_sel [OF d(1)]
  obtain r where r: "iht_probe P Eq b (h7_of (Hash el)) el ((Hash el div IHT_GROUP_SIZE) AND groups_mask b)
      = Some r" "probe_ok Hash Eq (iht_view b) el r"
    using iht_probe_correct [OF hk d(1-3)] by blast
  show ?thesis
  proof (cases r)
    case (Matched g s i)
    then show ?thesis
      using r view_inv_full [OF d(2), of g s _ i] v(1) unfolding Matched probe_ok.simps by metis
  next
    case (Vacant g s)
    then show ?thesis
      using r v(1) in_contents_iff [OF d(2)] unfolding Vacant probe_ok.simps by metis
  qed
qed

lemma iht_view_eqI:
  assumes "iht_sized k b" "iht_sized k b'"
    and "slot w = il_slots TYPE(32) (2 ^ k) (groups b')" "ngroups w = 2 ^ k"
    and "elem w = read_el (els b')" "dead w = del_bit (deleted b')" "bound w = unat (els_bound b')"
  shows "iht_view b' = w"
  using assms by (intro view.equality) (simp_all add: iht_view_sel [OF assms(2)])

lemma iht_do_1_present:
  assumes hk: "hash_key Hash Eq" and inv: "iht_bin_inv Hash Eq k b"
    and y: "y \<in> set (contents (iht_view b))" "Eq y el"
  shows "\<exists>i x. live (iht_view b) i \<and> elem (iht_view b) i = Some x \<and> Eq x el \<and>
    (\<forall>a. a \<noteq> IHT_DELETE \<longrightarrow> iht_do_1 P Hash Eq num b el a = Some (True, Some i, num, b)) \<and>
    (\<exists>b'. iht_do_1 P Hash Eq num b el IHT_DELETE = Some (True, None, num - 1, b') \<and>
      iht_bin_inv Hash Eq k b' \<and> els_bound b' = els_bound b \<and>
      contents (iht_view b') = filter (\<lambda>x. \<not> Eq x el) (contents (iht_view b)))"
proof -
  note d = iht_bin_invD [OF inv]
  note v = iht_view_sel [OF d(1)]
  obtain g s t i x where r: "g < 2 ^ k" "s < 8" "slot (iht_view b) g s = Full t i" "live (iht_view b) i"
      "elem (iht_view b) i = Some x" "Eq x el"
      "iht_probe P Eq b (h7_of (Hash el)) el ((Hash el div IHT_GROUP_SIZE) AND groups_mask b) = Some (Matched g s i)"
    using iht_probe_bin [OF hk inv, of el P] y by blast
  let ?w = "view_kill g s i (iht_view b)"
  have "i < 4 * 2 ^ k" using r(4) d(4) by (simp add: live_def v)
  then have "i div 8 < length (deleted b)" using d(1) by (auto simp: iht_sized_def)
  then obtain ds where ds: "del_set (deleted b) i = Some ds" by (simp add: del_set_def)
  obtain m where m: "il_kill TYPE(32) (groups b) g s = Some m" "il_wf TYPE(32) (2 ^ k) m"
      "il_slots TYPE(32) (2 ^ k) m = slot ?w"
    using il32.kill_view [OF _ r(1-3)] d(1) v(1,2) unfolding il_slots_def iht_sized_def by blast
  let ?b = "b\<lparr>deleted := ds, groups := m\<rparr>"
  have sized: "iht_sized k ?b" using d(1) m(2) del_set_props(1) [OF ds] by (simp add: iht_sized_def)
  have view: "iht_view ?b = ?w"
    by (rule iht_view_eqI [OF d(1) sized])
      (auto simp: m v view_simps fun_eq_iff del_set_props(2) [OF ds])
  have base: "iht_base g = il_base TYPE(32) g"
    using r(1) pow2_le_30 [OF d(5)] by (intro iht_base_eq) simp
  have "iht_do_1 P Hash Eq num b el IHT_DELETE = Some (True, None, num - 1, ?b)"
    using r(7) ds m(1) by (simp add: iht_do_1_def Let_def il_kill_def base IHT_DELETED_H7_def)
  moreover have "iht_bin_inv Hash Eq k ?b"
    using view_kill_inv [OF d(2) _ r(2,3)] r(1) v(1) sized view d(4) by (simp add: iht_bin_inv_def)
  moreover have "contents (iht_view ?b) = filter (\<lambda>x. \<not> Eq x el) (contents (iht_view b))"
    unfolding view by (rule contents_kill [OF hk d(2) r(4-6)])
  moreover have "iht_do_1 P Hash Eq num b el a = Some (True, Some i, num, b)" if "a \<noteq> IHT_DELETE" for a
    using r(7) that by (simp add: iht_do_1_def Let_def)
  ultimately show ?thesis using r(4-6) by auto
qed

lemma iht_put_bin:
  assumes inv: "iht_bin_inv Hash Eq k b" and at: "g < 2 ^ k" "s < 8" and h: "\<not> bit h 7"
    and room: "unat (els_bound b) < 4 * 2 ^ k"
  shows "\<exists>m0 m xs. store_bytes (groups b) (iht_base g + s) [h] = Some m0 \<and>
    store_word m0 (iht_base g + 8 + 4 * s) (ucast (els_bound b) :: u32) = Some m \<and>
    write_el (els b) (unat (els_bound b)) e = Some xs \<and>
    unat (els_bound b + 1) = Suc (unat (els_bound b)) \<and>
    iht_sized k (b\<lparr>groups := m, els_bound := els_bound b + 1, els := xs\<rparr>) \<and>
    iht_view (b\<lparr>groups := m, els_bound := els_bound b + 1, els := xs\<rparr>) = view_put g s h e (iht_view b)"
proof -
  note d = iht_bin_invD [OF inv]
  note v = iht_view_sel [OF d(1)]
  let ?w = "view_put g s h e (iht_view b)"
  have small: "unat (els_bound b) < 2 ^ 32" using room pow2_le_30 [OF d(5)] by simp
  obtain m where m: "il_fill TYPE(32) (groups b) g s h (bound (iht_view b)) = Some m"
      "il_wf TYPE(32) (2 ^ k) m" "il_slots TYPE(32) (2 ^ k) m = slot ?w"
    using il32.fill_view [OF _ at h, of "groups b" "iht_view b" e] d(1) v small
    unfolding il_slots_def iht_sized_def by auto
  obtain xs where xs: "write_el (els b) (unat (els_bound b)) e = Some xs"
    using room d(1) by (simp add: write_el_def iht_sized_def)
  let ?b = "b\<lparr>groups := m, els_bound := els_bound b + 1, els := xs\<rparr>"
  have bound: "unat (els_bound b + 1) = Suc (unat (els_bound b))"
    using small by (subst unat_add_less) simp_all
  have sized: "iht_sized k ?b" using d(1) m(2) length_write_el [OF xs] by (simp add: iht_sized_def)
  have view: "iht_view ?b = ?w"
    by (rule iht_view_eqI [OF d(1) sized])
      (auto simp: m v view_simps fun_eq_iff bound read_write_el [OF xs])
  have base: "iht_base g = il_base TYPE(32) g"
    using at(1) pow2_le_30 [OF d(5)] by (intro iht_base_eq) simp
  show ?thesis
    using m(1) xs bound sized view by (auto simp: il_fill_def base il_width_def v split: Option.bind_splits)
qed

lemma iht_do_1_absent:
  assumes hk: "hash_key Hash Eq" and inv: "iht_bin_inv Hash Eq k b"
    and absent: "\<forall>x \<in> set (contents (iht_view b)). \<not> Eq x el"
  shows "a < IHT_INSERT \<Longrightarrow> iht_do_1 P Hash Eq num b el a = Some (False, None, num, b)"
    and "unat (els_bound b) < 4 * 2 ^ k \<Longrightarrow> Eq e el \<Longrightarrow>
      \<exists>b' xs. iht_do_1 P Hash Eq num b el IHT_INSERT = Some (False, Some (unat (els_bound b)), num + 1, b') \<and>
        write_el (els b') (unat (els_bound b)) e = Some xs \<and>
        iht_bin_inv Hash Eq k (b'\<lparr>els := xs\<rparr>) \<and> unat (els_bound b') = Suc (unat (els_bound b)) \<and>
        contents (iht_view (b'\<lparr>els := xs\<rparr>)) = contents (iht_view b) @ [e]"
proof -
  note d = iht_bin_invD [OF inv]
  note v = iht_view_sel [OF d(1)]
  obtain g s where r: "g < 2 ^ k" "s < 8" "slot (iht_view b) g s = Empty"
      "clear_path (iht_view b) (home (2 ^ k) (Hash el)) g"
      "iht_probe P Eq b (h7_of (Hash el)) el ((Hash el div IHT_GROUP_SIZE) AND groups_mask b) = Some (Vacant g s)"
    using iht_probe_bin [OF hk inv, of el P] absent in_contents_iff [OF d(2)] by blast
  show "iht_do_1 P Hash Eq num b el a = Some (False, None, num, b)" if "a < IHT_INSERT"
    using r(5) that by (simp add: iht_do_1_def Let_def flip: not_less)
  assume room: "unat (els_bound b) < 4 * 2 ^ k" and e: "Eq e el"
  let ?w = "view_put g s (h7_of (Hash el)) e (iht_view b)"
  have hash: "Hash e = Hash el" by (rule hash_key.hash_cong [OF hk e])
  obtain m0 m xs where p: "store_bytes (groups b) (iht_base g + s) [h7_of (Hash el)] = Some m0"
      "store_word m0 (iht_base g + 8 + 4 * s) (ucast (els_bound b) :: u32) = Some m"
      "write_el (els b) (unat (els_bound b)) e = Some xs"
      "unat (els_bound b + 1) = Suc (unat (els_bound b))"
      "iht_sized k (b\<lparr>groups := m, els_bound := els_bound b + 1, els := xs\<rparr>)"
      "iht_view (b\<lparr>groups := m, els_bound := els_bound b + 1, els := xs\<rparr>) = ?w"
    using iht_put_bin [OF inv r(1,2) h7_of_top_clear room] by blast
  have "view_inv Hash Eq ?w"
    unfolding hash [symmetric]
  proof (rule view_put_inv [OF hk d(2)])
    show "\<not> Eq x e" if "live (iht_view b) i" "elem (iht_view b) i = Some x" for i x
      using absent in_contents_iff [OF d(2)] that e hash_key.eq_trans [OF hk] by blast
  qed (use r v hash in auto)
  moreover have "contents ?w = contents (iht_view b) @ [e]"
    using view_inv_dead [OF d(2)] by (intro contents_put) simp
  moreover have "iht_do_1 P Hash Eq num b el IHT_INSERT = Some (False, Some (unat (els_bound b)), num + 1,
      b\<lparr>groups := m, els_bound := els_bound b + 1\<rparr>)"
    using r(5) p(1,2) by (simp add: iht_do_1_def Let_def)
  ultimately show "\<exists>b' xs.
      iht_do_1 P Hash Eq num b el IHT_INSERT = Some (False, Some (unat (els_bound b)), num + 1, b') \<and>
      write_el (els b') (unat (els_bound b)) e = Some xs \<and> iht_bin_inv Hash Eq k (b'\<lparr>els := xs\<rparr>) \<and>
      unat (els_bound b') = Suc (unat (els_bound b)) \<and>
      contents (iht_view (b'\<lparr>els := xs\<rparr>)) = contents (iht_view b) @ [e]"
    using p(3-6) room by (intro exI [of _ "b\<lparr>groups := m, els_bound := els_bound b + 1\<rparr>"] exI [of _ xs])
      (simp add: iht_bin_inv_def)
qed

lemma iht_set_el:
  assumes hk: "hash_key Hash Eq" and inv: "iht_bin_inv Hash Eq k b"
    and i: "live (iht_view b) i" "elem (iht_view b) i = Some x" "Eq x e" and xs: "write_el (els b) i e = Some xs"
  shows "iht_bin_inv Hash Eq k (b\<lparr>els := xs\<rparr>) \<and> iht_view (b\<lparr>els := xs\<rparr>) = view_set i e (iht_view b)"
proof -
  note d = iht_bin_invD [OF inv]
  note v = iht_view_sel [OF d(1)]
  have sized: "iht_sized k (b\<lparr>els := xs\<rparr>)" using d(1) length_write_el [OF xs] by (simp add: iht_sized_def)
  have view: "iht_view (b\<lparr>els := xs\<rparr>) = view_set i e (iht_view b)"
    by (rule iht_view_eqI [OF d(1) sized]) (auto simp: v view_simps fun_eq_iff read_write_el [OF xs])
  then show ?thesis using view_set_inv [OF hk d(2) i] sized d(4) by (simp add: iht_bin_inv_def)
qed

end
