(* ===== verification/Ihtab_Table.thy ===== *)
theory Ihtab_Table
  imports Ihtab_Correct
begin

text \<open>
  The whole table of \<open>ihtab.h\<close>: its bin interprets \<open>flat_bin\<close> and its operations \<open>flat_table\<close>, on
  every platform; allocation, the size loop and the independence of the platform.
\<close>

lemmas iht_consts = IHT_GROUP_SIZE_def IHT_GROUP_BYTES_def IHT_EMPTY_H7_def IHT_DELETED_H7_def
  IHT_LF_FACTOR_def IHT_LF_DIVISOR_def

section \<open>Allocation\<close>

lemma iht_new_bin_empty:
  fixes Hash :: "'e \<Rightarrow> u64"
  assumes k: "k \<le> 30"
  shows "\<exists>b. iht_new_bin (8 * 2 ^ k) (4 * 2 ^ k) = Some b \<and> iht_bin_inv Hash Eq k b \<and> els_bound b = 0 \<and>
    contents (iht_view b) = []"
proof -
  note z = table_sizes [OF k]
  let ?T = "TYPE(32)"
  have base: "memset_each iht_base 8 c [0..<2 ^ k] m = memset_each (il_base ?T) 8 c [0..<2 ^ k] m" for c m
    using pow2_le_30 [OF k] by (intro memset_each_cong iht_base_eq) simp
  obtain m where m: "memset_each (il_base ?T) 8 0xc0 [0..<2 ^ k] (replicate (40 * 2 ^ k) None) = Some m"
      "il_wf ?T (2 ^ k) m" "\<forall>g < 2 ^ k. \<forall>s < 8. il_slot ?T m g s = Empty"
    using il_cleared [of "il_base ?T" ?T "replicate (40 * 2 ^ k) None" "2 ^ k"]
    by (auto simp: il_base_def il_width_def)
  let ?b = "\<lparr>els_bound = 0, els = replicate (4 * 2 ^ k) (None :: 'e option),
    deleted = replicate ((4 * 2 ^ k + 7) div 8) 0, groups = m, groups_mask = 2 ^ k - 1\<rparr>"
  have new: "iht_new_bin (8 * 2 ^ k) (4 * 2 ^ k) = Some ?b"
    using m(1) by (simp add: iht_new_bin_def Let_def iht_consts z base)
  have sized: "iht_sized k ?b" using k m(2) by (simp add: iht_sized_def)
  note v = iht_view_sel [OF sized]
  have "view_inv Hash Eq (iht_view ?b) \<and> contents (iht_view ?b) = []"
    using m(3) by (intro conjI view_empty_inv) (simp_all add: v il_slots_def)
  then show ?thesis using new sized by (simp add: iht_bin_inv_def)
qed

section \<open>The table as an instance of the interfaces\<close>

interpretation iht_bin: flat_bin Hash Eq "iht_do_1 P Hash Eq" iht_new_bin els "\<lambda>xs b. b\<lparr>els := xs\<rparr>" deleted els_bound
    groups_mask iht_view "iht_bin_inv Hash Eq" for P Hash Eq
proof (unfold_locales, goal_cases)
  case (1 k b)
  then show ?case using iht_bin_invD [OF 1] by (simp add: iht_view_sel)
next
  case (2 k b)
  then show ?case using iht_bin_invD [OF 2] by (simp add: iht_sized_def)
next
  case (3 k)
  then show ?case by (rule iht_new_bin_empty)
next
  case (4 k b y el num)
  then show ?case by (rule iht_do_1_present)
next
  case (5 k b el a num)
  then show ?case by (rule iht_do_1_absent(1))
next
  case (6 k b el num)
  then show ?case
    using iht_do_1_absent(2) [OF 6(1-3), of el P num] hash_key.eq_refl [OF 6(1)] by auto
next
  case (7 k b i x e xs)
  then show ?case by (rule iht_set_el)
qed

interpretation iht_flat: flat_table Hash Eq "iht_do_1 P Hash Eq" iht_new_bin els "\<lambda>xs b. b\<lparr>els := xs\<rparr>" deleted els_bound
    groups_mask iht_view "iht_bin_inv Hash Eq" "iht_reinsert P Hash Eq" "iht_rebuild P Hash Eq"
    "\<lambda>a t e. iht_perform P Hash Eq t e a" iht_store iht_load iht_iter_advance for P Hash Eq
proof (unfold_locales, goal_cases)
  case (2 old i "is" num rb)
  show ?case
    by (simp add: iht_bin.add_el_def split: Option.bind_split prod.split)
next
  case (3 t)
  show ?case by (simp add: iht_rebuild_def iht_rebuild_size_def iht_consts Let_def)
next
  case (4 a t e)
  show ?case by (simp add: iht_perform_def iht_consts Let_def)
next
  case (7 t it)
  show ?case by (rule iht_iter_advance.simps)
qed (simp_all add: iht_store_def iht_load_def)

abbreviation iht_abs :: "'e iht \<Rightarrow> 'e list" where
  "iht_abs \<equiv> flat_abs iht_view"

abbreviation iht_inv :: "('e \<Rightarrow> u64) \<Rightarrow> ('e \<Rightarrow> 'e \<Rightarrow> bool) \<Rightarrow> nat \<Rightarrow> 'e iht \<Rightarrow> bool" where
  "iht_inv Hash Eq \<equiv> flat_inv (iht_bin_inv Hash Eq) iht_view"

lemmas iht_invD = iht_flat.tab_invD

lemma iht_step_eq: "iht_step P Hash Eq = client_step (\<lambda>t e. iht_perform P Hash Eq t e IHT_FIND)
     (\<lambda>t e. iht_perform P Hash Eq t e IHT_DELETE) (\<lambda>t e. iht_perform P Hash Eq t e IHT_INSERT) iht_store iht_load"
  by (simp add: iht_step_def)

lemma iht_run_refines:
  assumes "hash_key Hash Eq" "iht_inv Hash Eq k t" "length (iht_abs t) + length cs \<le> 2 ^ 31"
  shows "\<exists>t' k'. run_cmds (iht_step P Hash Eq) t cs = Some (fst (spec_run Eq (iht_abs t) cs), t') \<and>
    iht_inv Hash Eq k' t' \<and> iht_abs t' = snd (spec_run Eq (iht_abs t) cs)"
  using iht_flat.dict.run_refines [of Hash Eq t cs P] assms unfolding iht_step_eq by blast

lemma iht_iterate_correct: "iht_inv Hash Eq k t \<Longrightarrow> iht_iterate t = Some (iht_abs t)"
  using iht_flat.iterate_correct [of Hash Eq k t]
  by (simp add: iht_iterate_def iht_iter_begin_def iht_iter_valid_def [abs_def] iht_iter_next_def [abs_def])

section \<open>Creation\<close>

lemma iht_create_correct:
  assumes "unat min_size \<le> 2 ^ 32"
  shows "\<exists>t k. iht_create min_size = Some t \<and> iht_inv Hash Eq k t \<and> iht_abs t = [] \<and>
    unat min_size \<le> 4 * 2 ^ k \<and> (k = 0 \<or> 4 * 2 ^ (k - 1) < unat min_size)"
proof -
  obtain k where k: "k \<le> 30" "unat min_size \<le> 4 * 2 ^ k" "k = 0 \<or> 4 * 2 ^ (k - 1) < unat min_size"
    using table_power [OF assms] by blast
  have "iht_create_size min_size (8 * 2 ^ 0) = Some (8 * 2 ^ k)"
    by (rule size_loop_runs [where min_size = min_size]) (use k in \<open>auto simp: iht_create_size.simps iht_consts\<close>)
  moreover obtain b where b: "iht_new_bin (8 * 2 ^ k) (4 * 2 ^ k) = Some b" "iht_bin_inv Hash Eq k b"
      "els_bound b = 0" "contents (iht_view b) = []"
    using iht_new_bin_empty [OF k(1)] by blast
  ultimately have "iht_create min_size = Some \<lparr>els_num = 0, bin = b\<rparr>"
    using table_sizes(3) [OF k(1)] by (simp add: iht_create_def iht_consts Let_def)
  then show ?thesis using k iht_flat.new_table [OF b(2-4)] by blast
qed

text \<open>A size loop that wraps around never ends.\<close>

lemma iht_create_size_result:
  assumes "iht_create_size min_size s = Some y"
  shows "\<not> y div 2 < min_size \<and> (\<exists>j. y = s * 2 ^ j)"
proof (rule iht_create_size.raw_induct [OF _ assms])
  fix loop :: "u64 \<Rightarrow> u64 \<Rightarrow> u64 option" and min_size s y
  assume IH: "\<And>min_size s y. loop min_size s = Some y \<Longrightarrow> \<not> y div 2 < min_size \<and> (\<exists>j. y = s * 2 ^ j)"
    and body: "(if s * IHT_LF_FACTOR div IHT_LF_DIVISOR < min_size then loop min_size (s * 2) else Some s) = Some y"
  show "\<not> y div 2 < min_size \<and> (\<exists>j. y = s * 2 ^ j)"
  proof (cases "s div 2 < min_size")
    case True
    then have "loop min_size (s * 2) = Some y" using body by (simp add: iht_consts)
    from IH [OF this] obtain j where j: "\<not> y div 2 < min_size" "y = s * 2 * 2 ^ j" by blast
    then have "y = s * 2 ^ Suc j" by (simp add: mult.assoc)
    then show ?thesis using j(1) by blast
  next
    case False
    then have "y = s * 2 ^ 0" "\<not> y div 2 < min_size" using body by (simp_all add: iht_consts)
    then show ?thesis by blast
  qed
qed

lemma iht_create_size_diverges:
  assumes "2 ^ 62 < unat min_size"
  shows "iht_create_size min_size IHT_GROUP_SIZE = None"
proof (rule ccontr)
  assume "iht_create_size min_size IHT_GROUP_SIZE \<noteq> None"
  then obtain y j where "\<not> y div 2 < min_size" "y = (8 :: u64) * 2 ^ j"
    using iht_create_size_result by (force simp: iht_consts)
  then show False using assms by (rule size_loop_wraps)
qed

lemma iht_size_eq:
  assumes "iht_inv Hash Eq k t"
  shows "unat (iht_size t) = 4 * 2 ^ k"
proof -
  note d = iht_invD [OF assms]
  have "iht_size t = 4 * 2 ^ k"
    using table_sizes(3) [OF d(5)] by (simp add: iht_size_def d(6) iht_consts mult.commute)
  then show ?thesis using table_sizes(2) [OF d(5)] by simp
qed

section \<open>Platform independence\<close>

lemma iht_do_1_platform:
  assumes "hash_key Hash Eq" "iht_bin_inv Hash Eq k b"
  shows "iht_do_1 P Hash Eq num b e a = iht_do_1 P' Hash Eq num b e a"
  using iht_probe_platform [OF assms(1) iht_bin_invD(1-3) [OF assms(2)], of P e P']
  by (simp add: iht_do_1_def Let_def)

lemma iht_rebuild_platform:
  assumes hk: "hash_key Hash Eq" and inv: "iht_inv Hash Eq k t" and small: "length (iht_abs t) < 2 ^ 31"
  shows "iht_rebuild P Hash Eq t = iht_rebuild P' Hash Eq t"
proof -
  define k' where "k' = (if 2 * 2 ^ k \<le> length (iht_abs t) then Suc k else k)"
  note grow = iht_flat.rebuild_grows [OF inv small k'_def]
  obtain rb where rb: "iht_new_bin (8 * 2 ^ k') (4 * 2 ^ k') = Some rb" "iht_bin_inv Hash Eq k' rb"
      "els_bound rb = 0" "contents (iht_view rb) = []"
    using iht_new_bin_empty [OF grow(1)] by blast
  have "add_all (iht_bin.add_el P Hash Eq) (iht_abs t) (els_num t) rb =
      add_all (iht_bin.add_el P' Hash Eq) (iht_abs t) (els_num t) rb"
  proof (rule iht_bin.adds.add_all_agree [of Hash Eq k' P])
    show "iht_bin.add_el P Hash Eq num b e = iht_bin.add_el P' Hash Eq num b e"
      if "hash_key Hash Eq \<and> iht_bin_inv Hash Eq k' b" for b e num
      using iht_do_1_platform [of Hash Eq k' b P num e IHT_INSERT P'] that by (simp add: iht_bin.add_el_def)
    show "keys_distinct Eq (contents (iht_view rb) @ iht_abs t)"
      using iht_flat.tab_abs_distinct [OF inv] rb(4) by simp
    show "unat (els_bound rb) + length (iht_abs t) \<le> 4 * 2 ^ k' - 1" using rb(3) grow(2) by simp
  qed (use hk rb in auto)
  then show ?thesis
    using iht_flat.rebuild_eq [OF inv small k'_def, of P] iht_flat.rebuild_eq [OF inv small k'_def, of P'] rb(1)
    by simp
qed

lemma iht_perform_platform:
  assumes hk: "hash_key Hash Eq" and inv: "iht_inv Hash Eq k t" and small: "length (iht_abs t) < 2 ^ 31"
  shows "iht_perform P Hash Eq t e a = iht_perform P' Hash Eq t e a"
proof -
  have do1: "iht_do_1 P Hash Eq num (bin t) e a = iht_do_1 P' Hash Eq num (bin t) e a" for num
    by (rule iht_do_1_platform [OF hk iht_invD(1) [OF inv]])
  obtain t' k' where t': "iht_rebuild P Hash Eq t = Some t'" "iht_inv Hash Eq k' t'"
    using iht_flat.rebuild_correct [OF hk inv small] by blast
  moreover from this have "iht_rebuild P' Hash Eq t = Some t'"
    using iht_rebuild_platform [OF hk inv small, of P' P] by simp
  moreover have "iht_do_1 P Hash Eq num (bin t') e a = iht_do_1 P' Hash Eq num (bin t') e a" for num
    by (rule iht_do_1_platform [OF hk iht_invD(1) [OF t'(2)]])
  ultimately show ?thesis using do1 by (simp add: iht_perform_def Let_def)
qed

end
