(* ===== verification/Test_Client.thy ===== *)
theory Test_Client
  imports Table_Spec Bin_View
begin

text \<open>
  The element type of \<open>tests/test_c.c\<close>, its hash function and its equality, and a sequence of
  commands of those tests: the concrete client the properties of the tables are witnessed with.
\<close>

record entry =
  entry_key :: u32
  entry_value :: u32

definition entry_hash :: "entry \<Rightarrow> u64" where
  "entry_hash e = ucast (entry_key e) * 0x9E3779B97F4A7C15"

definition entry_eq :: "entry \<Rightarrow> entry \<Rightarrow> bool" where
  "entry_eq a b \<longleftrightarrow> entry_key a = entry_key b"

interpretation entry: hash_key entry_hash entry_eq
  by unfold_locales (simp_all add: entry_hash_def entry_eq_def)

abbreviation mk_entry :: "u32 \<Rightarrow> u32 \<Rightarrow> entry" where
  "mk_entry k v \<equiv> \<lparr>entry_key = k, entry_value = v\<rparr>"

definition entry_cmds :: "entry cmd list" where
  "entry_cmds = [Insert (mk_entry 42 100), Insert (mk_entry 7 1), Insert (mk_entry 42 200),
     Find (mk_entry 42 0), Remove (mk_entry 42 0), Find (mk_entry 42 0), Replace (mk_entry 7 2)]"

lemma entry_cmds_spec: "length entry_cmds = 7" "spec_run entry_eq [] entry_cmds =
    ([Flag False, Flag False, Flag True, Got (Some (mk_entry 42 100)), Flag True, Got None, Flag True],
     [mk_entry 7 2])"
  by code_simp+

end
