(* ===== verification/Ihtab_Props.thy ===== *)
theory Ihtab_Props
  imports Ihtab_Table Test_Client
begin

text \<open>
  The properties of the table of \<open>ihtab.h\<close>, witnessed with the elements of \<open>tests/test_c.c\<close>.
\<close>

lemma small_table:
  "\<exists>t k. iht_create 8 = Some t \<and> iht_inv entry_hash entry_eq k t \<and> iht_abs t = []"
  using iht_create_correct [of 8 entry_hash entry_eq] by auto

section \<open>Properties\<close>

text \<open>
  C1. A table created for any size up to \<open>2 ^ 32\<close> answers every sequence of up to \<open>2 ^ 31\<close>
  insert, replace, remove and find commands as the list of elements in insertion order
  does, on every platform; no call runs out of bounds, reads an unset cell or loops.
  Afterwards the iterator visits exactly that list in that order, and the counter is its length.
\<close>

theorem iht_client_run:
  assumes "hash_key Hash Eq" "unat min_size \<le> 2 ^ 32" "length cs \<le> 2 ^ 31"
  shows "\<exists>t t'. iht_create min_size = Some t \<and>
    run_cmds (iht_step P Hash Eq) t cs = Some (fst (spec_run Eq [] cs), t') \<and>
    iht_iterate t' = Some (snd (spec_run Eq [] cs)) \<and>
    unat (iht_els_count t') = length (snd (spec_run Eq [] cs))"
proof -
  obtain t k where t: "iht_create min_size = Some t" "iht_inv Hash Eq k t" "iht_abs t = []"
    using iht_create_correct [OF assms(2)] by blast
  obtain t' k' where "run_cmds (iht_step P Hash Eq) t cs = Some (fst (spec_run Eq [] cs), t')"
      "iht_inv Hash Eq k' t'" "iht_abs t' = snd (spec_run Eq [] cs)"
    using iht_run_refines [OF assms(1) t(2), of cs P] t assms(3) by auto
  then show ?thesis
    using t(1) iht_iterate_correct [of Hash Eq k' t'] iht_invD(3) [of Hash Eq k' t']
    by (auto simp: iht_els_count_def)
qed

theorem iht_client_run_witness:
  "\<exists>t t'. iht_create 8 = Some t \<and>
    run_cmds (iht_step SWAR entry_hash entry_eq) t entry_cmds =
      Some ([Flag False, Flag False, Flag True, Got (Some (mk_entry 42 100)), Flag True, Got None, Flag True], t') \<and>
    iht_iterate t' = Some [mk_entry 7 2] \<and> unat (iht_els_count t') = 1"
  using iht_client_run [OF entry.hash_key_axioms, of 8 entry_cmds SWAR] by (simp add: entry_cmds_spec)

text \<open>
  C3. Each command on a table that satisfies the invariant and holds fewer than \<open>2 ^ 31\<close>
  elements returns what the list specification returns, leaves a table that satisfies the
  invariant with at least as many groups, and changes the stored list as the specification does.
\<close>

theorem iht_step_correct:
  assumes "hash_key Hash Eq" "iht_inv Hash Eq k t" "length (iht_abs t) < 2 ^ 31"
  shows "\<exists>t' k'. iht_step P Hash Eq t c = Some (fst (spec_step Eq (iht_abs t) c), t') \<and>
    iht_inv Hash Eq k' t' \<and> k \<le> k' \<and> iht_abs t' = snd (spec_step Eq (iht_abs t) c)"
  unfolding iht_step_eq by (rule iht_flat.step_refines [OF assms])

theorem iht_step_correct_witness:
  "\<exists>t t' k'. iht_create 8 = Some t \<and>
    iht_step X86_SSE2 entry_hash entry_eq t (Insert (mk_entry 42 100)) = Some (Flag False, t') \<and>
    iht_inv entry_hash entry_eq k' t' \<and> iht_abs t' = [mk_entry 42 100]"
proof -
  obtain t k where t: "iht_create 8 = Some t" "iht_inv entry_hash entry_eq k t" "iht_abs t = []"
    using small_table by blast
  show ?thesis
    using iht_step_correct [OF entry.hash_key_axioms t(2), of X86_SSE2 "Insert (mk_entry 42 100)"] t
    by (auto simp: member_def)
qed

text \<open>
  C5. \<open>iht_rebuild\<close> keeps every stored element and their order, drops the cells of deleted
  ones, doubles the table exactly when at least a quarter of the slots are live, and leaves
  at least two free element cells.
\<close>

theorem iht_rebuild_keeps:
  assumes "hash_key Hash Eq" "iht_inv Hash Eq k t" "length (iht_abs t) < 2 ^ 31"
  shows "\<exists>t' k'. iht_rebuild P Hash Eq t = Some t' \<and> iht_inv Hash Eq k' t' \<and> iht_abs t' = iht_abs t \<and>
    k' = (if 2 * 2 ^ k \<le> length (iht_abs t) then Suc k else k) \<and>
    unat (els_bound (bin t')) = length (iht_abs t) \<and> unat (els_bound (bin t')) < 4 * 2 ^ k' - 1"
  by (rule iht_flat.rebuild_correct [OF assms])

theorem iht_rebuild_keeps_witness:
  "\<exists>t t' k'. iht_create 8 = Some t \<and> iht_rebuild SWAR entry_hash entry_eq t = Some t' \<and>
    iht_inv entry_hash entry_eq k' t' \<and> iht_abs t' = []"
proof -
  obtain t k where t: "iht_create 8 = Some t" "iht_inv entry_hash entry_eq k t" "iht_abs t = []"
    using small_table by blast
  show ?thesis using iht_rebuild_keeps [OF entry.hash_key_axioms t(2), of SWAR] t by auto
qed

text \<open>
  C7. The three group scans are interchangeable: \<open>iht_perform\<close> returns the same flag, the same
  pointer and the same table, byte for byte, whether it is compiled for SSE2, for NEON or
  with the portable fallback, although the fallback's masks may have extra bits.
\<close>

theorem iht_perform_same_on_all_platforms:
  assumes "hash_key Hash Eq" "iht_inv Hash Eq k t" "length (iht_abs t) < 2 ^ 31"
  shows "iht_perform P Hash Eq t e a = iht_perform P' Hash Eq t e a"
  by (rule iht_perform_platform [OF assms])

theorem iht_perform_same_on_all_platforms_witness:
  "\<exists>t. iht_create 8 = Some t \<and>
    iht_perform SWAR entry_hash entry_eq t (mk_entry 42 100) IHT_INSERT =
    iht_perform X86_SSE2 entry_hash entry_eq t (mk_entry 42 100) IHT_INSERT"
proof -
  obtain t k where t: "iht_create 8 = Some t" "iht_inv entry_hash entry_eq k t" "iht_abs t = []"
    using small_table by blast
  show ?thesis
    using iht_perform_same_on_all_platforms [OF entry.hash_key_axioms t(2), of SWAR _ IHT_INSERT X86_SSE2] t by auto
qed

text \<open>
  C11. The probe loop \<open>for (;;)\<close> of \<open>iht_do_1\<close> ends on every bin that satisfies the invariant. It
  ends at the slot of an element equal to the key if the bin stores one, and otherwise at
  the first empty slot of the first group in probe order that has one.
\<close>

theorem iht_probe_ends:
  assumes "hash_key Hash Eq" "iht_bin_inv Hash Eq k b"
  shows "\<exists>r. iht_probe P Eq b (h7_of (Hash el)) el ((Hash el div IHT_GROUP_SIZE) AND groups_mask b) = Some r \<and>
    probe_ok Hash Eq (iht_view b) el r"
  by (rule iht_probe_correct [OF assms(1) iht_bin_invD(1-3) [OF assms(2)]])

theorem iht_probe_ends_witness:
  "\<exists>t r. iht_create 8 = Some t \<and>
    iht_probe SWAR entry_eq (bin t) (h7_of (entry_hash (mk_entry 5 5))) (mk_entry 5 5)
      ((entry_hash (mk_entry 5 5) div IHT_GROUP_SIZE) AND groups_mask (bin t)) = Some r \<and>
    probe_ok entry_hash entry_eq (iht_view (bin t)) (mk_entry 5 5) r"
proof -
  obtain t k where t: "iht_create 8 = Some t" "iht_inv entry_hash entry_eq k t"
    using small_table by blast
  show ?thesis
    using iht_probe_ends [OF entry.hash_key_axioms iht_invD(1) [OF t(2)], of SWAR "mk_entry 5 5"] t(1) by blast
qed

text \<open>
  C12. Deleting reports whether an equal element was stored, removes exactly that element
  without rebuilding, and stores nothing through \<open>res\<close>; a find straight after it fails.
\<close>

theorem iht_delete_then_find:
  assumes "hash_key Hash Eq" "iht_inv Hash Eq k t"
  shows "\<exists>t'. iht_perform P Hash Eq t e IHT_DELETE = Some (member Eq (iht_abs t) e, None, t') \<and>
    iht_inv Hash Eq k t' \<and> iht_abs t' = filter (\<lambda>x. \<not> Eq x e) (iht_abs t) \<and>
    iht_perform P Hash Eq t' e IHT_FIND = Some (False, None, t')"
proof -
  obtain t' where t': "iht_perform P Hash Eq t e IHT_DELETE = Some (member Eq (iht_abs t) e, None, t')"
      "iht_inv Hash Eq k t'" "iht_abs t' = filter (\<lambda>x. \<not> Eq x e) (iht_abs t)"
    using iht_flat.perform_delete [OF assms] by blast
  then have "\<not> member Eq (iht_abs t') e" by (simp add: member_def)
  then show ?thesis using t' iht_flat.perform_find(2) [OF assms(1) t'(2)] by blast
qed

theorem iht_delete_then_find_witness:
  "\<exists>t t'. iht_create 8 = Some t \<and>
    iht_perform SWAR entry_hash entry_eq t (mk_entry 1 1) IHT_DELETE = Some (False, None, t') \<and>
    iht_perform SWAR entry_hash entry_eq t' (mk_entry 1 1) IHT_FIND = Some (False, None, t')"
proof -
  obtain t k where t: "iht_create 8 = Some t" "iht_inv entry_hash entry_eq k t" "iht_abs t = []"
    using small_table by blast
  show ?thesis
    using iht_delete_then_find [OF entry.hash_key_axioms t(2), of SWAR "mk_entry 1 1"] t
    by (auto simp: member_def)
qed



text \<open>
  C14. \<open>iht_create\<close> returns an empty table for every requested size up to \<open>2 ^ 32\<close>, with room for
  at least that many elements and no more groups than that takes.
\<close>

theorem iht_create_sizes:
  assumes "unat min_size \<le> 2 ^ 32"
  shows "\<exists>t k. iht_create min_size = Some t \<and> iht_inv Hash Eq k t \<and> iht_abs t = [] \<and>
    unat (iht_els_count t) = 0 \<and> unat (iht_size t) = 4 * 2 ^ k \<and> unat min_size \<le> unat (iht_size t) \<and>
    (k = 0 \<or> 4 * 2 ^ (k - 1) < unat min_size)"
proof -
  obtain t k where t: "iht_create min_size = Some t" "iht_inv Hash Eq k t" "iht_abs t = []"
      "unat min_size \<le> 4 * 2 ^ k" "k = 0 \<or> 4 * 2 ^ (k - 1) < unat min_size"
    using iht_create_correct [OF assms] by blast
  then show ?thesis using iht_size_eq [OF t(2)] iht_invD(3) [OF t(2)] by (auto simp: iht_els_count_def)
qed

theorem iht_create_sizes_witness:
  "\<exists>t k. iht_create 100 = Some t \<and> iht_inv entry_hash entry_eq k t \<and> 100 \<le> unat (iht_size t)"
  using iht_create_sizes [of 100 entry_hash entry_eq] by auto



text \<open>
  C16. The match mask of a group reports every slot with the wanted tag. With SSE2 and NEON it
  reports no other. With the portable fallback it may also report a slot whose tag differs
  in the lowest bit only, and only above a slot that has the tag.
\<close>

theorem iht_match_mask_slots:
  "(\<forall>s < 8. lane g s = h \<longrightarrow> s \<in> set (iht_hits P g h)) \<and>
   (P \<noteq> SWAR \<longrightarrow> set (iht_hits P g h) = {s. s < 8 \<and> lane g s = h}) \<and>
   (\<forall>s \<in> set (iht_hits P g h). s < 8 \<and>
     (lane g s = h \<or> lane g s = h XOR 1 \<and> (\<exists>s' < s. lane g s' = h)))"
proof (intro conjI)
  let ?c = "g XOR (SWAR_LSB * ucast h)"
  show "\<forall>s < 8. lane g s = h \<longrightarrow> s \<in> set (iht_hits P g h)"
    using iht_scan.hit_complete by blast
  show "P \<noteq> SWAR \<longrightarrow> set (iht_hits P g h) = {s. s < 8 \<and> lane g s = h}"
    by (simp add: set_iht_hits)
  show "\<forall>s \<in> set (iht_hits P g h). s < 8 \<and>
      (lane g s = h \<or> lane g s = h XOR 1 \<and> (\<exists>s' < s. lane g s' = h))"
  proof (cases "P = SWAR")
    case True
    have byte: "lane g s = h XOR c" if "s < 8" "lane ?c s = c" for s c
      using that lane_swar_cmp [of s g h] by (auto simp: ac_simps)
    have "s < 8 \<and> (lane g s = h \<or> lane g s = h XOR 1 \<and> (\<exists>s' < s. lane g s' = h))"
      if s: "s < 8" "swar_hit ?c s" for s
    proof -
      obtain j where j: "j \<le> s" "lane ?c j = 0" using swar_hit_above_zero [OF s] by blast
      then have h: "lane g j = h" using byte [of j 0] s(1) by simp
      show ?thesis
      proof (cases "j = s")
        case False
        then have "\<exists>s' < s. lane g s' = h" using h j(1) by (intro exI [of _ j]) simp
        then show ?thesis using swar_hit_byte [OF s] byte [OF s(1)] s(1) by auto
      qed (use h s in simp)
    qed
    then show ?thesis using True by (simp add: set_iht_hits)
  next
    case False
    then show ?thesis by (simp add: set_iht_hits)
  qed
qed

theorem iht_match_mask_slots_witness:
  "iht_hits X86_SSE2 0x0506 6 = [0] \<and> iht_hits SWAR 0x0706 6 = [0, 1] \<and>
   set (iht_hits AARCH64_NEON 0x0706 6) = {s. s < 8 \<and> lane 0x0706 s = 6}"
proof -
  have "iht_hits X86_SSE2 0x0506 6 = [0]" "iht_hits SWAR 0x0706 6 = [0, 1]" by code_simp+
  moreover have "AARCH64_NEON \<noteq> SWAR" by simp
  ultimately show ?thesis using iht_match_mask_slots [of "0x0706" 6 AARCH64_NEON] by blast
qed



text \<open>
  C18. What was stored is found: after an insert and the store through the pointer it returned, a
  find of any equal key returns a pointer to the stored element, whether the key was present or
  not, and every find of another key is answered as before.
\<close>

theorem iht_store_then_find:
  assumes "hash_key Hash Eq" "iht_inv Hash Eq k t" "length (iht_abs t) < 2 ^ 31"
  shows "\<exists>i t1 t2. iht_perform P Hash Eq t e IHT_INSERT = Some (member Eq (iht_abs t) e, Some i, t1) \<and>
    iht_store t1 (Some i) e = Some t2 \<and>
    (\<forall>q. Eq e q \<longrightarrow> (\<exists>j. iht_perform P Hash Eq t2 q IHT_FIND = Some (True, Some j, t2) \<and>
      iht_load t2 (Some j) = Some e)) \<and>
    (\<forall>q. \<not> Eq e q \<longrightarrow> map_option fst (iht_step P Hash Eq t2 (Find q)) = map_option fst (iht_step P Hash Eq t (Find q)))"
  unfolding iht_step_eq by (rule iht_flat.store_then_find [OF assms])

theorem iht_store_then_find_witness:
  "\<exists>t i t1 t2 j. iht_create 8 = Some t \<and>
    iht_perform SWAR entry_hash entry_eq t (mk_entry 42 100) IHT_INSERT = Some (False, Some i, t1) \<and>
    iht_store t1 (Some i) (mk_entry 42 100) = Some t2 \<and>
    iht_perform SWAR entry_hash entry_eq t2 (mk_entry 42 0) IHT_FIND = Some (True, Some j, t2) \<and>
    iht_load t2 (Some j) = Some (mk_entry 42 100)"
proof -
  obtain t k where t: "iht_create 8 = Some t" "iht_inv entry_hash entry_eq k t" "iht_abs t = []"
    using small_table by blast
  have "entry_eq (mk_entry 42 100) (mk_entry 42 0)" by (simp add: entry_eq_def)
  then show ?thesis
    using iht_store_then_find [OF entry.hash_key_axioms t(2), of SWAR "mk_entry 42 100"] t
    by (fastforce simp: member_def)
qed

end
