(* ===== verification/Cpp_Action.thy ===== *)
theory Cpp_Action
  imports Main
begin

text \<open>
  The actions of the C++ tables, \<open>enum action\<close>, ordered as the enumerators are: the code compares
  them as integers.
\<close>

datatype action = FIND | DELETE | INSERT

primrec action_code :: "action \<Rightarrow> nat" where
  "action_code FIND = 0"
| "action_code DELETE = 1"
| "action_code INSERT = 2"

instantiation action :: linorder
begin

definition less_eq_action :: "action \<Rightarrow> action \<Rightarrow> bool" where
  "less_eq_action a b \<longleftrightarrow> action_code a \<le> action_code b"

definition less_action :: "action \<Rightarrow> action \<Rightarrow> bool" where
  "less_action a b \<longleftrightarrow> action_code a < action_code b"

instance
proof
  show "a = b" if "a \<le> b" "b \<le> a" for a b :: action
    using that by (cases a; cases b) (auto simp: less_eq_action_def)
qed (auto simp: less_eq_action_def less_action_def)

end

end
