(* ===== verification/Forward_Iter.thy ===== *)
theory Forward_Iter
  imports Flat_Table Cpp_Action
begin

text \<open>
  What the two C++ classes \<open>ihtab\<close> share: their actions beside those of the C headers, the state of
  the forward iterator of a table with one bin, and the interface that makes a range-based
  \<open>for\<close> visit the elements.
\<close>

section \<open>Actions\<close>

primrec c_action :: "action \<Rightarrow> iht_action" where
  "c_action FIND = IHT_FIND"
| "c_action DELETE = IHT_DELETE"
| "c_action INSERT = IHT_INSERT"

lemma c_action_ge: "INSERT \<le> a \<longleftrightarrow> IHT_INSERT \<le> c_action a"
  by (cases a) (simp_all add: less_eq_action_def less_eq_iht_action_def)

lemma c_action_delete: "c_action a = IHT_DELETE \<longleftrightarrow> a = DELETE"
  by (cases a) simp_all

section \<open>The forward iterator\<close>

text \<open>
  The table an iterator belongs to, by its address, and an element index. The table at that address
  is the argument \<open>t\<close> of the operations.
\<close>

record ihtab_iterator =
  htab :: nat
  idx :: u64

locale forward_iter = flat_table +
  fixes walk :: "_ bin_table \<Rightarrow> ihtab_iterator \<Rightarrow> ihtab_iterator option"
  assumes walk_unfold: "walk t it =
    (if idx it < bound_of (bin t) then do {
       d \<leftarrow> del_test (del_of (bin t)) (unat (idx it));
       if \<not> d then Some it else walk t (it\<lparr>idx := idx it + 1\<rparr>)
     }
     else Some it)"
begin

text \<open>The iterator stands before the live elements at the indices \<open>is\<close>.\<close>

definition before :: "nat \<Rightarrow> _ bin_table \<Rightarrow> nat list \<Rightarrow> ihtab_iterator \<Rightarrow> bool" where
  "before this t is it \<longleftrightarrow> htab it = this \<and> (case is of
       [] \<Rightarrow> idx it = bound_of (bin t)
     | i # js \<Rightarrow> unat (idx it) = i \<and> i < unat (bound_of (bin t)) \<and> \<not> del_bit (del_of (bin t)) i \<and>
         js = live_from t (Suc i))"

lemma walk_correct:
  assumes inv: "tab_inv k t" and "unat (idx it) \<le> unat (bound_of (bin t))" "htab it = this"
  shows "\<exists>it'. walk t it = Some it' \<and> before this t (live_from t (unat (idx it))) it'"
  using assms(2,3)
proof (induction "unat (bound_of (bin t)) - unat (idx it)" arbitrary: it rule: less_induct)
  case less
  show ?case
  proof (cases "idx it < bound_of (bin t)")
    case True
    then have lt: "unat (idx it) < unat (bound_of (bin t))" by (simp add: word_less_nat_alt)
    have "unat (idx it + 1) = Suc (unat (idx it))" using unat_succ_less [OF True] by simp
    then show ?thesis
      using less.hyps [of "it\<lparr>idx := idx it + 1\<rparr>"] True lt del_test_bound [OF inv lt] less.prems(2)
        live_from_rec [of t "unat (idx it)"]
      by (cases "del_bit (del_of (bin t)) (unat (idx it))") (simp_all add: walk_unfold [of t it] before_def)
  next
    case False
    then have "idx it = bound_of (bin t)" using less.prems by (simp add: word_less_nat_alt word_unat_eq_iff)
    then show ?thesis
      using live_from_rec [of t "unat (idx it)"] less.prems(2) by (simp add: walk_unfold [of t it] before_def)
  qed
qed

text \<open>The loop \<open>for (it = begin (); it != end (); ++it)\<close> collects the elements.\<close>

lemma range_for_correct:
  assumes inv: "tab_inv k t"
  shows "do {
    it \<leftarrow> walk t \<lparr>htab = this, idx = 0\<rparr>;
    client_iterate (\<lambda>it. htab it \<noteq> this \<or> idx it \<noteq> bound_of (bin t)) (\<lambda>it. read_el (els_of (bin t)) (unat (idx it)))
      (\<lambda>it. walk t (it\<lparr>idx := idx it + 1\<rparr>)) it
  } = Some (tab_abs t)"
proof -
  note d = tab_invD [OF inv]
  note v = bin_invD [OF d(1)]
  let ?f = "\<lambda>i. the (elem (view (bin t)) i)"
  obtain it where it: "walk t \<lparr>htab = this, idx = 0\<rparr> = Some it" "before this t (live_from t 0) it"
    using walk_correct [OF inv, of "\<lparr>htab = this, idx = 0\<rparr>" this] by auto
  have "client_iterate (\<lambda>it. htab it \<noteq> this \<or> idx it \<noteq> bound_of (bin t)) (\<lambda>it. read_el (els_of (bin t)) (unat (idx it)))
      (\<lambda>it. walk t (it\<lparr>idx := idx it + 1\<rparr>)) it = Some (map ?f (live_from t 0))"
  proof (rule client_iterate_collects [where at = "before this t", OF it(2)])
    fix i js it
    assume st: "before this t (i # js) it"
    have "live (view (bin t)) i" using st v(3,4) by (simp add: before_def live_def)
    moreover have "unat (idx it + 1) = Suc i" "idx it \<noteq> bound_of (bin t)"
      using st unat_succ_less [of "idx it" "bound_of (bin t)"] by (auto simp: before_def word_less_nat_alt)
    ultimately show "(htab it \<noteq> this \<or> idx it \<noteq> bound_of (bin t)) \<and>
        read_el (els_of (bin t)) (unat (idx it)) = Some (?f i) \<and>
        (\<exists>it'. walk t (it\<lparr>idx := idx it + 1\<rparr>) = Some it' \<and> before this t js it')"
      using st live_read [OF d(1)] walk_correct [OF inv, of "it\<lparr>idx := idx it + 1\<rparr>" this]
      by (auto simp: before_def)
  qed (simp add: before_def)
  moreover have "map ?f (live_from t 0) = tab_abs t"
    using v(3,4) by (simp add: live_from_def flat_abs_def contents_def)
  ultimately show ?thesis using it(1) by simp
qed

end

end
