(* ===== verification/Ihtab_hpp.thy ===== *)
theory Ihtab_hpp
  imports Ihtab_Table Forward_Iter
begin

text \<open>
  The C++ table of \<open>ihtab.hpp\<close>, the class \<open>ihtab\<close> of the namespace \<open>iht\<close>. Its template
  parameters are the type \<open>'e\<close> and the arguments \<open>Hash\<close> and \<open>Eq\<close>. The class and its bins have the
  fields of the structures of \<open>ihtab.h\<close>, so the records of that model are used for them. The
  theory then shows that every method computes what the C function of the same purpose does, which
  carries the correctness of the C table over, and that a range-based \<open>for\<close> visits the elements.
\<close>

section \<open>Constants, actions and group scans\<close>

definition ihtab_GROUP_SIZE :: u64 where "ihtab_GROUP_SIZE = 8"

definition ihtab_GROUP_BYTES :: u64 where "ihtab_GROUP_BYTES = ihtab_GROUP_SIZE * (1 + 4)"

definition ihtab_EMPTY_H7 :: u8 where "ihtab_EMPTY_H7 = 0xc0"

definition ihtab_DELETED_H7 :: u8 where "ihtab_DELETED_H7 = 0x80"

definition ihtab_LF_FACTOR :: u64 where "ihtab_LF_FACTOR = 1"

definition ihtab_LF_DIVISOR :: u64 where "ihtab_LF_DIVISOR = 2"

definition ihtab_mask_scale :: "platform \<Rightarrow> bool" where
  "ihtab_mask_scale P \<longleftrightarrow> P = SWAR"

definition ihtab_group_load :: "platform \<Rightarrow> cells \<Rightarrow> nat \<Rightarrow> group_t option" where
  "ihtab_group_load P m p = map_option (\<lambda>g.
     case P of
       X86_SSE2 \<Rightarrow> SSE2_group (mm_cvtsi64_si128 g)
     | AARCH64_NEON \<Rightarrow> NEON_group g
     | SWAR \<Rightarrow> SWAR_group g) (load_word m p)"

fun ihtab_match_mask :: "group_t \<Rightarrow> u8 \<Rightarrow> u64" where
  "ihtab_match_mask (SSE2_group g) h7_val =
     (let h7_vec = mm_set1_epi8 h7_val
      in ucast (mm_movemask_epi8 (mm_cmpeq_epi8 g h7_vec)) AND 0xff)"
| "ihtab_match_mask (NEON_group g) h7_val =
     (let group = vcreate_u8 g;
          match_eq = vceq_u8 group (vdup_n_u8 h7_val)
      in ucast (vaddv_u8 (vand_u8 match_eq [1, 2, 4, 8, 16, 32, 64, 128])))"
| "ihtab_match_mask (SWAR_group g) h7_val =
     (let cmp = g XOR (SWAR_LSB * ucast h7_val)
      in (cmp - SWAR_LSB) AND NOT cmp AND SWAR_MSB)"

fun ihtab_match_empty :: "group_t \<Rightarrow> u64" where
  "ihtab_match_empty (SSE2_group g) =
     ucast (mm_movemask_epi8 (mm_and_si128 g (mm_slli_epi64 g 1))) AND 0xff"
| "ihtab_match_empty (NEON_group g) = ihtab_match_mask (NEON_group g) ihtab_EMPTY_H7"
| "ihtab_match_empty (SWAR_group g) = (g AND SWAR_MSB) AND push_bit 1 g"

section \<open>State\<close>

type_synonym 'e hbin_t = "'e hbin_iht"

type_synonym 'e ihtab = "'e iht"

type_synonym ihtab_iter = iht_iter

definition ihtab_destroy_bin :: "'e hbin_t \<Rightarrow> 'e hbin_t" where
  "ihtab_destroy_bin b = b\<lparr>els := [], deleted := [], groups := []\<rparr>"

definition ihtab_destructor :: "'e ihtab \<Rightarrow> 'e ihtab" where
  "ihtab_destructor t = t\<lparr>bin := (bin t)\<lparr>els := [], deleted := [], groups := []\<rparr>\<rparr>"

section \<open>Find, insert and delete in one bin\<close>

definition ihtab_base :: "nat \<Rightarrow> nat" where
  "ihtab_base group_ind = unat (of_nat group_ind * ihtab_GROUP_BYTES)"

text \<open>
  The inner \<open>while (mmask)\<close> loop: the first slot of the mask whose element is equal to
  \<open>*el\<close>, with its element index.
\<close>

function ihtab_scan :: "platform \<Rightarrow> ('e \<Rightarrow> 'e \<Rightarrow> bool) \<Rightarrow> 'e hbin_t \<Rightarrow> nat \<Rightarrow> 'e \<Rightarrow> u64 \<Rightarrow>
    (nat \<times> u32) option option" where
  "ihtab_scan P Eq b group_base el mmask =
     (if mmask = 0 then Some None
      else do {
        let slot_bit = first_slot (ihtab_mask_scale P) mmask;
        el_ind \<leftarrow> load_word (groups b) (group_base + 8 + 4 * slot_bit);
        e \<leftarrow> read_el (els b) (unat el_ind);
        if Eq e el then Some (Some (slot_bit, el_ind))
        else ihtab_scan P Eq b group_base el (mmask AND (mmask - 1))
      })"
  by pat_completeness auto
termination
  by (relation "measure (\<lambda>(P, Eq, b, group_base, el, mmask). unat mmask)") (auto intro: and_pred_less)

declare ihtab_scan.simps [simp del]

text \<open>One round of the outer \<open>for (;;)\<close> loop, up to its returns or the next \<open>group_ind\<close>.\<close>

definition ihtab_probe_step :: "platform \<Rightarrow> ('e \<Rightarrow> 'e \<Rightarrow> bool) \<Rightarrow> 'e hbin_t \<Rightarrow> u8 \<Rightarrow> 'e \<Rightarrow> u64 \<Rightarrow>
    (u64 + outcome) option" where
  "ihtab_probe_step P Eq b h7_val el group_ind =
     do {
       let group_base = ihtab_base (unat group_ind);
       group \<leftarrow> ihtab_group_load P (groups b) group_base;
       found \<leftarrow> ihtab_scan P Eq b group_base el (ihtab_match_mask group h7_val);
       case found of
         Some (slot_bit, el_ind) \<Rightarrow> Some (Inr (Matched (unat group_ind) slot_bit (unat el_ind)))
       | None \<Rightarrow>
           (let emask = ihtab_match_empty group
            in if emask \<noteq> 0
               then Some (Inr (Vacant (unat group_ind) (first_slot (ihtab_mask_scale P) emask)))
               else Some (Inl ((group_ind + 1) AND groups_mask b)))
     }"

partial_function (option) ihtab_probe :: "platform \<Rightarrow> ('e \<Rightarrow> 'e \<Rightarrow> bool) \<Rightarrow> 'e hbin_t \<Rightarrow> u8 \<Rightarrow> 'e \<Rightarrow>
    u64 \<Rightarrow> outcome option" where
  "ihtab_probe P Eq b h7_val el group_ind =
     (case ihtab_probe_step P Eq b h7_val el group_ind of
        None \<Rightarrow> None
      | Some (Inl group_ind') \<Rightarrow> ihtab_probe P Eq b h7_val el group_ind'
      | Some (Inr r) \<Rightarrow> Some r)"

definition ihtab_do_1 :: "platform \<Rightarrow> ('e \<Rightarrow> u64) \<Rightarrow> ('e \<Rightarrow> 'e \<Rightarrow> bool) \<Rightarrow> u64 \<Rightarrow> 'e hbin_t \<Rightarrow> 'e \<Rightarrow>
    action \<Rightarrow> (bool \<times> nat option \<times> u64 \<times> 'e hbin_t) option" where
  "ihtab_do_1 P Hash Eq num b el action =
     do {
       let hash = Hash el;
       let h7_val = h7_of hash;
       r \<leftarrow> ihtab_probe P Eq b h7_val el ((hash div ihtab_GROUP_SIZE) AND groups_mask b);
       case r of
         Matched group_ind slot_bit el_ind \<Rightarrow>
           if action \<noteq> DELETE then Some (True, Some el_ind, num, b)
           else do {
             d \<leftarrow> del_set (deleted b) el_ind;
             gs \<leftarrow> store_bytes (groups b) (ihtab_base group_ind + slot_bit) [ihtab_DELETED_H7];
             Some (True, None, num - 1, b\<lparr>deleted := d, groups := gs\<rparr>)
           }
       | Vacant group_ind slot_bit \<Rightarrow>
           if action \<ge> INSERT then do {
             gs \<leftarrow> store_bytes (groups b) (ihtab_base group_ind + slot_bit) [h7_val];
             gs \<leftarrow> store_word gs (ihtab_base group_ind + 8 + 4 * slot_bit) (ucast (els_bound b) :: u32);
             Some (False, Some (unat (els_bound b)), num + 1,
               b\<lparr>groups := gs, els_bound := els_bound b + 1\<rparr>)
           }
           else Some (False, None, num, b)
     }"

section \<open>Construction and rebuilding\<close>

definition ihtab_new_bin :: "u64 \<Rightarrow> u64 \<Rightarrow> 'e hbin_t option" where
  "ihtab_new_bin indexes_size els_size =
     do {
       let del_bytes = (els_size + 7) div 8;
       let num_groups = indexes_size div ihtab_GROUP_SIZE;
       gs \<leftarrow> memset_each ihtab_base 8 ihtab_EMPTY_H7 [0..<unat num_groups]
         (replicate (unat (num_groups * ihtab_GROUP_BYTES)) None);
       Some \<lparr>els_bound = 0, els = replicate (unat els_size) None,
         deleted = replicate (unat del_bytes) 0, groups = gs, groups_mask = num_groups - 1\<rparr>
     }"

text \<open>The copying loop of \<open>ihtab_rebuild\<close>.\<close>

primrec ihtab_reinsert :: "platform \<Rightarrow> ('e \<Rightarrow> u64) \<Rightarrow> ('e \<Rightarrow> 'e \<Rightarrow> bool) \<Rightarrow> 'e hbin_t \<Rightarrow> nat list \<Rightarrow>
    u64 \<Rightarrow> 'e hbin_t \<Rightarrow> (u64 \<times> 'e hbin_t) option" where
  "ihtab_reinsert P Hash Eq old [] num rb = Some (num, rb)"
| "ihtab_reinsert P Hash Eq old (i # is) num rb =
     do {
       d \<leftarrow> del_test (deleted old) i;
       if d then ihtab_reinsert P Hash Eq old is num rb
       else do {
         e \<leftarrow> read_el (els old) i;
         (found, res, num, rb) \<leftarrow> ihtab_do_1 P Hash Eq num rb e INSERT;
         r \<leftarrow> res;
         xs \<leftarrow> write_el (els rb) r e;
         ihtab_reinsert P Hash Eq old is num (rb\<lparr>els := xs\<rparr>)
       }
     }"

definition ihtab_rebuild_size :: "'e ihtab \<Rightarrow> u64" where
  "ihtab_rebuild_size t =
     (let indexes_size = (groups_mask (bin t) + 1) * ihtab_GROUP_SIZE
      in if 2 * ihtab_LF_DIVISOR * els_num t \<ge> ihtab_LF_FACTOR * indexes_size
         then indexes_size * 2 else indexes_size)"

definition ihtab_rebuild :: "platform \<Rightarrow> ('e \<Rightarrow> u64) \<Rightarrow> ('e \<Rightarrow> 'e \<Rightarrow> bool) \<Rightarrow> 'e ihtab \<Rightarrow> 'e ihtab option" where
  "ihtab_rebuild P Hash Eq t =
     do {
       let indexes_size = ihtab_rebuild_size t;
       let els_size = indexes_size * ihtab_LF_FACTOR div ihtab_LF_DIVISOR;
       rb \<leftarrow> ihtab_new_bin indexes_size els_size;
       let saved = els_num t;
       (num, rb) \<leftarrow> ihtab_reinsert P Hash Eq (bin t) [0..<unat (els_bound (bin t))] (els_num t) rb;
       Some \<lparr>els_num = saved, bin = rb\<rparr>
     }"

partial_function (option) ihtab_create_size :: "u64 \<Rightarrow> u64 \<Rightarrow> u64 option" where
  "ihtab_create_size min_size indexes_size =
     (if indexes_size * ihtab_LF_FACTOR div ihtab_LF_DIVISOR < min_size
      then ihtab_create_size min_size (indexes_size * 2) else Some indexes_size)"

definition ihtab_create :: "u64 \<Rightarrow> 'e ihtab option" where
  "ihtab_create min_size =
     do {
       indexes_size \<leftarrow> ihtab_create_size min_size ihtab_GROUP_SIZE;
       let els_size = indexes_size * ihtab_LF_FACTOR div ihtab_LF_DIVISOR;
       b \<leftarrow> ihtab_new_bin indexes_size els_size;
       Some \<lparr>els_num = 0, bin = b\<rparr>
     }"

section \<open>The interface\<close>

definition ihtab_perform :: "platform \<Rightarrow> ('e \<Rightarrow> u64) \<Rightarrow> ('e \<Rightarrow> 'e \<Rightarrow> bool) \<Rightarrow> 'e ihtab \<Rightarrow> 'e \<Rightarrow> action \<Rightarrow>
    (bool \<times> nat option \<times> 'e ihtab) option" where
  "ihtab_perform P Hash Eq t el action =
     do {
       t \<leftarrow> (if action \<ge> INSERT
             then (let indexes_size = (groups_mask (bin t) + 1) * ihtab_GROUP_SIZE;
                       els_size = indexes_size * ihtab_LF_FACTOR div ihtab_LF_DIVISOR - 1
                   in if els_bound (bin t) \<ge> els_size then ihtab_rebuild P Hash Eq t else Some t)
             else Some t);
       (found, res, num, b) \<leftarrow> ihtab_do_1 P Hash Eq (els_num t) (bin t) el action;
       Some (found, res, \<lparr>els_num = num, bin = b\<rparr>)
     }"

definition ihtab_els_count :: "'e ihtab \<Rightarrow> u64" where
  "ihtab_els_count t = els_num t"

definition ihtab_size :: "'e ihtab \<Rightarrow> u64" where
  "ihtab_size t = (groups_mask (bin t) + 1) * ihtab_GROUP_SIZE * ihtab_LF_FACTOR div ihtab_LF_DIVISOR"

function ihtab_iter_advance :: "'e ihtab \<Rightarrow> ihtab_iter \<Rightarrow> ihtab_iter option" where
  "ihtab_iter_advance t it =
     (if el_idx it < els_bound (bin t) then do {
        d \<leftarrow> del_test (deleted (bin t)) (unat (el_idx it));
        if \<not> d then Some (it\<lparr>ptr := Some (unat (el_idx it))\<rparr>)
        else ihtab_iter_advance t (it\<lparr>el_idx := el_idx it + 1\<rparr>)
      }
      else Some (it\<lparr>ptr := None\<rparr>))"
  by pat_completeness auto
termination
proof (relation "measure (\<lambda>(t, it). unat (els_bound (bin t)) - unat (el_idx it))")
  fix t :: "'e ihtab" and it :: ihtab_iter and d
  assume less: "el_idx it < els_bound (bin t)"
  have "unat (el_idx it + 1) = unat (el_idx it) + 1"
    using less by (rule unat_succ_less)
  with less show "((t, it\<lparr>el_idx := el_idx it + 1\<rparr>), t, it)
      \<in> measure (\<lambda>(t, it). unat (els_bound (bin t)) - unat (el_idx it))"
    by (simp add: word_less_nat_alt)
qed simp

declare ihtab_iter_advance.simps [simp del]

definition ihtab_iter_begin :: "'e ihtab \<Rightarrow> ihtab_iter option" where
  "ihtab_iter_begin t = ihtab_iter_advance t \<lparr>el_idx = 0, ptr = None\<rparr>"

definition ihtab_iter_valid :: "ihtab_iter \<Rightarrow> bool" where
  "ihtab_iter_valid it \<longleftrightarrow> ptr it \<noteq> None"

definition ihtab_iter_next :: "'e ihtab \<Rightarrow> ihtab_iter \<Rightarrow> ihtab_iter option" where
  "ihtab_iter_next t it = ihtab_iter_advance t (it\<lparr>el_idx := el_idx it + 1\<rparr>)"

text \<open>The forward iterator.\<close>

function ihtab_advance :: "'e ihtab \<Rightarrow> ihtab_iterator \<Rightarrow> ihtab_iterator option" where
  "ihtab_advance t it =
     (if idx it < els_bound (bin t) then do {
        d \<leftarrow> del_test (deleted (bin t)) (unat (idx it));
        if \<not> d then Some it else ihtab_advance t (it\<lparr>idx := idx it + 1\<rparr>)
      }
      else Some it)"
  by pat_completeness auto
termination
proof (relation "measure (\<lambda>(t, it). unat (els_bound (bin t)) - unat (idx it))")
  fix t :: "'e ihtab" and it :: ihtab_iterator and d
  assume less: "idx it < els_bound (bin t)"
  have "unat (idx it + 1) = unat (idx it) + 1" using less by (rule unat_succ_less)
  with less show "((t, it\<lparr>idx := idx it + 1\<rparr>), t, it) \<in> measure (\<lambda>(t, it). unat (els_bound (bin t)) - unat (idx it))"
    by (simp add: word_less_nat_alt)
qed simp

declare ihtab_advance.simps [simp del]

text \<open>The operators \<open>*\<close> and \<open>->\<close>, \<open>++it\<close>, \<open>it++\<close> (the old and the new iterator), \<open>==\<close> and \<open>!=\<close>.\<close>

definition ihtab_deref :: "'e ihtab \<Rightarrow> ihtab_iterator \<Rightarrow> 'e option" where
  "ihtab_deref t it = read_el (els (bin t)) (unat (idx it))"

definition ihtab_incr :: "'e ihtab \<Rightarrow> ihtab_iterator \<Rightarrow> ihtab_iterator option" where
  "ihtab_incr t it = ihtab_advance t (it\<lparr>idx := idx it + 1\<rparr>)"

definition ihtab_post_incr :: "'e ihtab \<Rightarrow> ihtab_iterator \<Rightarrow> (ihtab_iterator \<times> ihtab_iterator) option" where
  "ihtab_post_incr t it = do { it' \<leftarrow> ihtab_incr t it; Some (it, it') }"

definition ihtab_iter_eq :: "ihtab_iterator \<Rightarrow> ihtab_iterator \<Rightarrow> bool" where
  "ihtab_iter_eq it o' \<longleftrightarrow> htab it = htab o' \<and> idx it = idx o'"

definition ihtab_iter_neq :: "ihtab_iterator \<Rightarrow> ihtab_iterator \<Rightarrow> bool" where
  "ihtab_iter_neq it o' \<longleftrightarrow> htab it \<noteq> htab o' \<or> idx it \<noteq> idx o'"

definition ihtab_begin :: "nat \<Rightarrow> 'e ihtab \<Rightarrow> ihtab_iterator option" where
  "ihtab_begin this t = ihtab_advance t \<lparr>htab = this, idx = 0\<rparr>"

definition ihtab_end :: "nat \<Rightarrow> 'e ihtab \<Rightarrow> ihtab_iterator" where
  "ihtab_end this t = \<lparr>htab = this, idx = els_bound (bin t)\<rparr>"

section \<open>Client code\<close>

text \<open>The calls of \<open>tests/test.cpp\<close>, and the range-based \<open>for (auto &e : t)\<close>.\<close>

definition ihtab_store :: "'e ihtab \<Rightarrow> nat option \<Rightarrow> 'e \<Rightarrow> 'e ihtab option" where
  "ihtab_store t res e =
     do {
       r \<leftarrow> res;
       xs \<leftarrow> write_el (els (bin t)) r e;
       Some (t\<lparr>bin := (bin t)\<lparr>els := xs\<rparr>\<rparr>)
     }"

definition ihtab_load :: "'e ihtab \<Rightarrow> nat option \<Rightarrow> 'e option" where
  "ihtab_load t res = do { r \<leftarrow> res; read_el (els (bin t)) r }"

definition ihtab_step :: "platform \<Rightarrow> ('e \<Rightarrow> u64) \<Rightarrow> ('e \<Rightarrow> 'e \<Rightarrow> bool) \<Rightarrow> 'e ihtab \<Rightarrow> 'e cmd \<Rightarrow>
    ('e reply \<times> 'e ihtab) option" where
  "ihtab_step P Hash Eq = client_step (\<lambda>t e. ihtab_perform P Hash Eq t e FIND)
     (\<lambda>t e. ihtab_perform P Hash Eq t e DELETE) (\<lambda>t e. ihtab_perform P Hash Eq t e INSERT) ihtab_store ihtab_load"

definition ihtab_iterate :: "'e ihtab \<Rightarrow> 'e list option" where
  "ihtab_iterate t =
     do {
       it \<leftarrow> ihtab_iter_begin t;
       client_iterate ihtab_iter_valid (\<lambda>it. ihtab_load t (ptr it)) (ihtab_iter_next t) it
     }"

definition ihtab_range_for :: "nat \<Rightarrow> 'e ihtab \<Rightarrow> 'e list option" where
  "ihtab_range_for this t =
     do {
       it \<leftarrow> ihtab_begin this t;
       client_iterate (\<lambda>it. ihtab_iter_neq it (ihtab_end this t)) (ihtab_deref t) (ihtab_incr t) it
     }"

section \<open>The methods compute what the C functions compute\<close>

lemma ihtab_consts: "ihtab_GROUP_SIZE = IHT_GROUP_SIZE" "ihtab_GROUP_BYTES = IHT_GROUP_BYTES"
  "ihtab_EMPTY_H7 = IHT_EMPTY_H7" "ihtab_DELETED_H7 = IHT_DELETED_H7" "ihtab_LF_FACTOR = IHT_LF_FACTOR"
  "ihtab_LF_DIVISOR = IHT_LF_DIVISOR"
  by (simp_all add: ihtab_GROUP_SIZE_def ihtab_GROUP_BYTES_def ihtab_EMPTY_H7_def ihtab_DELETED_H7_def
      ihtab_LF_FACTOR_def ihtab_LF_DIVISOR_def iht_consts)

lemma ihtab_mask_scale_eq: "ihtab_mask_scale = IHT_MASK_SCALE"
  by (simp add: fun_eq_iff ihtab_mask_scale_def IHT_MASK_SCALE_def)

lemma ihtab_group_load_eq: "ihtab_group_load = iht_group_load"
  by (simp add: fun_eq_iff ihtab_group_load_def iht_group_load_def)

lemma ihtab_match_mask_eq: "ihtab_match_mask g h = iht_match_mask g h"
  by (cases g) (simp_all add: Let_def)

lemma ihtab_match_empty_eq: "ihtab_match_empty g = iht_match_empty g"
  by (cases g) (simp_all add: ihtab_match_mask_eq ihtab_consts)

lemma ihtab_base_eq: "ihtab_base = iht_base"
  by (simp add: fun_eq_iff ihtab_base_def iht_base_def ihtab_consts)

lemma ihtab_scan_eq: "ihtab_scan P Eq b gb el m = iht_scan P Eq b gb el m"
proof (induction P Eq b gb el m rule: iht_scan.induct)
  case (1 P Eq b gb el m)
  then show ?case
    unfolding ihtab_scan.simps [of P Eq b gb el m] iht_scan.simps [of P Eq b gb el m] ihtab_mask_scale_eq
    by (auto split: Option.bind_split intro!: Option.bind_cong simp: Let_def)
qed

lemmas ihtab_scan_simps = ihtab_consts ihtab_mask_scale_eq ihtab_group_load_eq ihtab_match_mask_eq ihtab_match_empty_eq
  ihtab_base_eq ihtab_scan_eq

lemma ihtab_probe_step_eq: "ihtab_probe_step = iht_probe_step"
  unfolding fun_eq_iff ihtab_probe_step_def iht_probe_step_def ihtab_scan_simps by simp

lemma ihtab_probe_eq: "ihtab_probe P Eq b h el g = iht_probe P Eq b h el g"
proof (rule option_eqI, rule iffI)
  fix r
  assume r: "ihtab_probe P Eq b h el g = Some r"
  have "case (((((P, Eq), b), h), el), g) of (((((P, Eq), b), h), el), g) \<Rightarrow> iht_probe P Eq b h el g = Some r"
    by (rule ihtab_probe.raw_induct [OF _ r], simp only: split, subst iht_probe.simps)
      (auto simp: ihtab_probe_step_eq split: option.splits sum.splits)
  then show "iht_probe P Eq b h el g = Some r" by (simp only: split)
next
  fix r
  assume r: "iht_probe P Eq b h el g = Some r"
  have "case (((((P, Eq), b), h), el), g) of (((((P, Eq), b), h), el), g) \<Rightarrow> ihtab_probe P Eq b h el g = Some r"
    by (rule iht_probe.raw_induct [OF _ r], simp only: split, subst ihtab_probe.simps)
      (auto simp: ihtab_probe_step_eq split: option.splits sum.splits)
  then show "ihtab_probe P Eq b h el g = Some r" by (simp only: split)
qed

lemma ihtab_do_1_eq: "ihtab_do_1 P Hash Eq num b el a = iht_do_1 P Hash Eq num b el (c_action a)"
  by (simp add: ihtab_do_1_def iht_do_1_def ihtab_probe_eq ihtab_scan_simps c_action_ge c_action_delete Let_def
      cong: if_cong)

lemma ihtab_new_bin_eq: "ihtab_new_bin = iht_new_bin"
  by (simp add: fun_eq_iff ihtab_new_bin_def iht_new_bin_def ihtab_scan_simps)

lemma ihtab_reinsert_eq: "ihtab_reinsert P Hash Eq old is num rb = iht_reinsert P Hash Eq old is num rb"
  by (induction "is" arbitrary: num rb) (auto simp: ihtab_do_1_eq intro!: Option.bind_cong)

lemma ihtab_rebuild_eq: "ihtab_rebuild = iht_rebuild"
  by (simp add: fun_eq_iff ihtab_rebuild_def iht_rebuild_def ihtab_rebuild_size_def iht_rebuild_size_def ihtab_consts
      ihtab_new_bin_eq ihtab_reinsert_eq)

lemma ihtab_create_size_eq: "ihtab_create_size m n = iht_create_size m n"
proof (rule option_eqI)
  have "iht_create_size m n = Some r" if "ihtab_create_size m n = Some r" for r
    by (rule ihtab_create_size.raw_induct [OF _ that], subst iht_create_size.simps)
      (auto simp: ihtab_consts split: if_splits)
  moreover have "ihtab_create_size m n = Some r" if "iht_create_size m n = Some r" for r
    by (rule iht_create_size.raw_induct [OF _ that], subst ihtab_create_size.simps)
      (auto simp: ihtab_consts split: if_splits)
  ultimately show "ihtab_create_size m n = Some r \<longleftrightarrow> iht_create_size m n = Some r" for r by blast
qed

lemma ihtab_create_eq: "ihtab_create = iht_create"
  by (simp add: fun_eq_iff ihtab_create_def iht_create_def ihtab_create_size_eq ihtab_new_bin_eq ihtab_consts)

lemma ihtab_perform_eq: "ihtab_perform P Hash Eq t el a = iht_perform P Hash Eq t el (c_action a)"
  by (simp add: ihtab_perform_def iht_perform_def ihtab_do_1_eq ihtab_rebuild_eq ihtab_consts c_action_ge)

lemma ihtab_size_eq: "ihtab_els_count = iht_els_count" "ihtab_size = iht_size"
  by (simp_all add: fun_eq_iff ihtab_els_count_def iht_els_count_def ihtab_size_def iht_size_def ihtab_consts)

lemma ihtab_client_eq: "ihtab_store = iht_store" "ihtab_load = iht_load"
  by (simp_all add: fun_eq_iff ihtab_store_def iht_store_def ihtab_load_def iht_load_def)

lemma ihtab_step_eq: "ihtab_step = iht_step"
  by (simp add: fun_eq_iff ihtab_step_def iht_step_def ihtab_client_eq ihtab_perform_eq)

lemma ihtab_iter_advance_eq: "ihtab_iter_advance t it = iht_iter_advance t it"
proof (induction t it rule: iht_iter_advance.induct)
  case (1 t it)
  then show ?case
    unfolding ihtab_iter_advance.simps [of t it] iht_iter_advance.simps [of t it]
    by (auto intro!: Option.bind_cong)
qed

lemma ihtab_iterate_eq: "ihtab_iterate = iht_iterate"
  by (simp add: fun_eq_iff ihtab_iterate_def iht_iterate_def ihtab_iter_begin_def iht_iter_begin_def ihtab_client_eq
      ihtab_iter_advance_eq ihtab_iter_valid_def [abs_def] iht_iter_valid_def [abs_def] ihtab_iter_next_def [abs_def]
      iht_iter_next_def [abs_def])

section \<open>The range-based loop\<close>

interpretation ihtab_fwd: forward_iter Hash Eq "iht_do_1 P Hash Eq" iht_new_bin els "\<lambda>xs b. b\<lparr>els := xs\<rparr>" deleted
    els_bound groups_mask iht_view "iht_bin_inv Hash Eq" "iht_reinsert P Hash Eq" "iht_rebuild P Hash Eq"
    "\<lambda>a t e. iht_perform P Hash Eq t e a" iht_store iht_load iht_iter_advance ihtab_advance for P Hash Eq
  by unfold_locales (rule ihtab_advance.simps)

lemma ihtab_range_for_correct: "iht_inv Hash Eq k t \<Longrightarrow> ihtab_range_for this t = Some (iht_abs t)"
  using ihtab_fwd.range_for_correct [of Hash Eq k t this]
  unfolding ihtab_range_for_def ihtab_begin_def ihtab_iter_neq_def ihtab_end_def ihtab_deref_def [abs_def]
    ihtab_incr_def [abs_def] by simp

end
