(* ===== verification/Ihtab_v0.thy ===== *)
theory Ihtab_v0
  imports Flat_Table
begin

text \<open>
  The C11 table of \<open>ihtab-v0.h\<close>, the first version of \<open>ihtab.h\<close>: the tags and the element indices are in
  two arrays, a deleted slot keeps its tag and has an index with all bits set, and an insertion reuses
  the first deleted slot with the wanted tag that its probe has met. Names carry a zero, \<open>iht0_\<close> for
  \<open>iht_\<close>; otherwise the conventions are those of the model of \<open>ihtab.h\<close>.
\<close>

section \<open>Constants and group scans\<close>

definition IHT0_GROUP_SIZE :: u64 where "IHT0_GROUP_SIZE = 8"

definition IHT0_EMPTY_H7 :: u8 where "IHT0_EMPTY_H7 = 0x80"

definition IHT0_INDEX_DELETED :: u32 where "IHT0_INDEX_DELETED = NOT 0"

definition IHT0_LF_FACTOR :: u64 where "IHT0_LF_FACTOR = 1"

definition IHT0_LF_DIVISOR :: u64 where "IHT0_LF_DIVISOR = 2"

definition IHT0_MASK_SCALE :: "platform \<Rightarrow> bool" where
  "IHT0_MASK_SCALE P \<longleftrightarrow> P = SWAR"

definition iht0_group_load :: "platform \<Rightarrow> cells \<Rightarrow> nat \<Rightarrow> group_t option" where
  "iht0_group_load P m p = map_option (\<lambda>g.
     case P of
       X86_SSE2 \<Rightarrow> SSE2_group (mm_cvtsi64_si128 g)
     | AARCH64_NEON \<Rightarrow> NEON_group g
     | SWAR \<Rightarrow> SWAR_group g) (load_word m p)"

fun iht0_match_mask :: "group_t \<Rightarrow> u8 \<Rightarrow> u64" where
  "iht0_match_mask (SSE2_group g) h7_val =
     (let h7_vec = mm_set1_epi8 h7_val
      in ucast (mm_movemask_epi8 (mm_cmpeq_epi8 g h7_vec)) AND 0xff)"
| "iht0_match_mask (NEON_group g) h7_val =
     (let group = vcreate_u8 g;
          match_eq = vceq_u8 group (vdup_n_u8 h7_val)
      in ucast (vaddv_u8 (vand_u8 match_eq [1, 2, 4, 8, 16, 32, 64, 128])))"
| "iht0_match_mask (SWAR_group g) h7_val =
     (let cmp = g XOR (SWAR_LSB * ucast h7_val)
      in (cmp - SWAR_LSB) AND NOT cmp AND SWAR_MSB)"

fun iht0_match_empty :: "group_t \<Rightarrow> u64" where
  "iht0_match_empty (SSE2_group g) =
     (let mask = mm_set1_epi8 0x80 in ucast (mm_movemask_epi8 (mm_and_si128 g mask)) AND 0xff)"
| "iht0_match_empty (NEON_group g) = iht0_match_mask (NEON_group g) IHT0_EMPTY_H7"
| "iht0_match_empty (SWAR_group g) = g AND SWAR_MSB"

section \<open>State\<close>

record 'e hbin_iht0 =
  els_bound :: u64
  els :: "'e option list"
  deleted :: "u8 list"
  h7 :: cells
  indexes :: "u32 option list"
  groups_mask :: u64

type_synonym 'e iht0 = "'e hbin_iht0 bin_table"

definition iht0_destroy_bin :: "'e hbin_iht0 \<Rightarrow> 'e hbin_iht0" where
  "iht0_destroy_bin b = b\<lparr>els := [], deleted := [], h7 := [], indexes := []\<rparr>"

section \<open>Find, insert and delete in one bin\<close>

definition iht0_slot :: "u64 \<Rightarrow> nat \<Rightarrow> u64" where
  "iht0_slot group_ind slot_bit = group_ind * IHT0_GROUP_SIZE + of_nat slot_bit"

text \<open>
  The inner \<open>while (mmask)\<close> loop: the first slot of the mask that is not deleted and whose element is
  equal to \<open>*el\<close>, with its element index, and the value of \<open>first_deleted_slot\<close>.
\<close>

function iht0_scan :: "platform \<Rightarrow> ('e \<Rightarrow> 'e \<Rightarrow> bool) \<Rightarrow> 'e hbin_iht0 \<Rightarrow> u64 \<Rightarrow> 'e \<Rightarrow> u64 \<Rightarrow> u64 \<Rightarrow>
    ((nat \<times> u32) option \<times> u64) option" where
  "iht0_scan P Eq b group_ind el mmask first_deleted_slot =
     (if mmask = 0 then Some (None, first_deleted_slot)
      else do {
        let slot_bit = first_slot (IHT0_MASK_SCALE P) mmask;
        let slot_ind = iht0_slot group_ind slot_bit;
        el_ind \<leftarrow> read_el (indexes b) (unat slot_ind);
        if el_ind = IHT0_INDEX_DELETED
        then iht0_scan P Eq b group_ind el (mmask AND (mmask - 1))
          (if first_deleted_slot = NOT 0 then slot_ind else first_deleted_slot)
        else do {
          e \<leftarrow> read_el (els b) (unat el_ind);
          if Eq e el then Some (Some (slot_bit, el_ind), first_deleted_slot)
          else iht0_scan P Eq b group_ind el (mmask AND (mmask - 1)) first_deleted_slot
        }
      })"
  by pat_completeness auto
termination
  by (relation "measure (\<lambda>(P, Eq, b, group_ind, el, mmask, first_deleted_slot). unat mmask)") (auto intro: and_pred_less)

declare iht0_scan.simps [simp del]

text \<open>
  One round of the outer \<open>for (;;)\<close> loop, up to its returns or the next \<open>group_ind\<close>. Its state and its
  result carry \<open>first_deleted_slot\<close>.
\<close>

definition iht0_probe_step :: "platform \<Rightarrow> ('e \<Rightarrow> 'e \<Rightarrow> bool) \<Rightarrow> 'e hbin_iht0 \<Rightarrow> u8 \<Rightarrow> 'e \<Rightarrow> u64 \<times> u64 \<Rightarrow>
    ((u64 \<times> u64) + (outcome \<times> u64)) option" where
  "iht0_probe_step P Eq b h7_val el state =
     do {
       let (group_ind, first_deleted_slot) = state;
       let group_h7 = unat (group_ind * IHT0_GROUP_SIZE);
       group \<leftarrow> iht0_group_load P (h7 b) group_h7;
       (found, first_deleted_slot) \<leftarrow>
         iht0_scan P Eq b group_ind el (iht0_match_mask group h7_val) first_deleted_slot;
       case found of
         Some (slot_bit, el_ind) \<Rightarrow>
           Some (Inr (Matched (unat group_ind) slot_bit (unat el_ind), first_deleted_slot))
       | None \<Rightarrow>
           (let emask = iht0_match_empty group
            in if emask \<noteq> 0
               then Some (Inr (Vacant (unat group_ind) (first_slot (IHT0_MASK_SCALE P) emask), first_deleted_slot))
               else Some (Inl ((group_ind + 1) AND groups_mask b, first_deleted_slot)))
     }"

partial_function (option) iht0_probe :: "platform \<Rightarrow> ('e \<Rightarrow> 'e \<Rightarrow> bool) \<Rightarrow> 'e hbin_iht0 \<Rightarrow> u8 \<Rightarrow> 'e \<Rightarrow>
    u64 \<times> u64 \<Rightarrow> (outcome \<times> u64) option" where
  "iht0_probe P Eq b h7_val el state =
     (case iht0_probe_step P Eq b h7_val el state of
        None \<Rightarrow> None
      | Some (Inl state') \<Rightarrow> iht0_probe P Eq b h7_val el state'
      | Some (Inr r) \<Rightarrow> Some r)"

definition iht0_do_1 :: "platform \<Rightarrow> ('e \<Rightarrow> u64) \<Rightarrow> ('e \<Rightarrow> 'e \<Rightarrow> bool) \<Rightarrow> u64 \<Rightarrow> 'e hbin_iht0 \<Rightarrow> 'e \<Rightarrow>
    iht_action \<Rightarrow> (bool \<times> nat option \<times> u64 \<times> 'e hbin_iht0) option" where
  "iht0_do_1 P Hash Eq num b el action =
     do {
       let hash = Hash el;
       let h7_val = h7_of hash;
       (r, first_deleted_slot) \<leftarrow>
         iht0_probe P Eq b h7_val el ((hash div IHT0_GROUP_SIZE) AND groups_mask b, NOT 0);
       case r of
         Matched group_ind slot_bit el_ind \<Rightarrow>
           if action \<noteq> IHT_DELETE then Some (True, Some el_ind, num, b)
           else do {
             d \<leftarrow> del_set (deleted b) el_ind;
             ix \<leftarrow> write_el (indexes b) (unat (iht0_slot (of_nat group_ind) slot_bit)) IHT0_INDEX_DELETED;
             Some (True, None, num - 1, b\<lparr>deleted := d, indexes := ix\<rparr>)
           }
       | Vacant group_ind slot_bit \<Rightarrow>
           if action \<ge> IHT_INSERT then do {
             let slot_ind = (if first_deleted_slot \<noteq> NOT 0 then first_deleted_slot
                             else iht0_slot (of_nat group_ind) slot_bit);
             hs \<leftarrow> store_bytes (h7 b) (unat slot_ind) [h7_val];
             ix \<leftarrow> write_el (indexes b) (unat slot_ind) (ucast (els_bound b));
             Some (False, Some (unat (els_bound b)), num + 1,
               b\<lparr>h7 := hs, indexes := ix, els_bound := els_bound b + 1\<rparr>)
           }
           else Some (False, None, num, b)
     }"

section \<open>Allocation and rebuilding\<close>

text \<open>The allocation code shared by \<open>iht_rebuild\<close> and \<open>iht_create\<close>.\<close>

definition iht0_new_bin :: "u64 \<Rightarrow> u64 \<Rightarrow> 'e hbin_iht0 option" where
  "iht0_new_bin indexes_size els_size =
     do {
       let del_bytes = (els_size + 7) div 8;
       hs \<leftarrow> store_bytes (replicate (unat indexes_size) None) 0 (replicate (unat indexes_size) IHT0_EMPTY_H7);
       Some \<lparr>els_bound = 0, els = replicate (unat els_size) None, deleted = replicate (unat del_bytes) 0,
         h7 = hs, indexes = replicate (unat indexes_size) None,
         groups_mask = indexes_size div IHT0_GROUP_SIZE - 1\<rparr>
     }"

text \<open>The copying loop of \<open>iht0_rebuild\<close>.\<close>

primrec iht0_reinsert :: "platform \<Rightarrow> ('e \<Rightarrow> u64) \<Rightarrow> ('e \<Rightarrow> 'e \<Rightarrow> bool) \<Rightarrow> 'e hbin_iht0 \<Rightarrow> nat list \<Rightarrow>
    u64 \<Rightarrow> 'e hbin_iht0 \<Rightarrow> (u64 \<times> 'e hbin_iht0) option" where
  "iht0_reinsert P Hash Eq old [] num rb = Some (num, rb)"
| "iht0_reinsert P Hash Eq old (i # is) num rb =
     do {
       d \<leftarrow> del_test (deleted old) i;
       if d then iht0_reinsert P Hash Eq old is num rb
       else do {
         e \<leftarrow> read_el (els old) i;
         (found, res, num, rb) \<leftarrow> iht0_do_1 P Hash Eq num rb e IHT_INSERT;
         r \<leftarrow> res;
         xs \<leftarrow> write_el (els rb) r e;
         iht0_reinsert P Hash Eq old is num (rb\<lparr>els := xs\<rparr>)
       }
     }"

definition iht0_rebuild_size :: "'e iht0 \<Rightarrow> u64" where
  "iht0_rebuild_size t =
     (let indexes_size = (groups_mask (bin t) + 1) * IHT0_GROUP_SIZE
      in if 2 * IHT0_LF_DIVISOR * els_num t \<ge> IHT0_LF_FACTOR * indexes_size
         then indexes_size * 2 else indexes_size)"

definition iht0_rebuild :: "platform \<Rightarrow> ('e \<Rightarrow> u64) \<Rightarrow> ('e \<Rightarrow> 'e \<Rightarrow> bool) \<Rightarrow> 'e iht0 \<Rightarrow> 'e iht0 option" where
  "iht0_rebuild P Hash Eq t =
     do {
       let indexes_size = iht0_rebuild_size t;
       let els_size = indexes_size * IHT0_LF_FACTOR div IHT0_LF_DIVISOR;
       rb \<leftarrow> iht0_new_bin indexes_size els_size;
       let saved = els_num t;
       (num, rb) \<leftarrow> iht0_reinsert P Hash Eq (bin t) [0..<unat (els_bound (bin t))] (els_num t) rb;
       Some \<lparr>els_num = saved, bin = rb\<rparr>
     }"

partial_function (option) iht0_create_size :: "u64 \<Rightarrow> u64 \<Rightarrow> u64 option" where
  "iht0_create_size min_size indexes_size =
     (if indexes_size * IHT0_LF_FACTOR div IHT0_LF_DIVISOR < min_size
      then iht0_create_size min_size (indexes_size * 2) else Some indexes_size)"

definition iht0_create :: "u64 \<Rightarrow> 'e iht0 option" where
  "iht0_create min_size =
     do {
       indexes_size \<leftarrow> iht0_create_size min_size IHT0_GROUP_SIZE;
       let els_size = indexes_size * IHT0_LF_FACTOR div IHT0_LF_DIVISOR;
       b \<leftarrow> iht0_new_bin indexes_size els_size;
       Some \<lparr>els_num = 0, bin = b\<rparr>
     }"

definition iht0_destroy :: "'e iht0 \<Rightarrow> 'e iht0" where
  "iht0_destroy t = t\<lparr>bin := iht0_destroy_bin (bin t)\<rparr>"

section \<open>The interface\<close>

definition iht0_perform :: "platform \<Rightarrow> ('e \<Rightarrow> u64) \<Rightarrow> ('e \<Rightarrow> 'e \<Rightarrow> bool) \<Rightarrow> 'e iht0 \<Rightarrow> 'e \<Rightarrow> iht_action \<Rightarrow>
    (bool \<times> nat option \<times> 'e iht0) option" where
  "iht0_perform P Hash Eq t el action =
     do {
       t \<leftarrow> (if action \<ge> IHT_INSERT
             then (let indexes_size = (groups_mask (bin t) + 1) * IHT0_GROUP_SIZE;
                       els_size = indexes_size * IHT0_LF_FACTOR div IHT0_LF_DIVISOR - 1
                   in if els_bound (bin t) \<ge> els_size then iht0_rebuild P Hash Eq t else Some t)
             else Some t);
       (found, res, num, b) \<leftarrow> iht0_do_1 P Hash Eq (els_num t) (bin t) el action;
       Some (found, res, \<lparr>els_num = num, bin = b\<rparr>)
     }"

definition iht0_els_count :: "'e iht0 \<Rightarrow> u64" where
  "iht0_els_count t = els_num t"

definition iht0_size :: "'e iht0 \<Rightarrow> u64" where
  "iht0_size t = (groups_mask (bin t) + 1) * IHT0_GROUP_SIZE * IHT0_LF_FACTOR div IHT0_LF_DIVISOR"

function iht0_iter_advance :: "'e iht0 \<Rightarrow> iht_iter \<Rightarrow> iht_iter option" where
  "iht0_iter_advance t it =
     (if el_idx it < els_bound (bin t) then do {
        d \<leftarrow> del_test (deleted (bin t)) (unat (el_idx it));
        if \<not> d then Some (it\<lparr>ptr := Some (unat (el_idx it))\<rparr>)
        else iht0_iter_advance t (it\<lparr>el_idx := el_idx it + 1\<rparr>)
      }
      else Some (it\<lparr>ptr := None\<rparr>))"
  by pat_completeness auto
termination
proof (relation "measure (\<lambda>(t, it). unat (els_bound (bin t)) - unat (el_idx it))")
  fix t :: "'e iht0" and it :: iht_iter and d
  assume less: "el_idx it < els_bound (bin t)"
  have "unat (el_idx it + 1) = unat (el_idx it) + 1"
    using less by (rule unat_succ_less)
  with less show "((t, it\<lparr>el_idx := el_idx it + 1\<rparr>), t, it)
      \<in> measure (\<lambda>(t, it). unat (els_bound (bin t)) - unat (el_idx it))"
    by (simp add: word_less_nat_alt)
qed simp

declare iht0_iter_advance.simps [simp del]

definition iht0_iter_begin :: "'e iht0 \<Rightarrow> iht_iter option" where
  "iht0_iter_begin t = iht0_iter_advance t \<lparr>el_idx = 0, ptr = None\<rparr>"

definition iht0_iter_valid :: "iht_iter \<Rightarrow> bool" where
  "iht0_iter_valid it \<longleftrightarrow> ptr it \<noteq> None"

definition iht0_iter_next :: "'e iht0 \<Rightarrow> iht_iter \<Rightarrow> iht_iter option" where
  "iht0_iter_next t it = iht0_iter_advance t (it\<lparr>el_idx := el_idx it + 1\<rparr>)"

section \<open>Client code\<close>

text \<open>The store and the read through the returned pointer, \<open>*r = e\<close> and \<open>*r\<close>.\<close>

definition iht0_store :: "'e iht0 \<Rightarrow> nat option \<Rightarrow> 'e \<Rightarrow> 'e iht0 option" where
  "iht0_store t res e =
     do {
       r \<leftarrow> res;
       xs \<leftarrow> write_el (els (bin t)) r e;
       Some (t\<lparr>bin := (bin t)\<lparr>els := xs\<rparr>\<rparr>)
     }"

definition iht0_load :: "'e iht0 \<Rightarrow> nat option \<Rightarrow> 'e option" where
  "iht0_load t res = do { r \<leftarrow> res; read_el (els (bin t)) r }"

definition iht0_step :: "platform \<Rightarrow> ('e \<Rightarrow> u64) \<Rightarrow> ('e \<Rightarrow> 'e \<Rightarrow> bool) \<Rightarrow> 'e iht0 \<Rightarrow> 'e cmd \<Rightarrow> ('e reply \<times> 'e iht0) option" where
  "iht0_step P Hash Eq = client_step (\<lambda>t e. iht0_perform P Hash Eq t e IHT_FIND)
     (\<lambda>t e. iht0_perform P Hash Eq t e IHT_DELETE) (\<lambda>t e. iht0_perform P Hash Eq t e IHT_INSERT) iht0_store iht0_load"

definition iht0_iterate :: "'e iht0 \<Rightarrow> 'e list option" where
  "iht0_iterate t =
     do {
       it \<leftarrow> iht0_iter_begin t;
       client_iterate iht0_iter_valid (\<lambda>it. iht0_load t (ptr it)) (iht0_iter_next t) it
     }"

end
