(* ===== verification/Split_Layout.thy ===== *)
theory Split_Layout
  imports Layout
begin

text \<open>
  The layout of the first versions, \<open>ihtab-v0.h\<close> and \<open>ixhtab-v0.h\<close>: the tags of all slots in one byte
  array, the element indices in another. A deleted slot keeps its tag and has the index with all
  bits set. The theory gives the slots the two arrays stand for, interprets \<open>slot_store\<close>, and treats the
  inner loop that remembers a deleted slot on the way.
\<close>

section \<open>The slots of two arrays\<close>

definition split_tag :: "u8 \<Rightarrow> bool" where
  "split_tag t \<longleftrightarrow> \<not> bit t 7 \<or> t = 0x80"

type_synonym 'i split = "cells \<times> 'i word option list"

definition sp_decode :: "u8 option \<Rightarrow> 'i::len word option \<Rightarrow> slot" where
  "sp_decode tag index = (case tag of
       None \<Rightarrow> Empty
     | Some t \<Rightarrow> if t = 0x80 then Empty
         else (case index of None \<Rightarrow> Empty | Some i \<Rightarrow> if i = - 1 then Tomb else Full t (unat i)))"

definition sp_slot :: "'i::len split \<Rightarrow> nat \<Rightarrow> nat \<Rightarrow> slot" where
  "sp_slot m g s = sp_decode (fst m ! (8 * g + s)) (snd m ! (8 * g + s))"

definition sp_wf :: "nat \<Rightarrow> 'i::len split \<Rightarrow> bool" where
  "sp_wf n m \<longleftrightarrow> length (fst m) = 8 * n \<and> length (snd m) = 8 * n \<and>
     (\<forall>j < 8 * n. \<exists>t. fst m ! j = Some t \<and> split_tag t \<and> (\<not> bit t 7 \<longrightarrow> snd m ! j \<noteq> None))"

definition sp_fill :: "'i::len split \<Rightarrow> nat \<Rightarrow> nat \<Rightarrow> u8 \<Rightarrow> nat \<Rightarrow> 'i split option" where
  "sp_fill m g s t i =
     do {
       h \<leftarrow> store_bytes (fst m) (8 * g + s) [t];
       ix \<leftarrow> write_el (snd m) (8 * g + s) (of_nat i);
       Some (h, ix)
     }"

definition sp_kill :: "'i::len split \<Rightarrow> nat \<Rightarrow> nat \<Rightarrow> 'i split option" where
  "sp_kill m g s = do { ix \<leftarrow> write_el (snd m) (8 * g + s) (- 1); Some (fst m, ix) }"

lemma slot_index: "g < n \<Longrightarrow> s < 8 \<Longrightarrow> 8 * g + s < 8 * (n :: nat)"
  by simp

lemma slot_index_eq:
  assumes "s < 8" "s' < 8"
  shows "8 * g + s = 8 * g' + (s' :: nat) \<longleftrightarrow> g = g' \<and> s = s'"
proof
  assume eq: "8 * g + s = 8 * g' + s'"
  have "(8 * g + s) div 8 = g" "(8 * g' + s') div 8 = g'" using assms by simp_all
  then have "g = g'" using eq by simp
  then show "g = g' \<and> s = s'" using eq by simp
qed simp

lemma split_tag_top: "\<not> bit t 7 \<Longrightarrow> split_tag t \<and> t \<noteq> 0x80"
proof -
  have "bit (0x80 :: u8) 7" by simp
  then show "\<not> bit t 7 \<Longrightarrow> split_tag t \<and> t \<noteq> 0x80" by (auto simp: split_tag_def)
qed

lemma store_byte: "j < length m \<Longrightarrow> store_bytes m j [t] = Some (m[j := Some t])"
  by (simp add: store_bytes_def upd_conv_take_nth_drop)

lemma of_nat_no_mark: "i < 2 ^ LENGTH('i) - 1 \<Longrightarrow> (of_nat i :: 'i::len word) \<noteq> - 1 \<and> unat (of_nat i :: 'i word) = i"
proof -
  assume i: "i < 2 ^ LENGTH('i) - 1"
  then have u: "unat (of_nat i :: 'i word) = i" by (simp add: unat_of_nat_less)
  have "unat (- 1 :: 'i word) = 2 ^ LENGTH('i) - 1" by (simp add: unsigned_minus_1_eq_mask mask_eq_exp_minus_1)
  then show ?thesis using i u by (metis less_irrefl)
qed

lemma sp_fill_law:
  fixes m :: "'i::len split"
  assumes wf: "sp_wf n m" and at: "g < n" "s < 8" and t: "\<not> bit t 7" and i: "i < 2 ^ LENGTH('i) - 1"
  shows "\<exists>m'. sp_fill m g s t i = Some m' \<and> sp_wf n m' \<and>
    (\<forall>g' < n. \<forall>s' < 8. sp_slot m' g' s' = (if g' = g \<and> s' = s then Full t i else sp_slot m g' s'))"
proof -
  let ?j = "8 * g + s"
  let ?m = "((fst m)[?j := Some t], (snd m)[?j := Some (of_nat i)])"
  have j: "?j < 8 * n" using at by (rule slot_index)
  have len: "length (fst m) = 8 * n" "length (snd m) = 8 * n" using wf by (auto simp: sp_wf_def)
  have "sp_fill m g s t i = Some ?m" using j len by (simp add: sp_fill_def store_byte write_el_def)
  moreover have "sp_wf n ?m"
    using wf j len split_tag_top [OF t] by (simp add: sp_wf_def nth_list_update)
  moreover have "sp_slot ?m g' s' = (if g' = g \<and> s' = s then Full t i else sp_slot m g' s')"
    if "g' < n" "s' < 8" for g' s'
    using j len slot_index_eq [OF that(2) at(2), of g' g] split_tag_top [OF t] of_nat_no_mark [OF i]
    by (cases "8 * g' + s' = ?j") (auto simp: sp_slot_def sp_decode_def)
  ultimately show ?thesis by blast
qed

lemma sp_kill_law:
  fixes m :: "'i::len split"
  assumes wf: "sp_wf n m" and at: "g < n" "s < 8" and full: "sp_slot m g s = Full t i"
  shows "\<exists>m'. sp_kill m g s = Some m' \<and> sp_wf n m' \<and>
    (\<forall>g' < n. \<forall>s' < 8. sp_slot m' g' s' = (if g' = g \<and> s' = s then Tomb else sp_slot m g' s'))"
proof -
  let ?j = "8 * g + s" and ?m = "(fst m, (snd m)[8 * g + s := Some (- 1)])"
  have j: "?j < 8 * n" using at by (rule slot_index)
  have len: "length (fst m) = 8 * n" "length (snd m) = 8 * n" using wf by (auto simp: sp_wf_def)
  have tag: "fst m ! ?j = Some t" "t \<noteq> 0x80"
    using full by (auto simp: sp_slot_def sp_decode_def split: option.splits if_splits)
  have "sp_kill m g s = Some ?m" using j len by (simp add: sp_kill_def write_el_def)
  moreover have "sp_wf n ?m" using wf j len by (auto simp: sp_wf_def nth_list_update)
  moreover have "sp_slot ?m g' s' = (if g' = g \<and> s' = s then Tomb else sp_slot m g' s')"
    if "g' < n" "s' < 8" for g' s'
    using j len slot_index_eq [OF that(2) at(2), of g' g] tag
    by (cases "8 * g' + s' = ?j") (auto simp: sp_slot_def sp_decode_def)
  ultimately show ?thesis by blast
qed

interpretation sp32: slot_store "sp_wf :: nat \<Rightarrow> 32 split \<Rightarrow> bool" sp_slot sp_fill sp_kill "2 ^ 32 - 1"
  by unfold_locales (use sp_fill_law [where 'i = 32] sp_kill_law [where 'i = 32] in auto)

interpretation sp16: slot_store "sp_wf :: nat \<Rightarrow> 16 split \<Rightarrow> bool" sp_slot sp_fill sp_kill "2 ^ 16 - 1"
  by unfold_locales (use sp_fill_law [where 'i = 16] sp_kill_law [where 'i = 16] in auto)

section \<open>One group\<close>

lemma sp_group_load:
  assumes "sp_wf n m" "g < n"
  shows "\<exists>w. load_word (fst m) (8 * g) = Some (w :: u64) \<and>
    (\<forall>s < 8. fst m ! (8 * g + s) = Some (lane w s) \<and> split_tag (lane w s))"
proof -
  define bs where "bs = map (\<lambda>s. the (fst m ! (8 * g + s))) [0..<8]"
  have tag: "fst m ! (8 * g + s) = Some (bs ! s) \<and> split_tag (bs ! s)" if "s < 8" for s
    using assms that slot_index [OF assms(2) that] by (force simp: sp_wf_def bs_def)
  have "8 * g + 8 \<le> length (fst m)" using assms by (simp add: sp_wf_def)
  then have "load_bytes (fst m) (8 * g) 8 = Some bs"
    using tag by (simp add: load_bytes_eq_Some_iff bs_def)
  then have "load_word (fst m) (8 * g) = Some (le_word bs :: u64)" by (simp add: load_word_def)
  moreover have "lane (le_word bs) s = bs ! s" if "s < 8" for s
    using that by (intro lane_le_word) (simp_all add: bs_def)
  ultimately show ?thesis using tag by auto
qed

lemma sp_slot_cases:
  assumes "sp_wf n m" "g < n" "s < 8" "fst m ! (8 * g + s) = Some t"
  shows "t = 0x80 \<and> sp_slot m g s = Empty \<or>
    (\<exists>i. \<not> bit t 7 \<and> snd m ! (8 * g + s) = Some i \<and> sp_slot m g s = (if i = - 1 then Tomb else Full t (unat i)))"
proof -
  obtain t' where "fst m ! (8 * g + s) = Some t'" "split_tag t'" "\<not> bit t' 7 \<longrightarrow> snd m ! (8 * g + s) \<noteq> None"
    using assms(1) slot_index [OF assms(2,3)] unfolding sp_wf_def by blast
  then have t: "split_tag t" "\<not> bit t 7 \<longrightarrow> snd m ! (8 * g + s) \<noteq> None" using assms(4) by simp_all
  show ?thesis
  proof (cases "bit t 7")
    case True
    then have "t = 0x80" using t(1) unfolding split_tag_def by blast
    then show ?thesis using assms(4) by (simp add: sp_slot_def sp_decode_def)
  next
    case False
    then obtain i where "snd m ! (8 * g + s) = Some i" using t(2) by blast
    then show ?thesis using False split_tag_top [OF False] assms(4) by (simp add: sp_slot_def sp_decode_def)
  qed
qed

definition sp_slots :: "nat \<Rightarrow> 'i::len split \<Rightarrow> nat \<Rightarrow> nat \<Rightarrow> slot" where
  "sp_slots n m = (\<lambda>g s. if g < n \<and> s < 8 then sp_slot m g s else Empty)"

text \<open>A slot the mask reports is deleted or holds an element.\<close>

lemma sp_hit:
  assumes engine: "group_engine hits empties 0x80 split_tag" and wf: "sp_wf n m" "g < n"
    and v: "ngroups v = n" "slot v = sp_slots n m" "view_inv Hash Eq v"
    and w: "load_word (fst m) (8 * g) = Some w" and h: "\<not> bit h 7" and s: "s \<in> set (hits w h)"
  shows "s < 8 \<and> (\<exists>i. read_el (snd m) (8 * g + s) = Some i \<and>
    (if i = - 1 then slot v g s = Tomb
     else slot v g s = Full (lane w s) (unat i) \<and> (\<exists>e. elem v (unat i) = Some e)))"
proof -
  have s8: "s < 8" "\<not> bit (lane w s) 7" using group_engine.hit_in_use [OF engine h s] by auto
  then have "fst m ! (8 * g + s) = Some (lane w s)" using sp_group_load [OF wf] w by auto
  then obtain i where i: "snd m ! (8 * g + s) = Some i"
      "sp_slot m g s = (if i = - 1 then Tomb else Full (lane w s) (unat i))"
    using sp_slot_cases [OF wf s8(1)] s8(2) by force
  have "read_el (snd m) (8 * g + s) = Some i"
    using i(1) wf slot_index [OF wf(2) s8(1)] by (simp add: read_el_def sp_wf_def)
  moreover have "slot v g s = sp_slot m g s" using v s8 wf by (simp add: sp_slots_def)
  moreover have "\<exists>e. elem v (unat i) = Some e" if "slot v g s = Full (lane w s) (unat i)"
    using view_inv_full [OF v(3) _ s8(1) that] v(1) wf(2) live_elem [OF v(3)] by blast
  ultimately show ?thesis using i(2) s8(1) by (intro conjI exI [of _ i]) auto
qed

lemma sp_no_match:
  assumes engine: "group_engine hits empties 0x80 split_tag" and wf: "sp_wf n m" "g < n"
    and v: "slot v = sp_slots n m" and w: "load_word (fst m) (8 * g) = Some w"
    and none: "\<And>s i e. s \<in> set (hits w h) \<Longrightarrow> slot v g s = Full h i \<Longrightarrow> elem v i = Some e \<Longrightarrow> \<not> M e"
  shows "no_match v h M g"
  unfolding no_match_def
proof (intro allI impI)
  fix s i e assume s: "s < 8" "slot v g s = Full h i" "elem v i = Some e"
  have "fst m ! (8 * g + s) = Some (lane w s)" using sp_group_load [OF wf] w s(1) by auto
  moreover have "sp_slot m g s = Full h i" using s(1,2) wf(2) v by (simp add: sp_slots_def)
  ultimately have "lane w s = h" using sp_slot_cases [OF wf s(1)] by (auto split: if_splits)
  then show "\<not> M e" using none s group_engine.hit_complete [OF engine s(1)] by blast
qed

lemma sp_empties:
  assumes engine: "group_engine hits empties 0x80 split_tag" and wf: "sp_wf n m" "g < n"
    and v: "slot v = sp_slots n m" and w: "load_word (fst m) (8 * g) = Some w"
  shows "empties w = filter (\<lambda>s. slot v g s = Empty) [0..<8]"
proof -
  have tag: "fst m ! (8 * g + s) = Some (lane w s) \<and> split_tag (lane w s)" if "s < 8" for s
    using sp_group_load [OF wf] w that by auto
  have "empties w = filter (\<lambda>s. lane w s = 0x80) [0..<8]"
    using tag by (intro group_engine.empties_eq [OF engine]) blast
  also have "\<dots> = filter (\<lambda>s. slot v g s = Empty) [0..<8]"
  proof (rule filter_cong [OF refl])
    fix s :: nat assume "s \<in> set [0..<8]"
    then have s: "s < 8" by simp
    have "\<not> bit (lane w s) 7 \<Longrightarrow> lane w s \<noteq> 0x80" using split_tag_top by blast
    then show "lane w s = 0x80 \<longleftrightarrow> slot v g s = Empty"
      using sp_slot_cases [OF wf s] tag [OF s] wf(2) s by (auto simp: v sp_slots_def split: if_splits)
  qed
  finally show ?thesis .
qed

text \<open>
  The scan of one group, with \<open>sp_eq\<close> the comparison the inner loop makes at a slot that is not
  deleted.
\<close>

definition sp_eq :: "'i::len split \<Rightarrow> 'e view \<Rightarrow> ('e \<Rightarrow> bool) \<Rightarrow> nat \<Rightarrow> nat \<Rightarrow> bool" where
  "sp_eq m v M g s \<longleftrightarrow> the (read_el (snd m) (8 * g + s)) \<noteq> - 1 \<and>
     M (the (elem v (unat (the (read_el (snd m) (8 * g + s))))))"

lemma sp_scan:
  assumes engine: "group_engine hits empties 0x80 split_tag" and wf: "sp_wf n m" "g < n"
    and v: "ngroups v = n" "slot v = sp_slots n m" "view_inv Hash Eq v"
    and w: "load_word (fst m) (8 * g) = Some w" and h: "\<not> bit h 7"
  shows sp_found: "List.find (sp_eq m v M g) (hits w h) = Some s \<Longrightarrow>
      scan_ok v h M g (Inr (Matched g s (unat (the (read_el (snd m) (8 * g + s))))))"
    and sp_vacant: "List.find (sp_eq m v M g) (hits w h) = None \<Longrightarrow> empties w = s # ss \<Longrightarrow>
      scan_ok v h M g (Inr (Vacant g s))"
    and sp_pass: "List.find (sp_eq m v M g) (hits w h) = None \<Longrightarrow> empties w = [] \<Longrightarrow>
      scan_ok v h M g (Inl (Suc g mod n))"
proof -
  note hit = sp_hit [OF engine wf v w h]
  show "scan_ok v h M g (Inr (Matched g s (unat (the (read_el (snd m) (8 * g + s))))))"
    if "List.find (sp_eq m v M g) (hits w h) = Some s"
  proof -
    have "s \<in> set (hits w h)" "sp_eq m v M g s" using that by (auto simp: find_Some_iff)
    then show ?thesis using hit [of s] by (auto simp: sp_eq_def)
  qed
  have none: "no_match v h M g" if f: "List.find (sp_eq m v M g) (hits w h) = None"
  proof (rule sp_no_match [OF engine wf v(2) w])
    fix s i e assume s: "s \<in> set (hits w h)" "slot v g s = Full h i" "elem v i = Some e"
    then have "\<not> sp_eq m v M g s" using f by (auto simp: find_None_iff)
    then show "\<not> M e" using hit [OF s(1)] s by (auto simp: sp_eq_def split: if_splits)
  qed
  note empties = sp_empties [OF engine wf v(2) w]
  show "List.find (sp_eq m v M g) (hits w h) = None \<Longrightarrow> empties w = s # ss \<Longrightarrow>
      scan_ok v h M g (Inr (Vacant g s))"
    using none first_empty [of v g s ss, folded empties] by simp
  show "List.find (sp_eq m v M g) (hits w h) = None \<Longrightarrow> empties w = [] \<Longrightarrow>
      scan_ok v h M g (Inl (Suc g mod n))"
    using none no_empty [of v g, folded empties] v(1) by simp
qed

text \<open>Freshly allocated arrays after \<open>memset\<close> of all tags to the empty mark.\<close>

lemma sp_cleared:
  fixes ix :: "'i::len word option list"
  assumes "length h = 8 * n" "length ix = 8 * n"
  shows "\<exists>h'. store_bytes h 0 (replicate (8 * n) 0x80) = Some h' \<and> sp_wf n (h', ix) \<and>
    (\<forall>g < n. \<forall>s < 8. sp_slot (h', ix) g s = Empty)"
proof -
  have "store_bytes h 0 (replicate (8 * n) 0x80) = Some (replicate (8 * n) (Some 0x80))"
    using assms by (simp add: store_bytes_def map_replicate_const)
  moreover have "sp_wf n (replicate (8 * n) (Some 0x80), ix)"
    using assms by (auto simp: sp_wf_def split_tag_def)
  moreover have "sp_slot (replicate (8 * n) (Some 0x80), ix) g s = Empty" if "g < n" "s < 8" for g s
    using slot_index [OF that] by (simp add: sp_slot_def sp_decode_def)
  ultimately show ?thesis by blast
qed

section \<open>The loop over a match mask that remembers a deleted slot\<close>

text \<open>
  \<open>get\<close> reads the index at a slot, \<open>mark\<close> recognizes the index of a deleted slot, \<open>hit\<close> compares
  the element, \<open>keep\<close> remembers the slot.
\<close>

locale tomb_loop =
  fixes scan :: "'c \<Rightarrow> u64 \<Rightarrow> 'd \<Rightarrow> ((nat \<times> 'x) option \<times> 'd) option" and scale :: bool
    and get :: "'c \<Rightarrow> nat \<Rightarrow> 'x option" and mark :: "'x \<Rightarrow> bool" and hit :: "'c \<Rightarrow> 'x \<Rightarrow> bool option"
    and keep :: "'c \<Rightarrow> nat \<Rightarrow> 'd \<Rightarrow> 'd"
  assumes scan_unfold: "scan c m d = (if m = 0 then Some (None, d)
    else do {
      x \<leftarrow> get c (first_slot scale m);
      if mark x then scan c (m AND (m - 1)) (keep c (first_slot scale m) d)
      else do {
        r \<leftarrow> hit c x;
        if r then Some (Some (first_slot scale m, x), d) else scan c (m AND (m - 1)) d
      }
    })"
begin

text \<open>It finds the first slot that matches, and what it remembers keeps every property \<open>Q\<close> that deleted slots have.\<close>

lemma scan_find:
  assumes "\<And>s. s \<in> set (mask_slots scale m) \<Longrightarrow> get c s = Some (f s) \<and> (\<not> mark (f s) \<longrightarrow> hit c (f s) = Some (p s))"
    and "\<And>s d. s \<in> set (mask_slots scale m) \<Longrightarrow> mark (f s) \<Longrightarrow> Q d \<Longrightarrow> Q (keep c s d)" and "Q d"
  shows "\<exists>d'. scan c m d = Some (map_option (\<lambda>s. (s, f s)) (List.find (\<lambda>s. \<not> mark (f s) \<and> p s) (mask_slots scale m)), d') \<and>
    Q d'"
  using assms
proof (induction "unat m" arbitrary: m d rule: less_induct)
  case less
  show ?case
  proof (cases "m = 0")
    case True
    then show ?thesis using less.prems(3) by (subst scan_unfold) simp
  next
    case False
    let ?s = "first_slot scale m" and ?m = "m AND (m - 1)"
    note slots = mask_slots_Cons [OF False, of scale]
    have g: "get c ?s = Some (f ?s)" "\<not> mark (f ?s) \<Longrightarrow> hit c (f ?s) = Some (p ?s)"
      using less.prems(1) [of ?s] slots by simp_all
    have "\<exists>d''. scan c ?m d' = Some (map_option (\<lambda>s. (s, f s))
        (List.find (\<lambda>s. \<not> mark (f s) \<and> p s) (mask_slots scale ?m)), d'') \<and> Q d''" if "Q d'" for d'
      using less.hyps [OF and_pred_less [OF False]] less.prems(1,2) slots that by simp
    then show ?thesis
      using g less.prems(2) [of ?s d] less.prems(3) slots False by (subst scan_unfold) auto
  qed
qed

end

end
