(* ===== verification/Ihtab_v0_Correct.thy ===== *)
theory Ihtab_v0_Correct
  imports Ihtab_v0 Split_Layout
begin

text \<open>
  Correctness of one bin of \<open>ihtab-v0.h\<close>: its two arrays are read as a view, the three platforms
  interpret \<open>group_engine\<close>, the inner loop \<open>tomb_loop\<close> and the probe loop \<open>probing\<close>. What the probe adds
  to that of \<open>ihtab.h\<close> is the deleted slot it has met: it lies on the clear part of the probe path, so
  that an element put there is found again.
\<close>

section \<open>Group scans\<close>

definition iht0_group :: "platform \<Rightarrow> u64 \<Rightarrow> group_t" where
  "iht0_group P g = (case P of
       X86_SSE2 \<Rightarrow> SSE2_group (mm_cvtsi64_si128 g)
     | AARCH64_NEON \<Rightarrow> NEON_group g
     | SWAR \<Rightarrow> SWAR_group g)"

definition iht0_hits :: "platform \<Rightarrow> u64 \<Rightarrow> u8 \<Rightarrow> nat list" where
  "iht0_hits P g h = mask_slots (IHT0_MASK_SCALE P) (iht0_match_mask (iht0_group P g) h)"

definition iht0_empties :: "platform \<Rightarrow> u64 \<Rightarrow> nat list" where
  "iht0_empties P g = mask_slots (IHT0_MASK_SCALE P) (iht0_match_empty (iht0_group P g))"

lemma iht0_group_load_eq: "iht0_group_load P m p = map_option (iht0_group P) (load_word m p)"
  by (simp add: iht0_group_load_def iht0_group_def [abs_def])

lemma bit_iht0_match_mask:
  "bit (iht0_match_mask (iht0_group P g) h) n \<longleftrightarrow>
     (if P = SWAR then n < 64 \<and> n mod 8 = 7 \<and> swar_hit (g XOR (SWAR_LSB * ucast h)) (n div 8)
      else n < 8 \<and> lane g n = h)"
  by (cases P) (simp_all add: iht0_group_def sse2_match_bit neon_match_bit swar_match_bit Let_def)

lemma bit_iht0_match_empty:
  "bit (iht0_match_empty (iht0_group P g)) n \<longleftrightarrow>
     (case P of
        X86_SSE2 \<Rightarrow> n < 8 \<and> bit (lane g n) 7
      | AARCH64_NEON \<Rightarrow> n < 8 \<and> lane g n = 0x80
      | SWAR \<Rightarrow> n < 64 \<and> n mod 8 = 7 \<and> bit (lane g (n div 8)) 7)"
proof (cases P)
  case X86_SSE2
  have "bit (mm_cvtsi64_si128 g) m \<longleftrightarrow> bit g m" if "m < 64" for m
    using that by (simp add: mm_cvtsi64_si128_def bit_simps)
  moreover have "bit (mm_set1_epi8 0x80) (8 * n + 7)" if "n < 8"
    using that by (simp add: mm_set1_epi8_def bit_le_word)
  ultimately show ?thesis
    using X86_SSE2 unfolding iht0_group_def X86_SSE2 platform.case iht0_match_empty.simps Let_def sse2_top_bits
    by (auto simp: bit_lane)
next
  case AARCH64_NEON
  then show ?thesis by (simp add: iht0_group_def neon_match_bit Let_def IHT0_EMPTY_H7_def)
next
  case SWAR
  have "8 * (n div 8) + 7 = n" if "n mod 8 = 7"
    using that div_mult_mod_eq [of n 8] by simp
  then show ?thesis
    unfolding SWAR iht0_group_def platform.case iht0_match_empty.simps bit_and_iff bit_SWAR_MSB bit_lane
    by auto
qed

lemma split_tag_empty: "split_tag t \<Longrightarrow> bit t 7 \<longleftrightarrow> t = 0x80"
proof -
  have "bit (0x80 :: u8) 7" by simp
  then show "split_tag t \<Longrightarrow> bit t 7 \<longleftrightarrow> t = 0x80" by (auto simp: split_tag_def)
qed

interpretation iht0_scan: group_engine "iht0_hits P" "iht0_empties P" "0x80" split_tag for P
  unfolding iht0_hits_def iht0_empties_def
  by (rule engineI [where E = "\<lambda>t. if P = AARCH64_NEON then t = 0x80 else bit t 7"])
    (auto simp: bit_iht0_match_mask bit_iht0_match_empty IHT0_MASK_SCALE_def split_tag_empty split: platform.splits)

section \<open>Bins\<close>

abbreviation iht0_arrays :: "'e hbin_iht0 \<Rightarrow> 32 split" where
  "iht0_arrays b \<equiv> (h7 b, indexes b)"

definition iht0_sized :: "nat \<Rightarrow> 'e hbin_iht0 \<Rightarrow> bool" where
  "iht0_sized k b \<longleftrightarrow> k \<le> 30 \<and> groups_mask b = 2 ^ k - 1 \<and> sp_wf (2 ^ k) (iht0_arrays b) \<and>
     length (els b) = 4 * 2 ^ k \<and> length (deleted b) = (4 * 2 ^ k + 7) div 8"

definition iht0_view :: "'e hbin_iht0 \<Rightarrow> 'e view" where
  "iht0_view b = \<lparr>ngroups = Suc (unat (groups_mask b)),
     slot = sp_slots (Suc (unat (groups_mask b))) (iht0_arrays b),
     elem = read_el (els b), dead = del_bit (deleted b), bound = unat (els_bound b)\<rparr>"

definition iht0_bin_inv :: "('e \<Rightarrow> u64) \<Rightarrow> ('e \<Rightarrow> 'e \<Rightarrow> bool) \<Rightarrow> nat \<Rightarrow> 'e hbin_iht0 \<Rightarrow> bool" where
  "iht0_bin_inv Hash Eq k b \<longleftrightarrow> iht0_sized k b \<and> view_inv Hash Eq (iht0_view b) \<and>
     unat (els_bound b) \<le> 4 * 2 ^ k"

lemma iht0_view_sel [view_simps]:
  assumes "iht0_sized k b"
  shows "ngroups (iht0_view b) = 2 ^ k" "slot (iht0_view b) = sp_slots (2 ^ k) (iht0_arrays b)"
    and "elem (iht0_view b) = read_el (els b)" "dead (iht0_view b) = del_bit (deleted b)"
    and "bound (iht0_view b) = unat (els_bound b)"
  using assms by (simp_all add: iht0_view_def iht0_sized_def unat_pow2_minus_1)

lemma iht0_slot_eq:
  assumes "unat g < 2 ^ 30" "s < 8"
  shows "unat (iht0_slot g s) = 8 * unat g + s" "unat (g * IHT0_GROUP_SIZE) = 8 * unat g" "iht0_slot g s \<noteq> NOT 0"
proof -
  show u: "unat (g * IHT0_GROUP_SIZE) = 8 * unat g"
    using assms by (simp add: IHT0_GROUP_SIZE_def unat_mult_less)
  then show v: "unat (iht0_slot g s) = 8 * unat g + s"
    using assms by (simp add: iht0_slot_def unat_add_less unat_of_nat_less)
  have "unat (NOT 0 :: u64) = 2 ^ 64 - 1" by (simp add: unsigned_minus_1_eq_mask mask_eq_exp_minus_1)
  then show "iht0_slot g s \<noteq> NOT 0" using v assms by auto
qed

lemma iht0_next_group:
  assumes "iht0_sized k b" "unat g < 2 ^ k"
  shows "unat ((g + 1) AND groups_mask b) = Suc (unat g) mod 2 ^ k"
proof -
  have "unat g < 2 ^ 30" using assms pow2_le_30 [of k] by (simp add: iht0_sized_def)
  then have "unat (g + 1) = Suc (unat g)" by (subst unat_add_less) simp_all
  then show ?thesis using assms by (simp add: iht0_sized_def unat_and_pow2_mask)
qed

lemma iht0_home:
  "iht0_sized k b \<Longrightarrow> unat ((hash div IHT0_GROUP_SIZE) AND groups_mask b) = home (2 ^ k) hash"
  by (simp add: iht0_sized_def unat_and_pow2_mask home_def IHT0_GROUP_SIZE_def)

section \<open>Probing\<close>

interpretation iht0_mask: tomb_loop "\<lambda>(Eq, b, group_ind, el). iht0_scan P Eq b group_ind el" "IHT0_MASK_SCALE P"
    "\<lambda>(Eq, b, group_ind, el) s. read_el (indexes b) (unat (iht0_slot group_ind s))" "\<lambda>i. i = IHT0_INDEX_DELETED"
    "\<lambda>(Eq, b, group_ind, el) i. do { e \<leftarrow> read_el (els b) (unat i); Some (Eq e el) }"
    "\<lambda>(Eq, b, group_ind, el) s d. if d = NOT 0 then iht0_slot group_ind s else d" for P
proof (unfold_locales, goal_cases)
  case (1 c m d)
  obtain Eq b g el where c: "c = (Eq, b, g, el)" by (cases c)
  show ?case
    unfolding c prod.case by (subst iht0_scan.simps) (simp add: Let_def split: Option.bind_splits)
qed

text \<open>The remembered slot: none yet, or a deleted one whose group the probe of \<open>hash\<close> reaches.\<close>

definition iht0_seen :: "'e view \<Rightarrow> u64 \<Rightarrow> u64 \<Rightarrow> bool" where
  "iht0_seen v hash d \<longleftrightarrow> d = NOT 0 \<or>
     (\<exists>g s. g < ngroups v \<and> s < 8 \<and> unat d = 8 * g + s \<and> slot v g s = Tomb \<and> clear_path v (home (ngroups v) hash) g)"

lemma iht0_scan_result:
  assumes b: "iht0_sized k b" "view_inv Hash Eq (iht0_view b)" and h: "\<not> bit h 7"
    and g: "unat g < 2 ^ k" and w: "load_word (h7 b) (8 * unat g) = Some w"
    and path: "clear_path (iht0_view b) (home (2 ^ k) hash) (unat g)" and d: "iht0_seen (iht0_view b) hash d"
  shows "\<exists>d'. iht0_scan P Eq b g el (iht0_match_mask (iht0_group P w) h) d =
    Some (map_option (\<lambda>s. (s, the (read_el (indexes b) (8 * unat g + s))))
      (List.find (sp_eq (iht0_arrays b) (iht0_view b) (\<lambda>e. Eq e el) (unat g)) (iht0_hits P w h)), d') \<and>
    iht0_seen (iht0_view b) hash d'"
proof -
  let ?v = "iht0_view b" and ?m = "iht0_match_mask (iht0_group P w) h"
  let ?f = "\<lambda>s. the (read_el (indexes b) (8 * unat g + s))"
  let ?p = "\<lambda>s. Eq (the (elem ?v (unat (?f s)))) el"
  note v = iht0_view_sel [OF b(1)]
  have g30: "unat g < 2 ^ 30" using b(1) g pow2_le_30 [of k] by (simp add: iht0_sized_def)
  have mark: "IHT0_INDEX_DELETED = - 1" by (simp add: IHT0_INDEX_DELETED_def)
  have wf: "sp_wf (2 ^ k) (iht0_arrays b)" using b(1) by (simp add: iht0_sized_def)
  have hit: "s < 8 \<and> (\<exists>i. read_el (indexes b) (8 * unat g + s) = Some i \<and>
      (if i = - 1 then slot ?v (unat g) s = Tomb else \<exists>e. elem ?v (unat i) = Some e))"
    if "s \<in> set (mask_slots (IHT0_MASK_SCALE P) ?m)" for s
    using sp_hit [OF iht0_scan.group_engine_axioms [of P] wf g v(1,2) b(2) _ h, of w s] w that
    by (auto simp: iht0_hits_def split: if_splits)
  have "\<exists>d'. (\<lambda>(Eq, b, group_ind, el). iht0_scan P Eq b group_ind el) (Eq, b, g, el) ?m d =
      Some (map_option (\<lambda>s. (s, ?f s))
        (List.find (\<lambda>s. \<not> ?f s = IHT0_INDEX_DELETED \<and> ?p s) (mask_slots (IHT0_MASK_SCALE P) ?m)), d') \<and>
      iht0_seen ?v hash d'"
  proof (rule iht0_mask.scan_find [where c = "(Eq, b, g, el)" and f = ?f and p = ?p and Q = "iht0_seen ?v hash", OF _ _ d])
    fix s
    assume s: "s \<in> set (mask_slots (IHT0_MASK_SCALE P) ?m)"
    then have s8: "s < 8" using hit by blast
    note u = iht0_slot_eq [OF g30 s8]
    show "(case (Eq, b, g, el) of (Eq, b, group_ind, el) \<Rightarrow> \<lambda>s. read_el (indexes b) (unat (iht0_slot group_ind s))) s =
        Some (?f s) \<and> (\<not> ?f s = IHT0_INDEX_DELETED \<longrightarrow>
        (case (Eq, b, g, el) of (Eq, b, group_ind, el) \<Rightarrow> \<lambda>i. do { e \<leftarrow> read_el (els b) (unat i); Some (Eq e el) }) (?f s) =
        Some (?p s))"
      using hit [OF s] u by (auto simp: mark v split: if_splits)
    fix d
    assume f: "?f s = IHT0_INDEX_DELETED" and Q: "iht0_seen ?v hash d"
    have "slot ?v (unat g) s = Tomb" using hit [OF s] f by (auto simp: mark)
    then have "iht0_seen ?v hash (iht0_slot g s)" using s8 g path u(1) by (auto simp: iht0_seen_def v(1))
    then show "iht0_seen ?v hash ((case (Eq, b, g, el) of (Eq, b, group_ind, el) \<Rightarrow>
        \<lambda>s d. if d = NOT 0 then iht0_slot group_ind s else d) s d)"
      using Q by simp
  qed
  then show ?thesis by (simp add: iht0_hits_def sp_eq_def [abs_def] mark)
qed

lemma iht0_probe_step_scans:
  assumes b: "iht0_sized k b" "view_inv Hash Eq (iht0_view b)" and h: "\<not> bit h 7"
    and g: "unat g < ngroups (iht0_view b)"
    and path: "clear_path (iht0_view b) (home (2 ^ k) hash) (unat g)" and d: "iht0_seen (iht0_view b) hash d"
  shows "\<exists>r. iht0_probe_step P Eq b h el (g, d) = Some r \<and>
    scan_ok (iht0_view b) h (\<lambda>e. Eq e el) (unat g) (map_sum (\<lambda>(g, d). unat g) fst r) \<and>
    (case r of Inl (g, d) \<Rightarrow> clear_path (iht0_view b) (home (2 ^ k) hash) (unat g) \<and> iht0_seen (iht0_view b) hash d
     | Inr (o', d) \<Rightarrow> iht0_seen (iht0_view b) hash d)"
proof -
  let ?v = "iht0_view b" and ?a = "iht0_arrays b"
  note v = iht0_view_sel [OF b(1)]
  have wf: "sp_wf (2 ^ k) ?a" "unat g < 2 ^ k" using b(1) g v by (simp_all add: iht0_sized_def)
  have g30: "unat g < 2 ^ 30" using b(1) wf(2) pow2_le_30 [of k] by (simp add: iht0_sized_def)
  note base = iht0_slot_eq(2) [OF g30, of 0, simplified]
  obtain w where w: "load_word (h7 b) (8 * unat g) = Some (w :: u64)"
    using sp_group_load [OF wf] by auto
  let ?M = "\<lambda>e. Eq e el" and ?f = "\<lambda>s. the (read_el (indexes b) (8 * unat g + s))"
  let ?found = "List.find (sp_eq ?a ?v ?M (unat g)) (iht0_hits P w h)"
  have w': "load_word (fst ?a) (8 * unat g) = Some w" using w by simp
  note sp = sp_scan [OF iht0_scan.group_engine_axioms [of P] wf v(1,2) b(2) w' h]
  obtain d' where d': "iht0_scan P Eq b g el (iht0_match_mask (iht0_group P w) h) d =
      Some (map_option (\<lambda>s. (s, ?f s)) ?found, d')" "iht0_seen ?v hash d'"
    using iht0_scan_result [OF b h wf(2) w path d] by blast
  have step: "iht0_probe_step P Eq b h el (g, d) = (case ?found of
      Some s \<Rightarrow> Some (Inr (Matched (unat g) s (unat (?f s)), d'))
    | None \<Rightarrow> (case iht0_empties P w of [] \<Rightarrow> Some (Inl ((g + 1) AND groups_mask b, d'))
        | s # _ \<Rightarrow> Some (Inr (Vacant (unat g) s, d'))))"
    using w d'(1) mask_slots_Cons [of "iht0_match_empty (iht0_group P w)" "IHT0_MASK_SCALE P"]
    by (auto simp: iht0_probe_step_def base iht0_group_load_eq Let_def iht0_empties_def split: option.splits)
  show ?thesis
  proof (cases ?found)
    case (Some s)
    then show ?thesis using step sp(1) [OF Some] d'(2) by simp
  next
    case None
    note next_group = iht0_next_group [OF b(1) wf(2)]
    show ?thesis
    proof (cases "iht0_empties P w")
      case Nil
      have pass: "scan_ok ?v h ?M (unat g) (Inl (Suc (unat g) mod 2 ^ k))" by (rule sp(3) [OF None Nil])
      have "home (2 ^ k) hash < ngroups ?v" by (simp add: v(1) home_less)
      then have "clear_path ?v (home (2 ^ k) hash) (Suc (unat g) mod 2 ^ k)"
        using clear_path_next [OF path _ _ g] pass v(1) by simp
      then show ?thesis using step None Nil pass next_group d'(2) by simp
    next
      case (Cons s ss)
      then show ?thesis using step None sp(2) [OF None Cons] d'(2) by simp
    qed
  qed
qed

interpretation iht0_loop: probing "\<lambda>(k, Hash, Eq, b, h, el). iht0_probe_step P Eq b h el"
    "\<lambda>(k, Hash, Eq, b, h, el). iht0_probe P Eq b h el"
    "\<lambda>(k, Hash, Eq, b, h, el). iht0_sized k b \<and> view_inv Hash Eq (iht0_view b) \<and> \<not> bit h 7"
    "\<lambda>(k, Hash, Eq, b, h, el). iht0_view b" "\<lambda>(k, Hash, Eq, b, h, el). h"
    "\<lambda>(k, Hash, Eq, b, h, el) e. Eq e el" "\<lambda>(g, d). unat g" fst
    "\<lambda>(k, Hash, Eq, b, h, el) (g, d). clear_path (iht0_view b) (home (2 ^ k) (Hash el)) (unat g) \<and>
       iht0_seen (iht0_view b) (Hash el) d"
    "\<lambda>(k, Hash, Eq, b, h, el) (o', d). iht0_seen (iht0_view b) (Hash el) d" for P
proof (unfold_locales, goal_cases)
  case (1 c s)
  obtain k Hash Eq b h el where c: "c = (k, Hash, Eq, b, h, el)" by (cases c)
  show ?case unfolding c prod.case by (rule iht0_probe.simps)
next
  case (2 c s)
  obtain k Hash Eq b h el where c: "c = (k, Hash, Eq, b, h, el)" by (cases c)
  obtain g d where s: "s = (g, d)" by (cases s)
  show ?case
    using 2 iht0_probe_step_scans [of k b Hash Eq h g "Hash el" d P el] unfolding c s prod.case by simp
qed

lemma iht0_probe_correct:
  assumes hk: "hash_key Hash Eq" and b: "iht0_sized k b" "view_inv Hash Eq (iht0_view b)"
    and room: "unat (els_bound b) < 8 * 2 ^ k"
  shows "\<exists>r d. iht0_probe P Eq b (h7_of (Hash el)) el ((Hash el div IHT0_GROUP_SIZE) AND groups_mask b, NOT 0) = Some (r, d) \<and>
    probe_ok Hash Eq (iht0_view b) el r \<and> iht0_seen (iht0_view b) (Hash el) d"
proof -
  let ?v = "iht0_view b"
  note v = iht0_view_sel [OF b(1)]
  have "clear_path ?v (home (2 ^ k) (Hash el)) (home (2 ^ k) (Hash el))"
    by (rule clear_path_refl) (simp add: v(1) home_less)
  moreover have "iht0_seen ?v (Hash el) (NOT 0)" by (simp add: iht0_seen_def)
  ultimately show ?thesis
    using iht0_loop.probe_correct [OF hk, of "(k, Hash, Eq, b, h7_of (Hash el), el)" el
        "((Hash el div IHT0_GROUP_SIZE) AND groups_mask b, NOT 0)" P] b room iht0_home [OF b(1), of "Hash el"]
    by (auto simp: h7_of_top_clear v)
qed

section \<open>One bin\<close>

lemma iht0_bin_invD:
  assumes "iht0_bin_inv Hash Eq k b"
  shows "iht0_sized k b" "view_inv Hash Eq (iht0_view b)" "unat (els_bound b) < 8 * 2 ^ k"
    "unat (els_bound b) \<le> 4 * 2 ^ k" "k \<le> 30"
  using assms by (auto simp: iht0_bin_inv_def iht0_sized_def intro: le_less_trans)

lemma iht0_view_eqI:
  assumes "iht0_sized k b'"
    and "slot w = sp_slots (2 ^ k) (iht0_arrays b')" "ngroups w = 2 ^ k"
    and "elem w = read_el (els b')" "dead w = del_bit (deleted b')" "bound w = unat (els_bound b')"
  shows "iht0_view b' = w"
  using assms by (intro view.equality) (simp_all add: iht0_view_sel [OF assms(1)])

text \<open>Where the probe ends and, for an absent key, where an insertion puts the element.\<close>

lemma iht0_probe_bin:
  assumes hk: "hash_key Hash Eq" and inv: "iht0_bin_inv Hash Eq k b"
  shows "(\<exists>g s t i x d. g < 2 ^ k \<and> s < 8 \<and> slot (iht0_view b) g s = Full t i \<and> live (iht0_view b) i \<and>
      elem (iht0_view b) i = Some x \<and> Eq x el \<and>
      iht0_probe P Eq b (h7_of (Hash el)) el ((Hash el div IHT0_GROUP_SIZE) AND groups_mask b, NOT 0)
        = Some (Matched g s i, d)) \<or>
    (\<forall>x \<in> set (contents (iht0_view b)). \<not> Eq x el) \<and>
    (\<exists>g0 s0 d g s. iht0_probe P Eq b (h7_of (Hash el)) el ((Hash el div IHT0_GROUP_SIZE) AND groups_mask b, NOT 0)
        = Some (Vacant g0 s0, d) \<and>
      g < 2 ^ k \<and> s < 8 \<and> unat (if d \<noteq> NOT 0 then d else iht0_slot (of_nat g0) s0) = 8 * g + s \<and>
      slot (iht0_view b) g s \<in> {Empty, Tomb} \<and> clear_path (iht0_view b) (home (2 ^ k) (Hash el)) g)"
proof -
  note i = iht0_bin_invD [OF inv]
  note v = iht0_view_sel [OF i(1)]
  obtain r d where r: "iht0_probe P Eq b (h7_of (Hash el)) el ((Hash el div IHT0_GROUP_SIZE) AND groups_mask b, NOT 0)
      = Some (r, d)" "probe_ok Hash Eq (iht0_view b) el r" "iht0_seen (iht0_view b) (Hash el) d"
    using iht0_probe_correct [OF hk i(1-3)] by blast
  show ?thesis
  proof (cases r)
    case (Matched g s i')
    then show ?thesis
      using r view_inv_full [OF i(2), of g s _ i'] v(1) unfolding Matched probe_ok.simps by metis
  next
    case (Vacant g0 s0)
    have g0: "g0 < 2 ^ k" "s0 < 8" "slot (iht0_view b) g0 s0 = Empty"
        "clear_path (iht0_view b) (home (2 ^ k) (Hash el)) g0"
        "\<forall>x \<in> set (contents (iht0_view b)). \<not> Eq x el"
      using r(2) Vacant v(1) in_contents_iff [OF i(2)] by auto
    have "unat (of_nat g0 :: u64) = g0" using g0(1) pow2_le_30 [OF i(5)] by (simp add: unat_of_nat_less)
    then have "unat (iht0_slot (of_nat g0) s0) = 8 * g0 + s0"
      using iht0_slot_eq(1) [of "of_nat g0" s0] g0 pow2_le_30 [OF i(5)] by simp
    then have "\<exists>g s. g < 2 ^ k \<and> s < 8 \<and> unat (if d \<noteq> NOT 0 then d else iht0_slot (of_nat g0) s0) = 8 * g + s \<and>
        slot (iht0_view b) g s \<in> {Empty, Tomb} \<and> clear_path (iht0_view b) (home (2 ^ k) (Hash el)) g"
      using r(3) g0 v(1) unfolding iht0_seen_def by (cases "d = NOT 0") auto
    then show ?thesis using r(1) Vacant g0(5) by blast
  qed
qed

lemma iht0_do_1_present:
  assumes hk: "hash_key Hash Eq" and inv: "iht0_bin_inv Hash Eq k b"
    and y: "y \<in> set (contents (iht0_view b))" "Eq y el"
  shows "\<exists>i x. live (iht0_view b) i \<and> elem (iht0_view b) i = Some x \<and> Eq x el \<and>
    (\<forall>a. a \<noteq> IHT_DELETE \<longrightarrow> iht0_do_1 P Hash Eq num b el a = Some (True, Some i, num, b)) \<and>
    (\<exists>b'. iht0_do_1 P Hash Eq num b el IHT_DELETE = Some (True, None, num - 1, b') \<and>
      iht0_bin_inv Hash Eq k b' \<and> els_bound b' = els_bound b \<and>
      contents (iht0_view b') = filter (\<lambda>x. \<not> Eq x el) (contents (iht0_view b)))"
proof -
  note d = iht0_bin_invD [OF inv]
  note v = iht0_view_sel [OF d(1)]
  obtain g s t i x fds where r: "g < 2 ^ k" "s < 8" "slot (iht0_view b) g s = Full t i" "live (iht0_view b) i"
      "elem (iht0_view b) i = Some x" "Eq x el"
      "iht0_probe P Eq b (h7_of (Hash el)) el ((Hash el div IHT0_GROUP_SIZE) AND groups_mask b, NOT 0) =
        Some (Matched g s i, fds)"
    using iht0_probe_bin [OF hk inv, of el P] y by blast
  let ?w = "view_kill g s i (iht0_view b)"
  have "i < 4 * 2 ^ k" using r(4) d(4) by (simp add: live_def v)
  then have "i div 8 < length (deleted b)" using d(1) by (auto simp: iht0_sized_def)
  then obtain ds where ds: "del_set (deleted b) i = Some ds" by (simp add: del_set_def)
  obtain m where m: "sp_kill (iht0_arrays b) g s = Some m" "sp_wf (2 ^ k) m" "sp_slots (2 ^ k) m = slot ?w"
    using sp32.kill_view [OF _ r(1-3)] d(1) v(1,2) unfolding sp_slots_def iht0_sized_def by blast
  obtain ix where ix: "write_el (indexes b) (8 * g + s) (- 1) = Some ix" "m = (h7 b, ix)"
    using m(1) by (auto simp: sp_kill_def bind_eq_Some_conv)
  let ?b = "b\<lparr>deleted := ds, indexes := ix\<rparr>"
  have sized: "iht0_sized k ?b"
    using d(1) m(2) ix(2) del_set_props(1) [OF ds] by (simp add: iht0_sized_def)
  have view: "iht0_view ?b = ?w"
    by (rule iht0_view_eqI [OF sized])
      (use m(3) ix(2) in \<open>auto simp: v view_simps fun_eq_iff del_set_props(2) [OF ds]\<close>)
  have "unat (of_nat g :: u64) = g" using r(1) pow2_le_30 [OF d(5)] by (simp add: unat_of_nat_less)
  then have base: "unat (iht0_slot (of_nat g) s) = 8 * g + s"
    using iht0_slot_eq(1) [of "of_nat g" s] r(1,2) pow2_le_30 [OF d(5)] by simp
  have "iht0_do_1 P Hash Eq num b el IHT_DELETE = Some (True, None, num - 1, ?b)"
    using r(7) ds ix(1) by (simp add: iht0_do_1_def Let_def base IHT0_INDEX_DELETED_def)
  moreover have "iht0_bin_inv Hash Eq k ?b"
    using view_kill_inv [OF d(2) _ r(2,3)] r(1) v(1) sized view d(4) by (simp add: iht0_bin_inv_def)
  moreover have "contents (iht0_view ?b) = filter (\<lambda>x. \<not> Eq x el) (contents (iht0_view b))"
    unfolding view by (rule contents_kill [OF hk d(2) r(4-6)])
  moreover have "iht0_do_1 P Hash Eq num b el a = Some (True, Some i, num, b)" if "a \<noteq> IHT_DELETE" for a
    using r(7) that by (simp add: iht0_do_1_def Let_def)
  ultimately show ?thesis using r(4-6) by auto
qed

lemma iht0_put_bin:
  assumes inv: "iht0_bin_inv Hash Eq k b" and at: "g < 2 ^ k" "s < 8" and h: "\<not> bit h 7"
    and room: "unat (els_bound b) < 4 * 2 ^ k - 1"
  shows "\<exists>hs ix xs. store_bytes (h7 b) (8 * g + s) [h] = Some hs \<and>
    write_el (indexes b) (8 * g + s) (ucast (els_bound b) :: u32) = Some ix \<and>
    write_el (els b) (unat (els_bound b)) e = Some xs \<and>
    unat (els_bound b + 1) = Suc (unat (els_bound b)) \<and>
    iht0_sized k (b\<lparr>h7 := hs, indexes := ix, els_bound := els_bound b + 1, els := xs\<rparr>) \<and>
    iht0_view (b\<lparr>h7 := hs, indexes := ix, els_bound := els_bound b + 1, els := xs\<rparr>) =
      view_put g s h e (iht0_view b)"
proof -
  note d = iht0_bin_invD [OF inv]
  note v = iht0_view_sel [OF d(1)]
  let ?w = "view_put g s h e (iht0_view b)"
  have small: "unat (els_bound b) < 2 ^ 32 - 1" using room pow2_le_30 [OF d(5)] by simp
  obtain m where m: "sp_fill (iht0_arrays b) g s h (bound (iht0_view b)) = Some m"
      "sp_wf (2 ^ k) m" "sp_slots (2 ^ k) m = slot ?w"
    using sp32.fill_view [OF _ at h, of "iht0_arrays b" "iht0_view b" e] d(1) v small
    unfolding sp_slots_def iht0_sized_def by auto
  have "(of_nat (unat (els_bound b)) :: u32) = ucast (els_bound b)" by simp
  then obtain hs ix where st: "store_bytes (h7 b) (8 * g + s) [h] = Some hs"
      "write_el (indexes b) (8 * g + s) (ucast (els_bound b) :: u32) = Some ix" "m = (hs, ix)"
    using m(1) by (auto simp: sp_fill_def v bind_eq_Some_conv)
  obtain xs where xs: "write_el (els b) (unat (els_bound b)) e = Some xs"
    using less_le_trans [OF room diff_le_self] d(1) by (simp add: write_el_def iht0_sized_def)
  let ?b = "b\<lparr>h7 := hs, indexes := ix, els_bound := els_bound b + 1, els := xs\<rparr>"
  have bound: "unat (els_bound b + 1) = Suc (unat (els_bound b))"
    using small by (subst unat_add_less) simp_all
  have sized: "iht0_sized k ?b"
    using d(1) m(2) st(3) length_write_el [OF xs] by (simp add: iht0_sized_def)
  have "iht0_view ?b = ?w"
    by (rule iht0_view_eqI [OF sized])
      (use m(3) st(3) in \<open>auto simp: v view_simps fun_eq_iff bound read_write_el [OF xs]\<close>)
  then show ?thesis using st(1,2) xs bound sized by blast
qed

lemma iht0_do_1_absent:
  assumes hk: "hash_key Hash Eq" and inv: "iht0_bin_inv Hash Eq k b"
    and absent: "\<forall>x \<in> set (contents (iht0_view b)). \<not> Eq x el"
  shows "a < IHT_INSERT \<Longrightarrow> iht0_do_1 P Hash Eq num b el a = Some (False, None, num, b)"
    and "unat (els_bound b) < 4 * 2 ^ k - 1 \<Longrightarrow>
      \<exists>b' xs. iht0_do_1 P Hash Eq num b el IHT_INSERT = Some (False, Some (unat (els_bound b)), num + 1, b') \<and>
        write_el (els b') (unat (els_bound b)) el = Some xs \<and>
        iht0_bin_inv Hash Eq k (b'\<lparr>els := xs\<rparr>) \<and> unat (els_bound (b'\<lparr>els := xs\<rparr>)) = Suc (unat (els_bound b)) \<and>
        contents (iht0_view (b'\<lparr>els := xs\<rparr>)) = contents (iht0_view b) @ [el]"
proof -
  note d = iht0_bin_invD [OF inv]
  note v = iht0_view_sel [OF d(1)]
  obtain g0 s0 fds g s where r:
      "iht0_probe P Eq b (h7_of (Hash el)) el ((Hash el div IHT0_GROUP_SIZE) AND groups_mask b, NOT 0)
        = Some (Vacant g0 s0, fds)"
      "g < 2 ^ k" "s < 8" "unat (if fds \<noteq> NOT 0 then fds else iht0_slot (of_nat g0) s0) = 8 * g + s"
      "slot (iht0_view b) g s \<in> {Empty, Tomb}" "clear_path (iht0_view b) (home (2 ^ k) (Hash el)) g"
    using iht0_probe_bin [OF hk inv, of el P] absent in_contents_iff [OF d(2)] by blast
  show "iht0_do_1 P Hash Eq num b el a = Some (False, None, num, b)" if "a < IHT_INSERT"
    using r(1) that by (simp add: iht0_do_1_def Let_def flip: not_less)
  assume room: "unat (els_bound b) < 4 * 2 ^ k - 1"
  let ?w = "view_put g s (h7_of (Hash el)) el (iht0_view b)"
  obtain hs ix xs where p: "store_bytes (h7 b) (8 * g + s) [h7_of (Hash el)] = Some hs"
      "write_el (indexes b) (8 * g + s) (ucast (els_bound b) :: u32) = Some ix"
      "write_el (els b) (unat (els_bound b)) el = Some xs"
      "unat (els_bound b + 1) = Suc (unat (els_bound b))"
      "iht0_sized k (b\<lparr>h7 := hs, indexes := ix, els_bound := els_bound b + 1, els := xs\<rparr>)"
      "iht0_view (b\<lparr>h7 := hs, indexes := ix, els_bound := els_bound b + 1, els := xs\<rparr>) = ?w"
    using iht0_put_bin [OF inv r(2,3) h7_of_top_clear room] by blast
  let ?b = "b\<lparr>h7 := hs, indexes := ix, els_bound := els_bound b + 1\<rparr>"
  have "view_inv Hash Eq ?w"
  proof (rule view_put_inv [OF hk d(2)])
    show "\<not> Eq x el" if "live (iht0_view b) i" "elem (iht0_view b) i = Some x" for i x
      using absent in_contents_iff [OF d(2)] that by blast
  qed (use r v in auto)
  moreover have "contents ?w = contents (iht0_view b) @ [el]"
    using view_inv_dead [OF d(2)] by (intro contents_put) simp
  moreover have "iht0_do_1 P Hash Eq num b el IHT_INSERT = Some (False, Some (unat (els_bound b)), num + 1, ?b)"
    using r(1,4) p(1,2) by (simp add: iht0_do_1_def Let_def)
  ultimately show "\<exists>b' xs.
      iht0_do_1 P Hash Eq num b el IHT_INSERT = Some (False, Some (unat (els_bound b)), num + 1, b') \<and>
      write_el (els b') (unat (els_bound b)) el = Some xs \<and> iht0_bin_inv Hash Eq k (b'\<lparr>els := xs\<rparr>) \<and>
      unat (els_bound (b'\<lparr>els := xs\<rparr>)) = Suc (unat (els_bound b)) \<and>
      contents (iht0_view (b'\<lparr>els := xs\<rparr>)) = contents (iht0_view b) @ [el]"
    using p(3-6) less_le_trans [OF room diff_le_self] by (intro exI [of _ ?b] exI [of _ xs]) (simp add: iht0_bin_inv_def)
qed

lemma iht0_set_el:
  assumes hk: "hash_key Hash Eq" and inv: "iht0_bin_inv Hash Eq k b"
    and i: "live (iht0_view b) i" "elem (iht0_view b) i = Some x" "Eq x e" and xs: "write_el (els b) i e = Some xs"
  shows "iht0_bin_inv Hash Eq k (b\<lparr>els := xs\<rparr>) \<and> iht0_view (b\<lparr>els := xs\<rparr>) = view_set i e (iht0_view b)"
proof -
  note d = iht0_bin_invD [OF inv]
  note v = iht0_view_sel [OF d(1)]
  have sized: "iht0_sized k (b\<lparr>els := xs\<rparr>)" using d(1) length_write_el [OF xs] by (simp add: iht0_sized_def)
  have view: "iht0_view (b\<lparr>els := xs\<rparr>) = view_set i e (iht0_view b)"
    by (rule iht0_view_eqI [OF sized]) (auto simp: v view_simps fun_eq_iff read_write_el [OF xs])
  then show ?thesis using view_set_inv [OF hk d(2) i] sized d(4) by (simp add: iht0_bin_inv_def)
qed

end
