(* ===== verification/Ihtab_v0_Table.thy ===== *)
theory Ihtab_v0_Table
  imports Ihtab_v0_Correct
begin

text \<open>
  The whole table of \<open>ihtab-v0.h\<close>: its bin interprets \<open>flat_bin\<close> and its operations \<open>flat_table\<close>,
  on every platform, so that everything proved of a table with one bin holds of it as well.
\<close>

lemmas iht0_consts = IHT0_GROUP_SIZE_def IHT0_EMPTY_H7_def IHT0_LF_FACTOR_def IHT0_LF_DIVISOR_def

section \<open>Allocation\<close>

lemma iht0_new_bin_empty:
  fixes Hash :: "'e \<Rightarrow> u64"
  assumes k: "k \<le> 30"
  shows "\<exists>b. iht0_new_bin (8 * 2 ^ k) (4 * 2 ^ k) = Some b \<and> iht0_bin_inv Hash Eq k b \<and> els_bound b = 0 \<and>
    contents (iht0_view b) = []"
proof -
  note z = table_sizes [OF k]
  let ?ix = "replicate (8 * 2 ^ k) (None :: u32 option)"
  obtain h where h: "store_bytes (replicate (8 * 2 ^ k) None) 0 (replicate (8 * 2 ^ k) 0x80) = Some h"
      "sp_wf (2 ^ k) (h, ?ix)" "\<forall>g < 2 ^ k. \<forall>s < 8. sp_slot (h, ?ix) g s = Empty"
    using sp_cleared [of "replicate (8 * 2 ^ k) None" "2 ^ k" ?ix] by auto
  let ?b = "\<lparr>els_bound = 0, els = replicate (4 * 2 ^ k) (None :: 'e option),
    deleted = replicate ((4 * 2 ^ k + 7) div 8) 0, h7 = h, indexes = ?ix, groups_mask = 2 ^ k - 1\<rparr>"
  have new: "iht0_new_bin (8 * 2 ^ k) (4 * 2 ^ k) = Some ?b"
    using h(1) by (simp add: iht0_new_bin_def Let_def iht0_consts z)
  have sized: "iht0_sized k ?b" using k h(2) by (simp add: iht0_sized_def)
  note v = iht0_view_sel [OF sized]
  have "view_inv Hash Eq (iht0_view ?b) \<and> contents (iht0_view ?b) = []"
    using h(3) by (intro conjI view_empty_inv) (simp_all add: v sp_slots_def)
  then show ?thesis using new sized by (simp add: iht0_bin_inv_def)
qed

section \<open>The table as an instance of the interfaces\<close>

interpretation iht0_bin: flat_bin Hash Eq "iht0_do_1 P Hash Eq" iht0_new_bin els "\<lambda>xs b. b\<lparr>els := xs\<rparr>" deleted els_bound
    groups_mask iht0_view "iht0_bin_inv Hash Eq" for P Hash Eq
proof (unfold_locales, goal_cases)
  case (1 k b)
  then show ?case using iht0_bin_invD [OF 1] by (simp add: iht0_view_sel)
next
  case (2 k b)
  then show ?case using iht0_bin_invD [OF 2] by (simp add: iht0_sized_def)
next
  case (3 k)
  then show ?case by (rule iht0_new_bin_empty)
next
  case (4 k b y el num)
  then show ?case by (rule iht0_do_1_present)
next
  case (5 k b el a num)
  then show ?case by (rule iht0_do_1_absent(1))
next
  case (6 k b el num)
  then show ?case using iht0_do_1_absent(2) [OF 6, of P num] by blast
next
  case (7 k b i x e xs)
  then show ?case by (rule iht0_set_el)
qed

interpretation iht0_flat: flat_table Hash Eq "iht0_do_1 P Hash Eq" iht0_new_bin els "\<lambda>xs b. b\<lparr>els := xs\<rparr>" deleted els_bound
    groups_mask iht0_view "iht0_bin_inv Hash Eq" "iht0_reinsert P Hash Eq" "iht0_rebuild P Hash Eq"
    "\<lambda>a t e. iht0_perform P Hash Eq t e a" iht0_store iht0_load iht0_iter_advance for P Hash Eq
proof (unfold_locales, goal_cases)
  case (2 old i "is" num rb)
  show ?case
    by (simp add: iht0_bin.add_el_def split: Option.bind_split prod.split)
next
  case (3 t)
  show ?case by (simp add: iht0_rebuild_def iht0_rebuild_size_def iht0_consts Let_def)
next
  case (4 a t e)
  show ?case by (simp add: iht0_perform_def iht0_consts Let_def)
next
  case (7 t it)
  show ?case by (rule iht0_iter_advance.simps)
qed (simp_all add: iht0_store_def iht0_load_def)

abbreviation iht0_abs :: "'e iht0 \<Rightarrow> 'e list" where
  "iht0_abs \<equiv> flat_abs iht0_view"

abbreviation iht0_inv :: "('e \<Rightarrow> u64) \<Rightarrow> ('e \<Rightarrow> 'e \<Rightarrow> bool) \<Rightarrow> nat \<Rightarrow> 'e iht0 \<Rightarrow> bool" where
  "iht0_inv Hash Eq \<equiv> flat_inv (iht0_bin_inv Hash Eq) iht0_view"

lemmas iht0_invD = iht0_flat.tab_invD

lemma iht0_step_eq: "iht0_step P Hash Eq = client_step (\<lambda>t e. iht0_perform P Hash Eq t e IHT_FIND)
     (\<lambda>t e. iht0_perform P Hash Eq t e IHT_DELETE) (\<lambda>t e. iht0_perform P Hash Eq t e IHT_INSERT) iht0_store iht0_load"
  by (simp add: iht0_step_def)

lemma iht0_run_refines:
  assumes "hash_key Hash Eq" "iht0_inv Hash Eq k t" "length (iht0_abs t) + length cs \<le> 2 ^ 31"
  shows "\<exists>t' k'. run_cmds (iht0_step P Hash Eq) t cs = Some (fst (spec_run Eq (iht0_abs t) cs), t') \<and>
    iht0_inv Hash Eq k' t' \<and> iht0_abs t' = snd (spec_run Eq (iht0_abs t) cs)"
  using iht0_flat.dict.run_refines [of Hash Eq t cs P] assms unfolding iht0_step_eq by blast

lemma iht0_iterate_correct: "iht0_inv Hash Eq k t \<Longrightarrow> iht0_iterate t = Some (iht0_abs t)"
  using iht0_flat.iterate_correct [of Hash Eq k t]
  by (simp add: iht0_iterate_def iht0_iter_begin_def iht0_iter_valid_def [abs_def] iht0_iter_next_def [abs_def])

section \<open>Creation\<close>

lemma iht0_create_correct:
  assumes "unat min_size \<le> 2 ^ 32"
  shows "\<exists>t k. iht0_create min_size = Some t \<and> iht0_inv Hash Eq k t \<and> iht0_abs t = [] \<and>
    unat min_size \<le> 4 * 2 ^ k \<and> (k = 0 \<or> 4 * 2 ^ (k - 1) < unat min_size)"
proof -
  obtain k where k: "k \<le> 30" "unat min_size \<le> 4 * 2 ^ k" "k = 0 \<or> 4 * 2 ^ (k - 1) < unat min_size"
    using table_power [OF assms] by blast
  have "iht0_create_size min_size (8 * 2 ^ 0) = Some (8 * 2 ^ k)"
    by (rule size_loop_runs [where min_size = min_size]) (use k in \<open>auto simp: iht0_create_size.simps iht0_consts\<close>)
  moreover obtain b where b: "iht0_new_bin (8 * 2 ^ k) (4 * 2 ^ k) = Some b" "iht0_bin_inv Hash Eq k b"
      "els_bound b = 0" "contents (iht0_view b) = []"
    using iht0_new_bin_empty [OF k(1)] by blast
  ultimately have "iht0_create min_size = Some \<lparr>els_num = 0, bin = b\<rparr>"
    using table_sizes(3) [OF k(1)] by (simp add: iht0_create_def iht0_consts Let_def)
  then show ?thesis using k iht0_flat.new_table [OF b(2-4)] by blast
qed

lemma iht0_size_eq:
  assumes "iht0_inv Hash Eq k t"
  shows "unat (iht0_size t) = 4 * 2 ^ k"
proof -
  note d = iht0_invD [OF assms]
  have "iht0_size t = 4 * 2 ^ k"
    using table_sizes(3) [OF d(5)] by (simp add: iht0_size_def d(6) iht0_consts mult.commute)
  then show ?thesis using table_sizes(2) [OF d(5)] by simp
qed

end
