(* ===== verification/Ihtab_v0_Props.thy ===== *)
theory Ihtab_v0_Props
  imports Ihtab_Table Ihtab_v0_Table Test_Client
begin

text \<open>The properties of the table of \<open>ihtab-v0.h\<close>, alone and beside the table of \<open>ihtab.h\<close>.\<close>

lemma small_table0:
  "\<exists>t k. iht0_create 8 = Some t \<and> iht0_inv entry_hash entry_eq k t \<and> iht0_abs t = []"
  using iht0_create_correct [of 8 entry_hash entry_eq] by auto

text \<open>
  C19. A table of \<open>ihtab-v0.h\<close> created for any size up to \<open>2 ^ 32\<close> answers every sequence of up to
  \<open>2 ^ 31\<close> insert, replace, remove and find commands as the list of elements in insertion order
  does, on every platform, although it reuses the slots of deleted elements. Afterwards the
  iterator visits exactly that list in that order, and the counter is its length.\<close>
theorem iht0_client_run:
  assumes "hash_key Hash Eq" "unat min_size \<le> 2 ^ 32" "length cs \<le> 2 ^ 31"
  shows "\<exists>t t'. iht0_create min_size = Some t \<and>
    run_cmds (iht0_step P Hash Eq) t cs = Some (fst (spec_run Eq [] cs), t') \<and>
    iht0_iterate t' = Some (snd (spec_run Eq [] cs)) \<and>
    unat (iht0_els_count t') = length (snd (spec_run Eq [] cs))"
proof -
  obtain t k where t: "iht0_create min_size = Some t" "iht0_inv Hash Eq k t" "iht0_abs t = []"
    using iht0_create_correct [OF assms(2)] by blast
  obtain t' k' where "run_cmds (iht0_step P Hash Eq) t cs = Some (fst (spec_run Eq [] cs), t')"
      "iht0_inv Hash Eq k' t'" "iht0_abs t' = snd (spec_run Eq [] cs)"
    using iht0_run_refines [OF assms(1) t(2), of cs P] t assms(3) by auto
  then show ?thesis
    using t(1) iht0_iterate_correct [of Hash Eq k' t'] iht0_invD(3) [of Hash Eq k' t']
    by (auto simp: iht0_els_count_def)
qed

theorem iht0_client_run_witness:
  "\<exists>t t'. iht0_create 8 = Some t \<and>
    run_cmds (iht0_step SWAR entry_hash entry_eq) t entry_cmds =
      Some ([Flag False, Flag False, Flag True, Got (Some (mk_entry 42 100)), Flag True, Got None, Flag True], t') \<and>
    iht0_iterate t' = Some [mk_entry 7 2] \<and> unat (iht0_els_count t') = 1"
  using iht0_client_run [OF entry.hash_key_axioms, of 8 entry_cmds SWAR] by (simp add: entry_cmds_spec)

text \<open>
  C20. The two versions of the table are interchangeable: from tables that hold the same elements
  in the same order, \<open>ihtab-v0.h\<close> with its separate tag and index arrays and reused slots, and
  \<open>ihtab.h\<close> with its interleaved groups and permanent tombstones, on whatever platforms, give the
  same replies to every sequence of commands and then iterate over the same elements.\<close>
theorem iht0_same_as_v1:
  assumes "hash_key Hash Eq" "iht_inv Hash Eq k t" "iht0_inv Hash Eq k0 t0" "iht0_abs t0 = iht_abs t"
    and "length (iht_abs t) + length cs \<le> 2 ^ 31"
  shows "\<exists>rs t' t0' xs. run_cmds (iht_step P Hash Eq) t cs = Some (rs, t') \<and>
    run_cmds (iht0_step P0 Hash Eq) t0 cs = Some (rs, t0') \<and>
    iht_iterate t' = Some xs \<and> iht0_iterate t0' = Some xs \<and> iht_els_count t' = iht0_els_count t0'"
proof -
  obtain t' k' where t': "run_cmds (iht_step P Hash Eq) t cs = Some (fst (spec_run Eq (iht_abs t) cs), t')"
      "iht_inv Hash Eq k' t'" "iht_abs t' = snd (spec_run Eq (iht_abs t) cs)"
    using iht_run_refines [OF assms(1,2,5)] by blast
  obtain t0' k0' where t0': "run_cmds (iht0_step P0 Hash Eq) t0 cs = Some (fst (spec_run Eq (iht_abs t) cs), t0')"
      "iht0_inv Hash Eq k0' t0'" "iht0_abs t0' = snd (spec_run Eq (iht_abs t) cs)"
    using iht0_run_refines [OF assms(1,3), of cs P0] assms(4,5) by auto
  have "unat (iht_els_count t') = unat (iht0_els_count t0')"
    using iht_invD(3) [OF t'(2)] iht0_invD(3) [OF t0'(2)] t'(3) t0'(3)
    by (simp add: iht_els_count_def iht0_els_count_def)
  then show ?thesis
    using t' t0' iht_iterate_correct [OF t'(2)] iht0_iterate_correct [OF t0'(2)]
    by (intro exI conjI) (auto simp: word_unat_eq_iff)
qed

theorem iht0_same_as_v1_witness:
  "\<exists>t t0 rs t' t0' xs. iht_create 8 = Some t \<and> iht0_create 8 = Some t0 \<and>
    run_cmds (iht_step X86_SSE2 entry_hash entry_eq) t entry_cmds = Some (rs, t') \<and>
    run_cmds (iht0_step SWAR entry_hash entry_eq) t0 entry_cmds = Some (rs, t0') \<and>
    iht_iterate t' = Some xs \<and> iht0_iterate t0' = Some xs"
proof -
  obtain t k where t: "iht_create 8 = Some t" "iht_inv entry_hash entry_eq k t" "iht_abs t = []"
    using iht_create_correct [of 8 entry_hash entry_eq] by auto
  obtain t0 k0 where t0: "iht0_create 8 = Some t0" "iht0_inv entry_hash entry_eq k0 t0" "iht0_abs t0 = []"
    using small_table0 by blast
  show ?thesis
    using iht0_same_as_v1 [OF entry.hash_key_axioms t(2) t0(2), of entry_cmds X86_SSE2 SWAR] t t0
    by (fastforce simp: entry_cmds_spec)
qed

text \<open>
  C21. The probe loop \<open>for (;;)\<close> of \<open>ihtab-v0.h\<close> ends on every bin that satisfies the invariant. It
  ends at a live element equal to the key if the bin stores one. Otherwise it ends at an empty
  slot; the slot an insertion then writes, the remembered tombstone if there is one, lies within
  the arrays and holds no element, and no group before it on the probe path has an empty slot.\<close>
theorem iht0_probe_ends:
  assumes "hash_key Hash Eq" "iht0_bin_inv Hash Eq k b"
  shows "(\<exists>g s t i x fds. g < 2 ^ k \<and> s < 8 \<and> slot (iht0_view b) g s = Full t i \<and> live (iht0_view b) i \<and>
      elem (iht0_view b) i = Some x \<and> Eq x el \<and>
      iht0_probe P Eq b (h7_of (Hash el)) el ((Hash el div IHT0_GROUP_SIZE) AND groups_mask b, NOT 0) =
        Some (Matched g s i, fds)) \<or>
    (\<forall>x \<in> set (contents (iht0_view b)). \<not> Eq x el) \<and>
    (\<exists>g0 s0 fds g s.
      iht0_probe P Eq b (h7_of (Hash el)) el ((Hash el div IHT0_GROUP_SIZE) AND groups_mask b, NOT 0) =
        Some (Vacant g0 s0, fds) \<and>
      g < 2 ^ k \<and> s < 8 \<and> unat (if fds \<noteq> NOT 0 then fds else iht0_slot (of_nat g0) s0) = 8 * g + s \<and>
      slot (iht0_view b) g s \<in> {Empty, Tomb} \<and> clear_path (iht0_view b) (home (2 ^ k) (Hash el)) g)"
  using iht0_probe_bin [OF assms, of el P] in_contents_iff [OF iht0_bin_invD(2) [OF assms(2)]] by blast

theorem iht0_probe_ends_witness:
  "\<exists>t g0 s0 fds. iht0_create 8 = Some t \<and>
    iht0_probe SWAR entry_eq (bin t) (h7_of (entry_hash (mk_entry 5 5))) (mk_entry 5 5)
      ((entry_hash (mk_entry 5 5) div IHT0_GROUP_SIZE) AND groups_mask (bin t), NOT 0) = Some (Vacant g0 s0, fds)"
proof -
  obtain t k where t: "iht0_create 8 = Some t" "iht0_inv entry_hash entry_eq k t" "iht0_abs t = []"
    using small_table0 by blast
  note inv = iht0_invD(1) [OF t(2)]
  have "\<not> live (iht0_view (bin t)) i" for i
    using t(3) iht0_bin_invD(2) [OF inv] live_elem in_contents_iff
    by (metis emptyE empty_set flat_abs_def)
  then show ?thesis
    using iht0_probe_ends [OF entry.hash_key_axioms inv, of "mk_entry 5 5" SWAR] t(1) by blast
qed

text \<open>
  C22. \<open>iht0_rebuild\<close> keeps every stored element and their order, drops the cells of deleted ones,
  doubles the table exactly when at least a quarter of the slots are live, and leaves at least two
  free element cells.\<close>
theorem iht0_rebuild_keeps:
  assumes "hash_key Hash Eq" "iht0_inv Hash Eq k t" "length (iht0_abs t) < 2 ^ 31"
  shows "\<exists>t' k'. iht0_rebuild P Hash Eq t = Some t' \<and> iht0_inv Hash Eq k' t' \<and> iht0_abs t' = iht0_abs t \<and>
    k' = (if 2 * 2 ^ k \<le> length (iht0_abs t) then Suc k else k) \<and>
    unat (els_bound (bin t')) = length (iht0_abs t) \<and> unat (els_bound (bin t')) < 4 * 2 ^ k' - 1"
  by (rule iht0_flat.rebuild_correct [OF assms])

theorem iht0_rebuild_keeps_witness:
  "\<exists>t t' k'. iht0_create 8 = Some t \<and> iht0_rebuild SWAR entry_hash entry_eq t = Some t' \<and>
    iht0_inv entry_hash entry_eq k' t' \<and> iht0_abs t' = []"
proof -
  obtain t k where t: "iht0_create 8 = Some t" "iht0_inv entry_hash entry_eq k t" "iht0_abs t = []"
    using small_table0 by blast
  show ?thesis using iht0_rebuild_keeps [OF entry.hash_key_axioms t(2), of SWAR] t by auto
qed

end
