(* ===== verification/Ihtab_v0_hpp.thy ===== *)
theory Ihtab_v0_hpp
  imports Ihtab_v0_Table Forward_Iter
begin

text \<open>
  The C++ table of \<open>ihtab-v0.hpp\<close>, the first version of the class \<open>ihtab\<close>, with the records of the
  model of \<open>ihtab-v0.h\<close>, whose structures have the same fields. Names carry a zero, \<open>ihtab0_\<close>. Every
  method is shown to compute what the C function of the same purpose does, and the range-based \<open>for\<close>
  to visit the elements.
\<close>

section \<open>Constants and group scans\<close>

definition ihtab0_GROUP_SIZE :: u64 where "ihtab0_GROUP_SIZE = 8"

definition ihtab0_EMPTY_H7 :: u8 where "ihtab0_EMPTY_H7 = 0x80"

definition ihtab0_INDEX_DELETED :: u32 where "ihtab0_INDEX_DELETED = NOT 0"

definition ihtab0_LF_FACTOR :: u64 where "ihtab0_LF_FACTOR = 1"

definition ihtab0_LF_DIVISOR :: u64 where "ihtab0_LF_DIVISOR = 2"

definition ihtab0_mask_scale :: "platform \<Rightarrow> bool" where
  "ihtab0_mask_scale P \<longleftrightarrow> P = SWAR"

definition ihtab0_EMPTY_MASK :: "128 word" where "ihtab0_EMPTY_MASK = mm_set1_epi8 0x80"

definition ihtab0_group_load :: "platform \<Rightarrow> cells \<Rightarrow> nat \<Rightarrow> group_t option" where
  "ihtab0_group_load P m p = map_option (\<lambda>g.
     case P of
       X86_SSE2 \<Rightarrow> SSE2_group (mm_cvtsi64_si128 g)
     | AARCH64_NEON \<Rightarrow> NEON_group g
     | SWAR \<Rightarrow> SWAR_group g) (load_word m p)"

fun ihtab0_match_mask :: "group_t \<Rightarrow> u8 \<Rightarrow> u64" where
  "ihtab0_match_mask (SSE2_group g) h7_val =
     (let h7_vec = mm_set1_epi8 h7_val
      in ucast (mm_movemask_epi8 (mm_cmpeq_epi8 g h7_vec)) AND 0xff)"
| "ihtab0_match_mask (NEON_group g) h7_val =
     (let group = vcreate_u8 g;
          match_eq = vceq_u8 group (vdup_n_u8 h7_val)
      in ucast (vaddv_u8 (vand_u8 match_eq [1, 2, 4, 8, 16, 32, 64, 128])))"
| "ihtab0_match_mask (SWAR_group g) h7_val =
     (let cmp = g XOR (SWAR_LSB * ucast h7_val)
      in (cmp - SWAR_LSB) AND NOT cmp AND SWAR_MSB)"

fun ihtab0_match_empty :: "group_t \<Rightarrow> u64" where
  "ihtab0_match_empty (SSE2_group g) =
     ucast (mm_movemask_epi8 (mm_and_si128 g ihtab0_EMPTY_MASK)) AND 0xff"
| "ihtab0_match_empty (NEON_group g) = ihtab0_match_mask (NEON_group g) ihtab0_EMPTY_H7"
| "ihtab0_match_empty (SWAR_group g) = g AND SWAR_MSB"

section \<open>State\<close>

type_synonym 'e hbin0_t = "'e hbin_iht0"
type_synonym 'e ihtab0 = "'e hbin0_t bin_table"
type_synonym ihtab0_iter = iht_iter

definition ihtab0_destroy_bin :: "'e hbin0_t \<Rightarrow> 'e hbin0_t" where
  "ihtab0_destroy_bin b = b\<lparr>els := [], deleted := [], h7 := [], indexes := []\<rparr>"

definition ihtab0_destructor :: "'e ihtab0 \<Rightarrow> 'e ihtab0" where
  "ihtab0_destructor t = t\<lparr>bin := (bin t)\<lparr>els := [], deleted := [], h7 := [], indexes := []\<rparr>\<rparr>"

section \<open>Find, insert and delete in one bin\<close>

definition ihtab0_slot :: "u64 \<Rightarrow> nat \<Rightarrow> u64" where
  "ihtab0_slot group_ind slot_bit = group_ind * ihtab0_GROUP_SIZE + of_nat slot_bit"

text \<open>
  The inner \<open>while (mmask)\<close> loop: the first slot of the mask that is not deleted and whose element is
  equal to \<open>*el\<close>, with its element index, and the value of \<open>first_deleted_slot\<close>.
\<close>

function ihtab0_scan :: "platform \<Rightarrow> ('e \<Rightarrow> 'e \<Rightarrow> bool) \<Rightarrow> 'e hbin0_t \<Rightarrow> u64 \<Rightarrow> 'e \<Rightarrow> u64 \<Rightarrow> u64 \<Rightarrow>
    ((nat \<times> u32) option \<times> u64) option" where
  "ihtab0_scan P Eq b group_ind el mmask first_deleted_slot =
     (if mmask = 0 then Some (None, first_deleted_slot)
      else do {
        let slot_bit = first_slot (ihtab0_mask_scale P) mmask;
        let slot_ind = ihtab0_slot group_ind slot_bit;
        el_ind \<leftarrow> read_el (indexes b) (unat slot_ind);
        if el_ind = ihtab0_INDEX_DELETED
        then ihtab0_scan P Eq b group_ind el (mmask AND (mmask - 1))
          (if first_deleted_slot = NOT 0 then slot_ind else first_deleted_slot)
        else do {
          e \<leftarrow> read_el (els b) (unat el_ind);
          if Eq e el then Some (Some (slot_bit, el_ind), first_deleted_slot)
          else ihtab0_scan P Eq b group_ind el (mmask AND (mmask - 1)) first_deleted_slot
        }
      })"
  by pat_completeness auto
termination
  by (relation "measure (\<lambda>(P, Eq, b, group_ind, el, mmask, first_deleted_slot). unat mmask)") (auto intro: and_pred_less)

declare ihtab0_scan.simps [simp del]

text \<open>
  One round of the outer \<open>for (;;)\<close> loop, up to its returns or the next \<open>group_ind\<close>. Its state and its
  result carry \<open>first_deleted_slot\<close>.
\<close>

definition ihtab0_probe_step :: "platform \<Rightarrow> ('e \<Rightarrow> 'e \<Rightarrow> bool) \<Rightarrow> 'e hbin0_t \<Rightarrow> u8 \<Rightarrow> 'e \<Rightarrow> u64 \<times> u64 \<Rightarrow>
    ((u64 \<times> u64) + (outcome \<times> u64)) option" where
  "ihtab0_probe_step P Eq b h7_val el state =
     do {
       let (group_ind, first_deleted_slot) = state;
       let group_h7 = unat (group_ind * ihtab0_GROUP_SIZE);
       group \<leftarrow> ihtab0_group_load P (h7 b) group_h7;
       (found, first_deleted_slot) \<leftarrow>
         ihtab0_scan P Eq b group_ind el (ihtab0_match_mask group h7_val) first_deleted_slot;
       case found of
         Some (slot_bit, el_ind) \<Rightarrow>
           Some (Inr (Matched (unat group_ind) slot_bit (unat el_ind), first_deleted_slot))
       | None \<Rightarrow>
           (let empty_mask = ihtab0_match_empty group
            in if empty_mask \<noteq> 0
               then Some (Inr (Vacant (unat group_ind) (first_slot (ihtab0_mask_scale P) empty_mask), first_deleted_slot))
               else Some (Inl ((group_ind + 1) AND groups_mask b, first_deleted_slot)))
     }"

partial_function (option) ihtab0_probe :: "platform \<Rightarrow> ('e \<Rightarrow> 'e \<Rightarrow> bool) \<Rightarrow> 'e hbin0_t \<Rightarrow> u8 \<Rightarrow> 'e \<Rightarrow>
    u64 \<times> u64 \<Rightarrow> (outcome \<times> u64) option" where
  "ihtab0_probe P Eq b h7_val el state =
     (case ihtab0_probe_step P Eq b h7_val el state of
        None \<Rightarrow> None
      | Some (Inl state') \<Rightarrow> ihtab0_probe P Eq b h7_val el state'
      | Some (Inr r) \<Rightarrow> Some r)"

definition ihtab0_do_1 :: "platform \<Rightarrow> ('e \<Rightarrow> u64) \<Rightarrow> ('e \<Rightarrow> 'e \<Rightarrow> bool) \<Rightarrow> u64 \<Rightarrow> 'e hbin0_t \<Rightarrow> 'e \<Rightarrow>
    action \<Rightarrow> (bool \<times> nat option \<times> u64 \<times> 'e hbin0_t) option" where
  "ihtab0_do_1 P Hash Eq num b el action =
     do {
       let hash = Hash el;
       let h7_val = h7_of hash;
       (r, first_deleted_slot) \<leftarrow>
         ihtab0_probe P Eq b h7_val el ((hash div ihtab0_GROUP_SIZE) AND groups_mask b, NOT 0);
       case r of
         Matched group_ind slot_bit el_ind \<Rightarrow>
           if action \<noteq> DELETE then Some (True, Some el_ind, num, b)
           else do {
             d \<leftarrow> del_set (deleted b) el_ind;
             ix \<leftarrow> write_el (indexes b) (unat (ihtab0_slot (of_nat group_ind) slot_bit)) ihtab0_INDEX_DELETED;
             Some (True, None, num - 1, b\<lparr>deleted := d, indexes := ix\<rparr>)
           }
       | Vacant group_ind slot_bit \<Rightarrow>
           if action \<ge> INSERT then do {
             let slot_ind = (if first_deleted_slot \<noteq> NOT 0 then first_deleted_slot
                             else ihtab0_slot (of_nat group_ind) slot_bit);
             hs \<leftarrow> store_bytes (h7 b) (unat slot_ind) [h7_val];
             ix \<leftarrow> write_el (indexes b) (unat slot_ind) (ucast (els_bound b));
             Some (False, Some (unat (els_bound b)), num + 1,
               b\<lparr>h7 := hs, indexes := ix, els_bound := els_bound b + 1\<rparr>)
           }
           else Some (False, None, num, b)
     }"

section \<open>Allocation and rebuilding\<close>

text \<open>The allocation code shared by \<open>iht_rebuild\<close> and \<open>iht_create\<close>.\<close>

definition ihtab0_new_bin :: "u64 \<Rightarrow> u64 \<Rightarrow> 'e hbin0_t option" where
  "ihtab0_new_bin indexes_size els_size =
     do {
       let del_bytes = (els_size + 7) div 8;
       hs \<leftarrow> store_bytes (replicate (unat indexes_size) None) 0 (replicate (unat indexes_size) ihtab0_EMPTY_H7);
       Some \<lparr>els_bound = 0, els = replicate (unat els_size) None, deleted = replicate (unat del_bytes) 0,
         h7 = hs, indexes = replicate (unat indexes_size) None,
         groups_mask = indexes_size div ihtab0_GROUP_SIZE - 1\<rparr>
     }"

text \<open>The copying loop of \<open>ihtab0_rebuild\<close>.\<close>

primrec ihtab0_reinsert :: "platform \<Rightarrow> ('e \<Rightarrow> u64) \<Rightarrow> ('e \<Rightarrow> 'e \<Rightarrow> bool) \<Rightarrow> 'e hbin0_t \<Rightarrow> nat list \<Rightarrow>
    u64 \<Rightarrow> 'e hbin0_t \<Rightarrow> (u64 \<times> 'e hbin0_t) option" where
  "ihtab0_reinsert P Hash Eq old [] num rb = Some (num, rb)"
| "ihtab0_reinsert P Hash Eq old (i # is) num rb =
     do {
       d \<leftarrow> del_test (deleted old) i;
       if d then ihtab0_reinsert P Hash Eq old is num rb
       else do {
         e \<leftarrow> read_el (els old) i;
         (found, res, num, rb) \<leftarrow> ihtab0_do_1 P Hash Eq num rb e INSERT;
         r \<leftarrow> res;
         xs \<leftarrow> write_el (els rb) r e;
         ihtab0_reinsert P Hash Eq old is num (rb\<lparr>els := xs\<rparr>)
       }
     }"

definition ihtab0_rebuild_size :: "'e ihtab0 \<Rightarrow> u64" where
  "ihtab0_rebuild_size t =
     (let indexes_size = (groups_mask (bin t) + 1) * ihtab0_GROUP_SIZE
      in if 2 * ihtab0_LF_DIVISOR * els_num t \<ge> ihtab0_LF_FACTOR * indexes_size
         then indexes_size * 2 else indexes_size)"

definition ihtab0_rebuild :: "platform \<Rightarrow> ('e \<Rightarrow> u64) \<Rightarrow> ('e \<Rightarrow> 'e \<Rightarrow> bool) \<Rightarrow> 'e ihtab0 \<Rightarrow> 'e ihtab0 option" where
  "ihtab0_rebuild P Hash Eq t =
     do {
       let indexes_size = ihtab0_rebuild_size t;
       let els_size = indexes_size * ihtab0_LF_FACTOR div ihtab0_LF_DIVISOR;
       rb \<leftarrow> ihtab0_new_bin indexes_size els_size;
       let saved = els_num t;
       (num, rb) \<leftarrow> ihtab0_reinsert P Hash Eq (bin t) [0..<unat (els_bound (bin t))] (els_num t) rb;
       Some \<lparr>els_num = saved, bin = rb\<rparr>
     }"

partial_function (option) ihtab0_create_size :: "u64 \<Rightarrow> u64 \<Rightarrow> u64 option" where
  "ihtab0_create_size min_size indexes_size =
     (if indexes_size * ihtab0_LF_FACTOR div ihtab0_LF_DIVISOR < min_size
      then ihtab0_create_size min_size (indexes_size * 2) else Some indexes_size)"

definition ihtab0_create :: "u64 \<Rightarrow> 'e ihtab0 option" where
  "ihtab0_create min_size =
     do {
       indexes_size \<leftarrow> ihtab0_create_size min_size ihtab0_GROUP_SIZE;
       let els_size = indexes_size * ihtab0_LF_FACTOR div ihtab0_LF_DIVISOR;
       b \<leftarrow> ihtab0_new_bin indexes_size els_size;
       Some \<lparr>els_num = 0, bin = b\<rparr>
     }"

section \<open>The interface\<close>

definition ihtab0_perform :: "platform \<Rightarrow> ('e \<Rightarrow> u64) \<Rightarrow> ('e \<Rightarrow> 'e \<Rightarrow> bool) \<Rightarrow> 'e ihtab0 \<Rightarrow> 'e \<Rightarrow> action \<Rightarrow>
    (bool \<times> nat option \<times> 'e ihtab0) option" where
  "ihtab0_perform P Hash Eq t el action =
     do {
       t \<leftarrow> (if action \<ge> INSERT
             then (let indexes_size = (groups_mask (bin t) + 1) * ihtab0_GROUP_SIZE;
                       els_size = indexes_size * ihtab0_LF_FACTOR div ihtab0_LF_DIVISOR - 1
                   in if els_bound (bin t) \<ge> els_size then ihtab0_rebuild P Hash Eq t else Some t)
             else Some t);
       (found, res, num, b) \<leftarrow> ihtab0_do_1 P Hash Eq (els_num t) (bin t) el action;
       Some (found, res, \<lparr>els_num = num, bin = b\<rparr>)
     }"

definition ihtab0_els_count :: "'e ihtab0 \<Rightarrow> u64" where
  "ihtab0_els_count t = els_num t"

definition ihtab0_size :: "'e ihtab0 \<Rightarrow> u64" where
  "ihtab0_size t = (groups_mask (bin t) + 1) * ihtab0_GROUP_SIZE * ihtab0_LF_FACTOR div ihtab0_LF_DIVISOR"

function ihtab0_iter_advance :: "'e ihtab0 \<Rightarrow> ihtab0_iter \<Rightarrow> ihtab0_iter option" where
  "ihtab0_iter_advance t it =
     (if el_idx it < els_bound (bin t) then do {
        d \<leftarrow> del_test (deleted (bin t)) (unat (el_idx it));
        if \<not> d then Some (it\<lparr>ptr := Some (unat (el_idx it))\<rparr>)
        else ihtab0_iter_advance t (it\<lparr>el_idx := el_idx it + 1\<rparr>)
      }
      else Some (it\<lparr>ptr := None\<rparr>))"
  by pat_completeness auto
termination
proof (relation "measure (\<lambda>(t, it). unat (els_bound (bin t)) - unat (el_idx it))")
  fix t :: "'e ihtab0" and it :: ihtab0_iter and d
  assume less: "el_idx it < els_bound (bin t)"
  have "unat (el_idx it + 1) = unat (el_idx it) + 1"
    using less by (rule unat_succ_less)
  with less show "((t, it\<lparr>el_idx := el_idx it + 1\<rparr>), t, it)
      \<in> measure (\<lambda>(t, it). unat (els_bound (bin t)) - unat (el_idx it))"
    by (simp add: word_less_nat_alt)
qed simp

declare ihtab0_iter_advance.simps [simp del]

definition ihtab0_iter_begin :: "'e ihtab0 \<Rightarrow> ihtab0_iter option" where
  "ihtab0_iter_begin t = ihtab0_iter_advance t \<lparr>el_idx = 0, ptr = None\<rparr>"

definition ihtab0_iter_valid :: "ihtab0_iter \<Rightarrow> bool" where
  "ihtab0_iter_valid it \<longleftrightarrow> ptr it \<noteq> None"

definition ihtab0_iter_next :: "'e ihtab0 \<Rightarrow> ihtab0_iter \<Rightarrow> ihtab0_iter option" where
  "ihtab0_iter_next t it = ihtab0_iter_advance t (it\<lparr>el_idx := el_idx it + 1\<rparr>)"

text \<open>The forward iterator.\<close>

function ihtab0_advance :: "'e ihtab0 \<Rightarrow> ihtab_iterator \<Rightarrow> ihtab_iterator option" where
  "ihtab0_advance t it =
     (if idx it < els_bound (bin t) then do {
        d \<leftarrow> del_test (deleted (bin t)) (unat (idx it));
        if \<not> d then Some it else ihtab0_advance t (it\<lparr>idx := idx it + 1\<rparr>)
      }
      else Some it)"
  by pat_completeness auto
termination
proof (relation "measure (\<lambda>(t, it). unat (els_bound (bin t)) - unat (idx it))")
  fix t :: "'e ihtab0" and it :: ihtab_iterator and d
  assume less: "idx it < els_bound (bin t)"
  have "unat (idx it + 1) = unat (idx it) + 1" using less by (rule unat_succ_less)
  with less show "((t, it\<lparr>idx := idx it + 1\<rparr>), t, it) \<in> measure (\<lambda>(t, it). unat (els_bound (bin t)) - unat (idx it))"
    by (simp add: word_less_nat_alt)
qed simp

declare ihtab0_advance.simps [simp del]

text \<open>The operators \<open>*\<close> and \<open>->\<close>, \<open>++it\<close>, \<open>it++\<close> (the old and the new iterator), \<open>==\<close> and \<open>!=\<close>.\<close>

definition ihtab0_deref :: "'e ihtab0 \<Rightarrow> ihtab_iterator \<Rightarrow> 'e option" where
  "ihtab0_deref t it = read_el (els (bin t)) (unat (idx it))"

definition ihtab0_incr :: "'e ihtab0 \<Rightarrow> ihtab_iterator \<Rightarrow> ihtab_iterator option" where
  "ihtab0_incr t it = ihtab0_advance t (it\<lparr>idx := idx it + 1\<rparr>)"

definition ihtab0_post_incr :: "'e ihtab0 \<Rightarrow> ihtab_iterator \<Rightarrow> (ihtab_iterator \<times> ihtab_iterator) option" where
  "ihtab0_post_incr t it = do { it' \<leftarrow> ihtab0_incr t it; Some (it, it') }"

definition ihtab0_iter_eq :: "ihtab_iterator \<Rightarrow> ihtab_iterator \<Rightarrow> bool" where
  "ihtab0_iter_eq it o' \<longleftrightarrow> htab it = htab o' \<and> idx it = idx o'"

definition ihtab0_iter_neq :: "ihtab_iterator \<Rightarrow> ihtab_iterator \<Rightarrow> bool" where
  "ihtab0_iter_neq it o' \<longleftrightarrow> htab it \<noteq> htab o' \<or> idx it \<noteq> idx o'"

definition ihtab0_begin :: "nat \<Rightarrow> 'e ihtab0 \<Rightarrow> ihtab_iterator option" where
  "ihtab0_begin this t = ihtab0_advance t \<lparr>htab = this, idx = 0\<rparr>"

definition ihtab0_end :: "nat \<Rightarrow> 'e ihtab0 \<Rightarrow> ihtab_iterator" where
  "ihtab0_end this t = \<lparr>htab = this, idx = els_bound (bin t)\<rparr>"

section \<open>Client code\<close>

text \<open>The calls of \<open>tests/test.cpp\<close>, and the range-based \<open>for (auto &e : t)\<close>.\<close>

definition ihtab0_store :: "'e ihtab0 \<Rightarrow> nat option \<Rightarrow> 'e \<Rightarrow> 'e ihtab0 option" where
  "ihtab0_store t res e =
     do {
       r \<leftarrow> res;
       xs \<leftarrow> write_el (els (bin t)) r e;
       Some (t\<lparr>bin := (bin t)\<lparr>els := xs\<rparr>\<rparr>)
     }"

definition ihtab0_load :: "'e ihtab0 \<Rightarrow> nat option \<Rightarrow> 'e option" where
  "ihtab0_load t res = do { r \<leftarrow> res; read_el (els (bin t)) r }"

definition ihtab0_step :: "platform \<Rightarrow> ('e \<Rightarrow> u64) \<Rightarrow> ('e \<Rightarrow> 'e \<Rightarrow> bool) \<Rightarrow> 'e ihtab0 \<Rightarrow> 'e cmd \<Rightarrow> ('e reply \<times> 'e ihtab0) option" where
  "ihtab0_step P Hash Eq = client_step (\<lambda>t e. ihtab0_perform P Hash Eq t e FIND)
     (\<lambda>t e. ihtab0_perform P Hash Eq t e DELETE) (\<lambda>t e. ihtab0_perform P Hash Eq t e INSERT) ihtab0_store ihtab0_load"

definition ihtab0_iterate :: "'e ihtab0 \<Rightarrow> 'e list option" where
  "ihtab0_iterate t =
     do {
       it \<leftarrow> ihtab0_iter_begin t;
       client_iterate ihtab0_iter_valid (\<lambda>it. ihtab0_load t (ptr it)) (ihtab0_iter_next t) it
     }"

definition ihtab0_range_for :: "nat \<Rightarrow> 'e ihtab0 \<Rightarrow> 'e list option" where
  "ihtab0_range_for this t =
     do {
       it \<leftarrow> ihtab0_begin this t;
       client_iterate (\<lambda>it. ihtab0_iter_neq it (ihtab0_end this t)) (ihtab0_deref t) (ihtab0_incr t) it
     }"

section \<open>The methods compute what the C functions compute\<close>

lemma ihtab0_consts: "ihtab0_GROUP_SIZE = IHT0_GROUP_SIZE" "ihtab0_EMPTY_H7 = IHT0_EMPTY_H7"
  "ihtab0_INDEX_DELETED = IHT0_INDEX_DELETED" "ihtab0_LF_FACTOR = IHT0_LF_FACTOR" "ihtab0_LF_DIVISOR = IHT0_LF_DIVISOR"
  by (simp_all add: ihtab0_GROUP_SIZE_def ihtab0_EMPTY_H7_def ihtab0_INDEX_DELETED_def ihtab0_LF_FACTOR_def
      ihtab0_LF_DIVISOR_def IHT0_INDEX_DELETED_def iht0_consts)

lemma ihtab0_mask_scale_eq: "ihtab0_mask_scale = IHT0_MASK_SCALE"
  by (simp add: fun_eq_iff ihtab0_mask_scale_def IHT0_MASK_SCALE_def)

lemma ihtab0_group_load_eq: "ihtab0_group_load = iht0_group_load"
  by (simp add: fun_eq_iff ihtab0_group_load_def iht0_group_load_def)

lemma ihtab0_match_mask_eq: "ihtab0_match_mask g h = iht0_match_mask g h"
  by (cases g) (simp_all add: Let_def)

lemma ihtab0_match_empty_eq: "ihtab0_match_empty g = iht0_match_empty g"
  by (cases g) (simp_all add: ihtab0_match_mask_eq ihtab0_consts ihtab0_EMPTY_MASK_def)

lemma ihtab0_slot_eq: "ihtab0_slot = iht0_slot"
  by (simp add: fun_eq_iff ihtab0_slot_def iht0_slot_def ihtab0_consts)

lemma ihtab0_scan_eq: "ihtab0_scan P Eq b g el m d = iht0_scan P Eq b g el m d"
proof (induction P Eq b g el m d rule: iht0_scan.induct)
  case (1 P Eq b g el m d)
  then show ?case
    unfolding ihtab0_scan.simps [of P Eq b g el m d] iht0_scan.simps [of P Eq b g el m d] ihtab0_mask_scale_eq
      ihtab0_slot_eq ihtab0_consts
    by (auto split: Option.bind_split intro!: Option.bind_cong simp: Let_def)
qed

lemmas ihtab0_scan_simps = ihtab0_consts ihtab0_mask_scale_eq ihtab0_group_load_eq ihtab0_match_mask_eq ihtab0_match_empty_eq
  ihtab0_slot_eq ihtab0_scan_eq

lemma ihtab0_probe_step_eq: "ihtab0_probe_step = iht0_probe_step"
  unfolding fun_eq_iff ihtab0_probe_step_def iht0_probe_step_def ihtab0_scan_simps by simp

lemma ihtab0_probe_eq: "ihtab0_probe P Eq b h el g = iht0_probe P Eq b h el g"
proof (rule option_eqI, rule iffI)
  fix r
  assume r: "ihtab0_probe P Eq b h el g = Some r"
  have "case (((((P, Eq), b), h), el), g) of (((((P, Eq), b), h), el), g) \<Rightarrow> iht0_probe P Eq b h el g = Some r"
    by (rule ihtab0_probe.raw_induct [OF _ r], simp only: split, subst iht0_probe.simps)
      (auto simp: ihtab0_probe_step_eq split: option.splits sum.splits)
  then show "iht0_probe P Eq b h el g = Some r" by (simp only: split)
next
  fix r
  assume r: "iht0_probe P Eq b h el g = Some r"
  have "case (((((P, Eq), b), h), el), g) of (((((P, Eq), b), h), el), g) \<Rightarrow> ihtab0_probe P Eq b h el g = Some r"
    by (rule iht0_probe.raw_induct [OF _ r], simp only: split, subst ihtab0_probe.simps)
      (auto simp: ihtab0_probe_step_eq split: option.splits sum.splits)
  then show "ihtab0_probe P Eq b h el g = Some r" by (simp only: split)
qed

lemma ihtab0_do_1_eq: "ihtab0_do_1 P Hash Eq num b el a = iht0_do_1 P Hash Eq num b el (c_action a)"
  unfolding ihtab0_do_1_def iht0_do_1_def ihtab0_probe_eq ihtab0_scan_simps c_action_ge c_action_delete ..

lemma ihtab0_new_bin_eq: "ihtab0_new_bin = iht0_new_bin"
  by (simp add: fun_eq_iff ihtab0_new_bin_def iht0_new_bin_def ihtab0_scan_simps)

lemma ihtab0_reinsert_eq: "ihtab0_reinsert P Hash Eq old is num rb = iht0_reinsert P Hash Eq old is num rb"
  by (induction "is" arbitrary: num rb) (auto simp: ihtab0_do_1_eq intro!: Option.bind_cong)

lemma ihtab0_rebuild_eq: "ihtab0_rebuild = iht0_rebuild"
  by (simp add: fun_eq_iff ihtab0_rebuild_def iht0_rebuild_def ihtab0_rebuild_size_def iht0_rebuild_size_def ihtab0_consts
      ihtab0_new_bin_eq ihtab0_reinsert_eq)

lemma ihtab0_create_size_eq: "ihtab0_create_size m n = iht0_create_size m n"
proof (rule option_eqI)
  have "iht0_create_size m n = Some r" if "ihtab0_create_size m n = Some r" for r
    by (rule ihtab0_create_size.raw_induct [OF _ that], subst iht0_create_size.simps)
      (auto simp: ihtab0_consts split: if_splits)
  moreover have "ihtab0_create_size m n = Some r" if "iht0_create_size m n = Some r" for r
    by (rule iht0_create_size.raw_induct [OF _ that], subst ihtab0_create_size.simps)
      (auto simp: ihtab0_consts split: if_splits)
  ultimately show "ihtab0_create_size m n = Some r \<longleftrightarrow> iht0_create_size m n = Some r" for r by blast
qed

lemma ihtab0_create_eq: "ihtab0_create = iht0_create"
  by (simp add: fun_eq_iff ihtab0_create_def iht0_create_def ihtab0_create_size_eq ihtab0_new_bin_eq ihtab0_consts)

lemma ihtab0_perform_eq: "ihtab0_perform P Hash Eq t el a = iht0_perform P Hash Eq t el (c_action a)"
  by (simp add: ihtab0_perform_def iht0_perform_def ihtab0_do_1_eq ihtab0_rebuild_eq ihtab0_consts c_action_ge)

lemma ihtab0_size_eq: "ihtab0_els_count = iht0_els_count" "ihtab0_size = iht0_size"
  by (simp_all add: fun_eq_iff ihtab0_els_count_def iht0_els_count_def ihtab0_size_def iht0_size_def ihtab0_consts)

lemma ihtab0_client_eq: "ihtab0_store = iht0_store" "ihtab0_load = iht0_load"
  by (simp_all add: fun_eq_iff ihtab0_store_def iht0_store_def ihtab0_load_def iht0_load_def)

lemma ihtab0_step_eq: "ihtab0_step = iht0_step"
  by (simp add: fun_eq_iff ihtab0_step_def iht0_step_def ihtab0_client_eq ihtab0_perform_eq)

lemma ihtab0_iter_advance_eq: "ihtab0_iter_advance t it = iht0_iter_advance t it"
proof (induction t it rule: iht0_iter_advance.induct)
  case (1 t it)
  then show ?case
    unfolding ihtab0_iter_advance.simps [of t it] iht0_iter_advance.simps [of t it]
    by (auto intro!: Option.bind_cong)
qed

lemma ihtab0_iterate_eq: "ihtab0_iterate = iht0_iterate"
  by (simp add: fun_eq_iff ihtab0_iterate_def iht0_iterate_def ihtab0_iter_begin_def iht0_iter_begin_def ihtab0_client_eq
      ihtab0_iter_advance_eq ihtab0_iter_valid_def [abs_def] iht0_iter_valid_def [abs_def] ihtab0_iter_next_def [abs_def]
      iht0_iter_next_def [abs_def])

section \<open>The range-based loop\<close>

interpretation ihtab0_fwd: forward_iter Hash Eq "iht0_do_1 P Hash Eq" iht0_new_bin els "\<lambda>xs b. b\<lparr>els := xs\<rparr>" deleted
    els_bound groups_mask iht0_view "iht0_bin_inv Hash Eq" "iht0_reinsert P Hash Eq" "iht0_rebuild P Hash Eq"
    "\<lambda>a t e. iht0_perform P Hash Eq t e a" iht0_store iht0_load iht0_iter_advance ihtab0_advance for P Hash Eq
  by unfold_locales (rule ihtab0_advance.simps)

lemma ihtab0_range_for_correct: "iht0_inv Hash Eq k t \<Longrightarrow> ihtab0_range_for this t = Some (iht0_abs t)"
  using ihtab0_fwd.range_for_correct [of Hash Eq k t this]
  unfolding ihtab0_range_for_def ihtab0_begin_def ihtab0_iter_neq_def ihtab0_end_def ihtab0_deref_def [abs_def]
    ihtab0_incr_def [abs_def] by simp

end
