(* ===== verification/Ihtab_v0_hpp_Props.thy ===== *)
theory Ihtab_v0_hpp_Props
  imports Ihtab_v0_hpp Test_Client
begin

text \<open>The properties of the C++ table of \<open>ihtab-v0.hpp\<close>.\<close>

text \<open>
  C25. A table of \<open>ihtab-v0.hpp\<close> constructed for any size up to \<open>2 ^ 32\<close> answers every sequence of up
  to \<open>2 ^ 31\<close> insert, replace, remove and find commands as the list of elements in insertion order
  does, on every platform. Afterwards the range-based \<open>for\<close> loop, which compares the iterator
  with \<open>end ()\<close>, ends and visits exactly that list in that order, as the pointer iterator does.\<close>
theorem ihtab0_client_run:
  assumes "hash_key Hash Eq" "unat min_size \<le> 2 ^ 32" "length cs \<le> 2 ^ 31"
  shows "\<exists>t t'. ihtab0_create min_size = Some t \<and>
    run_cmds (ihtab0_step P Hash Eq) t cs = Some (fst (spec_run Eq [] cs), t') \<and>
    ihtab0_range_for this t' = Some (snd (spec_run Eq [] cs)) \<and> ihtab0_iterate t' = Some (snd (spec_run Eq [] cs)) \<and>
    unat (ihtab0_els_count t') = length (snd (spec_run Eq [] cs))"
proof -
  obtain t k where t: "iht0_create min_size = Some t" "iht0_inv Hash Eq k t" "iht0_abs t = []"
    using iht0_create_correct [OF assms(2)] by blast
  obtain t' k' where t': "run_cmds (iht0_step P Hash Eq) t cs = Some (fst (spec_run Eq [] cs), t')"
      "iht0_inv Hash Eq k' t'" "iht0_abs t' = snd (spec_run Eq [] cs)"
    using iht0_run_refines [OF assms(1) t(2), of cs P] t assms(3) by auto
  then show ?thesis
    using t(1) iht0_iterate_correct [OF t'(2)] iht0_invD(3) [OF t'(2)] ihtab0_range_for_correct [OF t'(2), of this]
    by (auto simp: ihtab0_create_eq ihtab0_step_eq ihtab0_iterate_eq ihtab0_size_eq iht0_els_count_def)
qed

theorem ihtab0_client_run_witness:
  "\<exists>t t'. ihtab0_create 8 = Some t \<and>
    run_cmds (ihtab0_step X86_SSE2 entry_hash entry_eq) t entry_cmds =
      Some ([Flag False, Flag False, Flag True, Got (Some (mk_entry 42 100)), Flag True, Got None, Flag True], t') \<and>
    ihtab0_range_for 1 t' = Some [mk_entry 7 2] \<and> unat (ihtab0_els_count t') = 1"
  using ihtab0_client_run [OF entry.hash_key_axioms, of 8 entry_cmds X86_SSE2 1]
  by (auto simp: entry_cmds_spec)


end
