(* ===== verification/Vmum.thy ===== *)
theory Vmum
  imports Memory
begin

text \<open>
  The hash function of \<open>vmum.h\<close>. The configuration the preprocessor fixes (128-bit
  integers, byte order, the macros \<open>VMUM_TARGET_INDEPENDENT_HASH\<close> and \<open>VMUM_V1\<close>, the vector
  unit) is a record, the argument \<open>C\<close>; the static multiplier tables, which
  \<open>vmum_hash_randomize\<close> may overwrite, are a record, the argument \<open>S\<close>. A key is the list of
  bytes a pointer can reach; a read past its end, or past the end of a multiplier table, is
  \<open>None\<close>. Names lose their leading underscore.
\<close>

section \<open>Configuration and multipliers\<close>

datatype simd = AVX2 | ARM_NEON | ALTIVEC | SCALAR

record vmum_config =
  use_int128 :: bool
  target_independent :: bool
  big_endian :: bool
  v1 :: bool
  simd :: simd
  unaligned_access :: bool

record vmum_state =
  hash_step_factor :: u64
  key_step_factor :: u64
  block_start_factor :: u64
  tail_factor :: u64
  finish_factor1 :: u64
  finish_factor2 :: u64
  unroll_factors :: "u64 list"
  factors :: "u64 list"

definition vmum_default_unroll :: "u64 list" where
  "vmum_default_unroll = [
     0x191fb5fc4a9bf2de, 0xd9a09a0a2c4eb3eb, 0x90f15ee96deb1eec, 0x1a970df0a79d09ba]"

definition vmum_default_factors :: "u64 list" where
  "vmum_default_factors = [
     0x0c3ec9639d3a203f, 0x898368b5fb060422, 0xfe3c08767c1e5068, 0x4535ac3cb182d3ca,
     0xba6ba8dcc8a2d978, 0x9f1221df37b27ca1, 0x57b1b40817cde05e, 0xadb5c6075e5dd1c3,
     0x0f91abf611686bc3, 0x72fc850fbe9023f4, 0x4922ec730400d7e1, 0x7452d927d9970eb2,
     0x607ad8c0dbe89ff9, 0x463bf8a99a222448, 0x6a0c8e5c2171d499, 0x88a9af1a70175e0f,
     0x50c07b9351011316, 0xce26a1f4e66e3d1f, 0x396d79c90c86b1ed, 0x3739b72e11fc4684,
     0x7fe4adc8400af08e, 0xfa2e47475b11a3ce, 0xd519635f1d7b9242, 0x866d04bd866130fc,
     0x6132e913fd0ae2c9, 0xaeacc8d99a02880d, 0xf196fbab2ef62dbb, 0x62a6a4ae6d3f5fdd,
     0x3147dbedb6618cf4, 0x18dc2a4e6e46b7f5, 0x98ce62d3e346f804, 0x3e507b6626b9c9c6,
     0x08d2d6aba49b53a7, 0x64f897cf54cc0984, 0xe6568e3081d4dc31, 0x936eff54d90e79bd,
     0x45ecee4cb55e5529, 0xe7729fe4b83bd1f0, 0x8ced03855b3a62ae, 0xc29ee17b601d5ea6,
     0xfadd87cd819b8b23, 0x5ff6b6787a02da34, 0xcc0f997728759ba9, 0x06a51956916c45ff,
     0xd31923282290a41f, 0x9e2fcda93feb36aa, 0xfdc11827f9bb4b63, 0xe11b2c099cf17325,
     0xd4efd1919316bb4e, 0x7749918c7756d897, 0x32eff42dc1c4f41e, 0x4171f5e422bdf4fa,
     0xdd5c7f50a7977e65, 0xc52dc937487cc197, 0xbff445a1c9b19184, 0xb2fd8206a0325cb9,
     0xbf32bb70e354a83c, 0x587313d37681ffc2, 0x687c0b98ef7ad731, 0x2c09a37608248f89,
     0x20c8d9b1b6e28faa, 0x747008703cbc9483, 0x0bdcacce877cb231, 0xf740c0ac1dc79a0c,
     0x8e843baef228089d, 0xc379d4c3b6e28c1b, 0xb5d44eee257f1206, 0xb5dfee44ef6b05ad,
     0xaab0edc0f566f359, 0x21883ede514d45dd, 0xcdaeea0482c73a46, 0xb3751631e5645c4f,
     0xd22ac81254aad1ac, 0x59c0f8f5c93121df, 0x3b343a848e3097c3, 0x87c65a3a866ed9ed,
     0xf112c880c63ddafd, 0xff98b9575bfce057, 0xd6e8f6ad6f4da8ae, 0xba0379ba20645a51]"

definition vmum_default_state :: vmum_state where
  "vmum_default_state = \<lparr>
     hash_step_factor = 0x7fc65e8a22c2f74b, key_step_factor = 0x9b307d68270e94e5,
     block_start_factor = 0x6608b54dafbc797c, tail_factor = 0xc6f58747253b0e84,
     finish_factor1 = 0xbc4bb29ce739b5d9, finish_factor2 = 0x7007946aa4fdb987,
     unroll_factors = vmum_default_unroll, factors = vmum_default_factors\<rparr>"

section \<open>Multiply and mix\<close>

definition lo32 :: "u64 \<Rightarrow> u64" where
  "lo32 v = ucast (ucast v :: u32)"

text \<open>The product by four 32-bit multiplications; without \<open>VMUM_TARGET_INDEPENDENT_HASH\<close> carries are lost.\<close>

definition vmum_by_parts :: "bool \<Rightarrow> u64 \<Rightarrow> u64 \<Rightarrow> u64 \<times> u64" where
  "vmum_by_parts keep_carry v p =
     (let hv = drop_bit 32 v; hp = drop_bit 32 p;
          lv = lo32 v; lp = lo32 p;
          rh = hv * hp; rm_0 = hv * lp; rm_1 = hp * lv; rl = lv * lp;
          t = rl + push_bit 32 rm_0;
          carry = (if keep_carry then of_bool (t < rl) else 0);
          lo = t + push_bit 32 rm_1;
          carry = (if keep_carry then carry + of_bool (lo < t) else carry);
          hi = rh + drop_bit 32 rm_0 + drop_bit 32 rm_1 + carry
      in (hi, lo))"

definition vmum :: "vmum_config \<Rightarrow> u64 \<Rightarrow> u64 \<Rightarrow> u64" where
  "vmum C v p =
     (let (hi, lo) =
        (if use_int128 C
         then (let r = (ucast v :: 128 word) * ucast p in (ucast (drop_bit 64 r), ucast r))
         else vmum_by_parts (target_independent C) v p)
      in hi + lo)"

definition bswap64 :: "u64 \<Rightarrow> u64" where
  "bswap64 v = le_word (rev (le_bytes v))"

definition bswap32 :: "u32 \<Rightarrow> u32" where
  "bswap32 v = le_word (rev (le_bytes v))"

definition vmum_le :: "vmum_config \<Rightarrow> u64 \<Rightarrow> u64" where
  "vmum_le C v = (if \<not> big_endian C \<or> \<not> target_independent C then v else bswap64 v)"

definition vmum_le32 :: "vmum_config \<Rightarrow> u32 \<Rightarrow> u32" where
  "vmum_le32 C v = (if \<not> big_endian C \<or> \<not> target_independent C then v else bswap32 v)"

definition vmum_le16 :: "vmum_config \<Rightarrow> u16 \<Rightarrow> u64" where
  "vmum_le16 C v = (if \<not> big_endian C \<or> \<not> target_independent C then ucast v
     else ucast (drop_bit 8 v) OR push_bit 8 (ucast (v AND 0xff)))"

definition vmum_xor :: "vmum_config \<Rightarrow> u64 \<Rightarrow> u64 \<Rightarrow> u64" where
  "vmum_xor C a b = (if v1 C then a XOR b else if a XOR b \<noteq> 0 then a XOR b else b)"

definition vmum_plus :: "vmum_config \<Rightarrow> u64 \<Rightarrow> u64 \<Rightarrow> u64" where
  "vmum_plus C a b = (if v1 C then a + b else if a + b \<noteq> 0 then a + b else b)"

section \<open>Vector blocks\<close>

text \<open>
  A block is four 64-bit lanes, a list of length four. The vector types of the source are
  lists of lanes; the intrinsics work lane by lane.
\<close>

type_synonym block = "u64 list"

text \<open>AVX2.\<close>

definition pmuludq256 :: "block \<Rightarrow> block \<Rightarrow> block" where
  "pmuludq256 a b = map2 (\<lambda>x y. lo32 x * lo32 y) a b"

definition pcmpeqq256 :: "block \<Rightarrow> block \<Rightarrow> block" where
  "pcmpeqq256 a b = map2 (\<lambda>x y. if x = y then - 1 else 0) a b"

definition avx2_block :: "block \<Rightarrow> block \<Rightarrow> block" where
  "avx2_block v p =
     (let hv = map (signed_drop_bit 32) v; hp = map (signed_drop_bit 32) p
      in map2 (+) (pmuludq256 v p) (pmuludq256 hv hp))"

definition avx2_nonzero :: "block \<Rightarrow> block" where
  "avx2_nonzero v = (let r = pcmpeqq256 v [0, 0, 0, 0] in map2 (OR) v r)"

definition avx2_update_block :: "bool \<Rightarrow> block \<Rightarrow> block \<times> block \<Rightarrow> block \<times> block \<Rightarrow> block" where
  "avx2_update_block is_v1 s v p =
     (if is_v1 then map2 (XOR) s (avx2_block (map2 (XOR) (fst v) (fst p)) (map2 (XOR) (snd v) (snd p)))
      else map2 (XOR) s (avx2_block (avx2_nonzero (map2 (XOR) (fst v) (fst p)))
        (avx2_nonzero (map2 (XOR) (snd v) (snd p)))))"

definition avx2_factor_block :: "block \<Rightarrow> block \<Rightarrow> block" where
  "avx2_factor_block s p = avx2_block s p"

text \<open>NEON: two 128-bit halves of two lanes; as \<open>uint32x4_t\<close> the low part of a lane comes first.\<close>

definition u32x4 :: "bool \<Rightarrow> u64 list \<Rightarrow> u32 list" where
  "u32x4 high_first v = concat (map (\<lambda>x. if high_first then [ucast (drop_bit 32 x), ucast x]
     else [ucast x, ucast (drop_bit 32 x)]) v)"

definition vmull_u32 :: "u32 list \<Rightarrow> u32 list \<Rightarrow> u64 list" where
  "vmull_u32 a b = map2 (\<lambda>x y. ucast x * ucast y) a b"

definition vpaddq_u64 :: "u64 list \<Rightarrow> u64 list \<Rightarrow> u64 list" where
  "vpaddq_u64 a b = [a ! 0 + a ! 1, b ! 0 + b ! 1]"

definition neon_val :: "u64 list \<Rightarrow> u64 list \<Rightarrow> u64 list" where
  "neon_val v p =
     (let v32 = u32x4 False v; p32 = u32x4 False p;
          r = vmull_u32 (take 2 v32) (take 2 p32); r2 = vmull_u32 (drop 2 v32) (drop 2 p32)
      in vpaddq_u64 r r2)"

definition neon_nonzero :: "u64 list \<Rightarrow> u64 list" where
  "neon_nonzero v = (let r = map (\<lambda>x. if x = 0 then - 1 else 0) v in map2 (OR) r v)"

text \<open>The update of one 128-bit half, shared by the NEON and AltiVec versions.\<close>

definition half_update :: "(u64 list \<Rightarrow> u64 list \<Rightarrow> u64 list) \<Rightarrow> (u64 list \<Rightarrow> u64 list) \<Rightarrow> bool \<Rightarrow>
    u64 list \<Rightarrow> u64 list \<times> u64 list \<Rightarrow> u64 list \<times> u64 list \<Rightarrow> u64 list" where
  "half_update val nonzero is_v1 s v p =
     (if is_v1 then map2 (XOR) s (val (map2 (XOR) (fst v) (fst p)) (map2 (XOR) (snd v) (snd p)))
      else map2 (XOR) s (val (nonzero (map2 (XOR) (fst v) (fst p))) (nonzero (map2 (XOR) (snd v) (snd p)))))"

definition neon_update_block :: "bool \<Rightarrow> block \<Rightarrow> block \<times> block \<Rightarrow> block \<times> block \<Rightarrow> block" where
  "neon_update_block is_v1 s v p =
     half_update neon_val neon_nonzero is_v1 (take 2 s)
       (take 2 (fst v), take 2 (snd v)) (take 2 (fst p), take 2 (snd p)) @
     half_update neon_val neon_nonzero is_v1 (drop 2 s)
       (drop 2 (fst v), drop 2 (snd v)) (drop 2 (fst p), drop 2 (snd p))"

definition neon_factor_block :: "block \<Rightarrow> block \<Rightarrow> block" where
  "neon_factor_block s p = neon_val (take 2 s) (take 2 p) @ neon_val (drop 2 s) (drop 2 p)"

text \<open>AltiVec: \<open>vec_mule\<close> and \<open>vec_mulo\<close> multiply the even and the odd 32-bit elements.\<close>

definition vec_mule :: "u32 list \<Rightarrow> u32 list \<Rightarrow> u64 list" where
  "vec_mule a b = [ucast (a ! 0) * ucast (b ! 0), ucast (a ! 2) * ucast (b ! 2)]"

definition vec_mulo :: "u32 list \<Rightarrow> u32 list \<Rightarrow> u64 list" where
  "vec_mulo a b = [ucast (a ! 1) * ucast (b ! 1), ucast (a ! 3) * ucast (b ! 3)]"

definition altivec_val :: "bool \<Rightarrow> u64 list \<Rightarrow> u64 list \<Rightarrow> u64 list" where
  "altivec_val be v p = map2 (+) (vec_mule (u32x4 be v) (u32x4 be p)) (vec_mulo (u32x4 be v) (u32x4 be p))"

definition vec_sel :: "u64 list \<Rightarrow> u64 list \<Rightarrow> u64 list \<Rightarrow> u64 list" where
  "vec_sel a b m = map2 (OR) (map2 (\<lambda>x k. x AND NOT k) a m) (map2 (AND) b m)"

definition altivec_nonzero :: "u64 list \<Rightarrow> u64 list" where
  "altivec_nonzero v =
     (let m = map2 (\<lambda>x y. if x \<noteq> y then - 1 else 0) v [0, 0]
      in vec_sel [0xffffffffffffffff, 0xffffffffffffffff] v m)"

definition altivec_update_block :: "bool \<Rightarrow> bool \<Rightarrow> block \<Rightarrow> block \<times> block \<Rightarrow> block \<times> block \<Rightarrow> block" where
  "altivec_update_block be is_v1 s v p =
     half_update (altivec_val be) altivec_nonzero is_v1 (take 2 s)
       (take 2 (fst v), take 2 (snd v)) (take 2 (fst p), take 2 (snd p)) @
     half_update (altivec_val be) altivec_nonzero is_v1 (drop 2 s)
       (drop 2 (fst v), drop 2 (snd v)) (drop 2 (fst p), drop 2 (snd p))"

definition altivec_factor_block :: "bool \<Rightarrow> block \<Rightarrow> block \<Rightarrow> block" where
  "altivec_factor_block be s p =
     altivec_val be (take 2 s) (take 2 p) @ altivec_val be (drop 2 s) (drop 2 p)"

text \<open>The scalar version.\<close>

definition scalar_val :: "u64 \<Rightarrow> u64 \<Rightarrow> u64" where
  "scalar_val v p =
     (let lv = lo32 v; lp = lo32 p; hv = drop_bit 32 v; hp = drop_bit 32 p in lv * lp + hv * hp)"

definition scalar_update_block :: "vmum_config \<Rightarrow> block \<Rightarrow> block \<times> block \<Rightarrow> block \<times> block \<Rightarrow> block" where
  "scalar_update_block C s v p =
     map (\<lambda>j. s ! j XOR scalar_val (vmum_xor C (vmum_le C (fst v ! j)) (fst p ! j))
       (vmum_xor C (vmum_le C (snd v ! j)) (snd p ! j))) [0..<4]"

definition scalar_factor_block :: "block \<Rightarrow> block \<Rightarrow> block" where
  "scalar_factor_block s p = map (\<lambda>j. scalar_val (s ! j) (p ! j)) [0..<4]"

text \<open>The version the preprocessor selects.\<close>

definition vmum_update_block :: "vmum_config \<Rightarrow> block \<Rightarrow> block \<times> block \<Rightarrow> block \<times> block \<Rightarrow> block" where
  "vmum_update_block C s v p = (case simd C of
       AVX2 \<Rightarrow> avx2_update_block (v1 C) s v p
     | ARM_NEON \<Rightarrow> neon_update_block (v1 C) s v p
     | ALTIVEC \<Rightarrow> altivec_update_block (big_endian C) (v1 C) s v p
     | SCALAR \<Rightarrow> scalar_update_block C s v p)"

definition vmum_factor_block :: "vmum_config \<Rightarrow> block \<Rightarrow> block \<Rightarrow> block" where
  "vmum_factor_block C s p = (case simd C of
       AVX2 \<Rightarrow> avx2_factor_block s p
     | ARM_NEON \<Rightarrow> neon_factor_block s p
     | ALTIVEC \<Rightarrow> altivec_factor_block (big_endian C) s p
     | SCALAR \<Rightarrow> scalar_factor_block s p)"

definition vmum_fold_block :: "block \<Rightarrow> u64" where
  "vmum_fold_block b = b ! 0 XOR b ! 1 XOR b ! 2 XOR b ! 3"

definition vmum_zero_block :: block where
  "vmum_zero_block = [0, 0, 0, 0]"

section \<open>Reading keys\<close>

definition key_bytes :: "u8 list \<Rightarrow> nat \<Rightarrow> nat \<Rightarrow> u8 list option" where
  "key_bytes key a k = (if a + k \<le> length key then Some (take k (drop a key)) else None)"

definition read_key :: "vmum_config \<Rightarrow> u8 list \<Rightarrow> nat \<Rightarrow> 'w::len word option" where
  "read_key C key a = map_option (\<lambda>bs. le_word (if big_endian C then rev bs else bs))
     (key_bytes key a (LENGTH('w) div 8))"

definition read64 :: "vmum_config \<Rightarrow> u8 list \<Rightarrow> nat \<Rightarrow> u64 option" where
  "read64 C key a = read_key C key a"

definition read32 :: "vmum_config \<Rightarrow> u8 list \<Rightarrow> nat \<Rightarrow> u64 option" where
  "read32 C key a = map_option (\<lambda>v. ucast (vmum_le32 C v)) (read_key C key a)"

definition read16 :: "vmum_config \<Rightarrow> u8 list \<Rightarrow> nat \<Rightarrow> u64 option" where
  "read16 C key a = map_option (vmum_le16 C) (read_key C key a)"

definition read8 :: "u8 list \<Rightarrow> nat \<Rightarrow> u64 option" where
  "read8 key a = (if a < length key then Some (ucast (key ! a)) else None)"

definition factor :: "vmum_state \<Rightarrow> nat \<Rightarrow> u64 option" where
  "factor S i = (if i < length (factors S) then Some (factors S ! i) else None)"

text \<open>The blocks \<open>((_vmum_block_t *) str)[i]\<close>, \<open>((_vmum_block_t *) _vmum_factors)[i]\<close> and the unroll factors.\<close>

definition key_block :: "vmum_config \<Rightarrow> u8 list \<Rightarrow> nat \<Rightarrow> nat \<Rightarrow> block option" where
  "key_block C key str i = those (map (\<lambda>j. read64 C key (str + 32 * i + 8 * j)) [0..<4])"

definition factor_block :: "vmum_state \<Rightarrow> nat \<Rightarrow> block option" where
  "factor_block S i = those (map (\<lambda>j. factor S (4 * i + j)) [0..<4])"

definition unroll_block :: "vmum_state \<Rightarrow> block option" where
  "unroll_block S = (if length (unroll_factors S) = 4 then Some (unroll_factors S) else None)"

section \<open>Hashing a buffer\<close>

text \<open>\<open>for (i = 0; i < _VMUM_UNROLL_BLOCK_FACTOR; i += 2)\<close>\<close>

primrec vmum_update_blocks :: "vmum_config \<Rightarrow> vmum_state \<Rightarrow> u8 list \<Rightarrow> nat \<Rightarrow> nat list \<Rightarrow> block \<Rightarrow> block option" where
  "vmum_update_blocks C S key str [] s = Some s"
| "vmum_update_blocks C S key str (i # is) s =
     do {
       v0 \<leftarrow> key_block C key str i;
       v1 \<leftarrow> key_block C key str (i + 1);
       p0 \<leftarrow> factor_block S i;
       p1 \<leftarrow> factor_block S (i + 1);
       vmum_update_blocks C S key str is (vmum_update_block C s (v0, v1) (p0, p1))
     }"

text \<open>The \<open>do\<close> loop over 512-byte chunks: the state of the block, \<open>str\<close> and \<open>len\<close>.\<close>

function vmum_chunks :: "vmum_config \<Rightarrow> vmum_state \<Rightarrow> u8 list \<Rightarrow> block \<Rightarrow> nat \<Rightarrow> nat \<Rightarrow> (block \<times> nat \<times> nat) option" where
  "vmum_chunks C S key s str len =
     (if len < 16 * 32 then Some (s, str, len)
      else do {
        s \<leftarrow> vmum_update_blocks C S key str [0, 2, 4, 6, 8, 10, 12, 14] s;
        u \<leftarrow> unroll_block S;
        vmum_chunks C S key (vmum_factor_block C s u) (str + 16 * 32) (len - 16 * 32)
      })"
  by pat_completeness auto
termination
  by (relation "measure (\<lambda>(C, S, key, s, str, len). len)") auto

declare vmum_chunks.simps [simp del]

text \<open>One pair of words mixed into the state, with \<open>_vmum_xor\<close> or with \<open>_vmum_plus\<close>.\<close>

definition vmum_mix :: "(vmum_config \<Rightarrow> u64 \<Rightarrow> u64 \<Rightarrow> u64) \<Rightarrow> vmum_config \<Rightarrow> vmum_state \<Rightarrow> u8 list \<Rightarrow> nat \<Rightarrow> nat \<Rightarrow>
    u64 \<Rightarrow> u64 option" where
  "vmum_mix comb C S key str i state =
     do {
       a \<leftarrow> read64 C key (str + 8 * i);
       f \<leftarrow> factor S i;
       b \<leftarrow> read64 C key (str + 8 * (i + 1));
       g \<leftarrow> factor S (i + 1);
       Some (state XOR vmum C (comb C (vmum_le C a) f) (comb C (vmum_le C b) g))
     }"

text \<open>\<open>for (j = 0; j < n; j += 2, i += 2)\<close>, \<open>n\<close> pairs.\<close>

primrec vmum_mixes :: "(vmum_config \<Rightarrow> u64 \<Rightarrow> u64 \<Rightarrow> u64) \<Rightarrow> vmum_config \<Rightarrow> vmum_state \<Rightarrow> u8 list \<Rightarrow> nat \<Rightarrow> nat \<Rightarrow>
    nat \<Rightarrow> u64 \<Rightarrow> u64 option" where
  "vmum_mixes comb C S key str 0 i state = Some state"
| "vmum_mixes comb C S key str (Suc n) i state =
     do {
       state \<leftarrow> vmum_mix comb C S key str i state;
       vmum_mixes comb C S key str n (i + 2) state
     }"

text \<open>\<open>while (len >= _VMUM_UNROLL_FACTOR * sizeof (uint64_t))\<close>: the state, \<open>i\<close> and \<open>len\<close>.\<close>

function vmum_words :: "vmum_config \<Rightarrow> vmum_state \<Rightarrow> u8 list \<Rightarrow> nat \<Rightarrow> nat \<Rightarrow> nat \<Rightarrow> u64 \<Rightarrow> (u64 \<times> nat \<times> nat) option" where
  "vmum_words C S key str i len state =
     (if len < 16 * 8 then Some (state, i, len)
      else do {
        state \<leftarrow> vmum_mixes vmum_xor C S key str 8 i state;
        vmum_words C S key str (i + 16) (len - 16 * 8) state
      })"
  by pat_completeness auto
termination
  by (relation "measure (\<lambda>(C, S, key, str, i, len, state). len)") auto

declare vmum_words.simps [simp del]

text \<open>The \<open>switch (len)\<close>: the last word of a tail of nine to fifteen bytes, then the odd bytes.\<close>

definition vmum_odd_bytes :: "vmum_config \<Rightarrow> vmum_state \<Rightarrow> u8 list \<Rightarrow> nat \<Rightarrow> nat \<Rightarrow> nat \<Rightarrow> u64 option" where
  "vmum_odd_bytes C S key str i len =
     (if len = 7 then do {
        f \<leftarrow> factor S (i + 1); a \<leftarrow> read32 C key str; b \<leftarrow> read16 C key (str + 4); c \<leftarrow> read8 key (str + 6);
        Some (f + a + (push_bit 32 b + push_bit 48 c))
      }
      else if len = 6 then do {
        f \<leftarrow> factor S (i + 2); a \<leftarrow> read32 C key str; b \<leftarrow> read16 C key (str + 4);
        Some (f + a + push_bit 32 b)
      }
      else if len = 5 then do {
        f \<leftarrow> factor S (i + 3); a \<leftarrow> read32 C key str; b \<leftarrow> read8 key (str + 4);
        Some (f + a + push_bit 32 b)
      }
      else if len = 4 then do {
        f \<leftarrow> factor S (i + 4); a \<leftarrow> read32 C key str;
        Some (f + a)
      }
      else if len = 3 then do {
        f \<leftarrow> factor S (i + 5); a \<leftarrow> read16 C key str; b \<leftarrow> read8 key (str + 2);
        Some (f + a + push_bit 16 b)
      }
      else if len = 2 then do {
        f \<leftarrow> factor S (i + 6); a \<leftarrow> read16 C key str;
        Some (f + a)
      }
      else do {
        f \<leftarrow> factor S (i + 7); a \<leftarrow> read8 key str;
        Some (f + a)
      })"

definition vmum_tail :: "vmum_config \<Rightarrow> vmum_state \<Rightarrow> u8 list \<Rightarrow> nat \<Rightarrow> nat \<Rightarrow> nat \<Rightarrow> u64 \<Rightarrow> u64 option" where
  "vmum_tail C S key str i len state =
     (if 9 \<le> len \<and> len \<le> 15 then do {
        a \<leftarrow> read64 C key str;
        f \<leftarrow> factor S i;
        u \<leftarrow> vmum_odd_bytes C S key (str + 8) i (len - 8);
        Some (state XOR vmum C (u XOR tail_factor S) (vmum_plus C (vmum_le C a) f))
      }
      else if len = 8 then do {
        a \<leftarrow> read64 C key str;
        f \<leftarrow> factor S i;
        Some (state XOR vmum C (vmum_le C a + f) f)
      }
      else if 1 \<le> len \<and> len \<le> 7 then do {
        u \<leftarrow> vmum_odd_bytes C S key str i len;
        Some (state XOR vmum C u (tail_factor S))
      }
      else Some state)"

definition vmum_hash_aligned :: "vmum_config \<Rightarrow> vmum_state \<Rightarrow> u64 \<Rightarrow> u8 list \<Rightarrow> nat \<Rightarrow> u64 option" where
  "vmum_hash_aligned C S start key len =
     do {
       let state = vmum C start (block_start_factor S);
       (state, str, len) \<leftarrow>
         (if len \<ge> 16 * 32 then do {
            (s, str, len) \<leftarrow> vmum_chunks C S key vmum_zero_block 0 len;
            Some (state + vmum_fold_block s, str, len)
          }
          else Some (state, 0, len));
       (state, i, len) \<leftarrow> vmum_words C S key str 0 len state;
       let n = len div 8 div 2;
       state \<leftarrow> vmum_mixes vmum_plus C S key str n i state;
       vmum_tail C S key (str + 8 * (i + 2 * n)) (i + 2 * n) (len - 8 * (2 * n)) state
     }"

definition vmum_final :: "vmum_config \<Rightarrow> u64 \<Rightarrow> u64" where
  "vmum_final C h = vmum C h h"

text \<open>
  \<open>_vmum_hash_default\<close> copies an unaligned key in blocks of 1024 bytes; the loop over the
  blocks. \<open>aligned\<close> tells whether the key's address is a multiple of eight.
\<close>

function vmum_block_loop :: "vmum_config \<Rightarrow> vmum_state \<Rightarrow> u8 list \<Rightarrow> nat \<Rightarrow> nat \<Rightarrow> u64 \<Rightarrow> u64 option" where
  "vmum_block_loop C S key str len result =
     (if len = 0 then Some result
      else do {
        let block_len = (if len < 1024 then len else 1024);
        buf \<leftarrow> key_bytes key str block_len;
        result \<leftarrow> vmum_hash_aligned C S result buf block_len;
        vmum_block_loop C S key (str + block_len) (len - block_len) result
      })"
  by pat_completeness auto
termination
  by (relation "measure (\<lambda>(C, S, key, str, len, result). len)") auto

declare vmum_block_loop.simps [simp del]

definition vmum_hash_default :: "vmum_config \<Rightarrow> vmum_state \<Rightarrow> bool \<Rightarrow> u8 list \<Rightarrow> nat \<Rightarrow> u64 \<Rightarrow> u64 option" where
  "vmum_hash_default C S aligned key len seed =
     do {
       let result = seed + of_nat len;
       result \<leftarrow> (if aligned then vmum_hash_aligned C S result key len
                  else vmum_block_loop C S key 0 len result);
       Some (vmum_final C result)
     }"

section \<open>Randomization\<close>

text \<open>\<open>rand\<close> is a parameter: from the generator's state, a number and the next state.\<close>

primrec vmum_next_bytes :: "('r \<Rightarrow> nat \<times> 'r) \<Rightarrow> nat \<Rightarrow> u64 \<Rightarrow> 'r \<Rightarrow> u64 \<times> 'r" where
  "vmum_next_bytes rand 0 start r = (start, r)"
| "vmum_next_bytes rand (Suc n) start r =
     (let (x, r) = rand r in vmum_next_bytes rand n (push_bit 8 start OR of_nat (x mod 256)) r)"

definition vmum_next_factor :: "('r \<Rightarrow> nat \<times> 'r) \<Rightarrow> 'r \<Rightarrow> u64 \<times> 'r" where
  "vmum_next_factor rand r = vmum_next_bytes rand 8 0 r"

primrec vmum_next_factors :: "('r \<Rightarrow> nat \<times> 'r) \<Rightarrow> nat \<Rightarrow> 'r \<Rightarrow> u64 list \<times> 'r" where
  "vmum_next_factors rand 0 r = ([], r)"
| "vmum_next_factors rand (Suc n) r =
     (let (f, r) = vmum_next_factor rand r; (fs, r) = vmum_next_factors rand n r in (f # fs, r))"

text \<open>\<open>srand\<close> takes an \<open>unsigned int\<close>: the seed is truncated to 32 bits.\<close>

definition vmum_hash_randomize :: "(u32 \<Rightarrow> 'r) \<Rightarrow> ('r \<Rightarrow> nat \<times> 'r) \<Rightarrow> vmum_state \<Rightarrow> u64 \<Rightarrow> vmum_state" where
  "vmum_hash_randomize srand rand S seed =
     (let r = srand (ucast seed);
          (hs, r) = vmum_next_factor rand r;
          (ks, r) = vmum_next_factor rand r;
          (f1, r) = vmum_next_factor rand r;
          (f2, r) = vmum_next_factor rand r;
          (bs, r) = vmum_next_factor rand r;
          (tf, r) = vmum_next_factor rand r;
          (us, r) = vmum_next_factors rand (length (unroll_factors S)) r;
          (fs, r) = vmum_next_factors rand (length (factors S)) r
      in \<lparr>hash_step_factor = hs, key_step_factor = ks, block_start_factor = bs, tail_factor = tf,
          finish_factor1 = f1, finish_factor2 = f2, unroll_factors = us, factors = fs\<rparr>)"

section \<open>The interface\<close>

definition vmum_hash_init :: "u64 \<Rightarrow> u64" where
  "vmum_hash_init seed = seed"

definition vmum_hash_step :: "vmum_config \<Rightarrow> vmum_state \<Rightarrow> u64 \<Rightarrow> u64 \<Rightarrow> u64" where
  "vmum_hash_step C S h key = vmum C h (hash_step_factor S) XOR vmum C key (key_step_factor S)"

definition vmum_hash_finish :: "vmum_config \<Rightarrow> u64 \<Rightarrow> u64" where
  "vmum_hash_finish C h = vmum_final C h"

definition vmum_hash64 :: "vmum_config \<Rightarrow> vmum_state \<Rightarrow> u64 \<Rightarrow> u64 \<Rightarrow> u64" where
  "vmum_hash64 C S key seed = vmum_hash_finish C (vmum_hash_step C S (vmum_hash_init (seed + 8)) key)"

definition vmum_hash :: "vmum_config \<Rightarrow> vmum_state \<Rightarrow> bool \<Rightarrow> u8 list \<Rightarrow> nat \<Rightarrow> u64 \<Rightarrow> u64 option" where
  "vmum_hash C S aligned key len seed =
     (if unaligned_access C
      then map_option (vmum_final C) (vmum_hash_aligned C S (seed + of_nat len) key len)
      else vmum_hash_default C S aligned key len seed)"

end
