(* ===== verification/Vmum_Correct.thy ===== *)
theory Vmum_Correct
  imports Vmum
begin

text \<open>
  Correctness of \<open>vmum.h\<close>: the product computed by parts is the 128-bit product, the vector
  versions of the block update agree with the scalar one where no word equals its
  multiplier, every read stays inside the key and the multiplier tables, and the hash of a
  key does not depend on the byte order where the configuration promises that.
\<close>

section \<open>The 128-bit product\<close>

lemma unat_add_carry:
  fixes a b :: "'a::len word"
  shows "unat a + unat b = unat (a + b) + of_bool (a + b < a) * 2 ^ LENGTH('a)"
proof -
  define M where "M = (2 :: nat) ^ LENGTH('a)"
  have bounds: "unat a < M" "unat b < M" by (simp_all add: M_def)
  have sum: "unat (a + b) = (unat a + unat b) mod M" by (simp add: unat_word_ariths M_def)
  have "unat a + unat b = unat (a + b) + of_bool (a + b < a) * M"
  proof (cases "unat a + unat b < M")
    case True
    then have "unat (a + b) = unat a + unat b" using sum by simp
    then show ?thesis by (simp add: word_less_nat_alt)
  next
    case False
    then have "unat (a + b) = unat a + unat b - M" using sum bounds by (simp add: mod_if)
    then show ?thesis using False bounds by (simp add: word_less_nat_alt)
  qed
  then show ?thesis by (simp only: M_def)
qed

lemma unat_lo32: "unat (lo32 v) = unat v mod 2 ^ 32"
proof -
  have "lo32 v = take_bit 32 v" unfolding lo32_def by (intro bit_word_eqI) (simp add: bit_simps)
  then have "unat (lo32 v) = take_bit 32 (unat v)" by (simp only: unsigned_take_bit_eq)
  then show ?thesis by (simp only: take_bit_eq_mod)
qed

lemma unat_hi32: "unat (drop_bit 32 v :: u64) = unat v div 2 ^ 32"
  unfolding unat_drop_bit_eq by (rule drop_bit_eq_div)

lemma unat_push32: "unat (push_bit 32 v :: u64) = unat v mod 2 ^ 32 * 2 ^ 32"
proof -
  have "push_bit 32 v = v * 2 ^ 32" by (simp add: push_bit_eq_mult)
  then have "unat (push_bit 32 v) = unat v * 2 ^ 32 mod 2 ^ 64" by (simp add: unat_word_ariths)
  also have "\<dots> = (unat v mod 2 ^ 32) * 2 ^ 32" using mult_mod_left [of "unat v" "2 ^ 32" "2 ^ 32"] by simp
  finally show ?thesis .
qed

lemma unat_mult_32:
  assumes "unat a < 2 ^ 32" "unat b < 2 ^ 32"
  shows "unat (a * b :: u64) = unat a * unat b"
proof (rule unat_mult_less)
  have "unat a * unat b \<le> (2 ^ 32 - 1) * (2 ^ 32 - 1)" using assms by (intro mult_mono) simp_all
  then show "unat a * unat b < 2 ^ LENGTH(64)" by simp
qed

lemma split_product:
  fixes V P B :: nat
  shows "V * P = (V div B) * (P div B) * B * B + ((V div B) * (P mod B) + (P div B) * (V mod B)) * B +
    (V mod B) * (P mod B)"
proof -
  define a b c d where "a = V div B" and "b = V mod B" and "c = P div B" and "d = P mod B"
  have "V = a * B + b" "P = c * B + d" by (simp_all add: a_def b_def c_def d_def)
  then have "V * P = a * c * B * B + (a * d + c * b) * B + b * d" by (simp add: algebra_simps)
  then show ?thesis by (simp add: a_def b_def c_def d_def)
qed

text \<open>The school method on base \<open>B\<close>: the two carries make up for the lost overflows.\<close>

lemma carries_exact:
  fixes B rh m0 m1 rl t lo c1 c2 :: nat
  assumes "rl + m0 mod B * B = t + c1 * (B * B)" "t + m1 mod B * B = lo + c2 * (B * B)"
  shows "(rh + m0 div B + m1 div B + c1 + c2) * (B * B) + lo = rh * B * B + (m0 + m1) * B + rl"
proof -
  have "m0 * B = m0 div B * (B * B) + m0 mod B * B" "m1 * B = m1 div B * (B * B) + m1 mod B * B"
    by (simp_all add: mult.assoc [symmetric] distrib_right [symmetric])
  then show ?thesis using assms by (simp add: algebra_simps)
qed

lemma vmum_by_parts_exact:
  assumes "vmum_by_parts True v p = (hi, lo)"
  shows "unat hi * 2 ^ 64 + unat lo = unat v * unat p"
proof -
  define B where "B = (2 :: nat) ^ 32"
  have BB: "2 ^ 64 = B * B" by (simp add: B_def)
  define hv hp lv lp where "hv = drop_bit 32 v" and "hp = drop_bit 32 p" and "lv = lo32 v" and "lp = lo32 p"
  have n: "unat hv = unat v div B" "unat hp = unat p div B" "unat lv = unat v mod B" "unat lp = unat p mod B"
    by (simp_all only: hv_def hp_def lv_def lp_def unat_hi32 unat_lo32 B_def)
  have "unat v < B * B" "unat p < B * B" using unsigned_less [of v] unsigned_less [of p] by (simp_all add: B_def)
  then have small: "unat hv < B" "unat hp < B" "unat lv < B" "unat lp < B"
    unfolding n by (auto simp: less_mult_imp_div_less B_def)
  define rh m0 m1 rl where "rh = hv * hp" and "m0 = hv * lp" and "m1 = hp * lv" and "rl = lv * lp"
  have prods: "unat rh = unat hv * unat hp" "unat m0 = unat hv * unat lp" "unat m1 = unat hp * unat lv"
      "unat rl = unat lv * unat lp"
    unfolding rh_def m0_def m1_def rl_def using small by (simp_all add: unat_mult_32 B_def)
  define t where "t = rl + push_bit 32 m0"
  have lo: "lo = t + push_bit 32 m1"
      and hi: "hi = rh + drop_bit 32 m0 + drop_bit 32 m1 + (of_bool (t < rl) + of_bool (lo < t))"
    using assms unfolding vmum_by_parts_def Let_def t_def rh_def m0_def m1_def rl_def hv_def hp_def lv_def lp_def
    by (auto simp only: if_True prod.inject)
  define c1 c2 where "c1 = (of_bool (t < rl) :: nat)" and "c2 = (of_bool (lo < t) :: nat)"
  have "unat rl + unat m0 mod B * B = unat t + c1 * (B * B)" "unat t + unat m1 mod B * B = unat lo + c2 * (B * B)"
    using unat_add_carry [of rl "push_bit 32 m0"] unat_add_carry [of t "push_bit 32 m1"]
    by (simp_all only: unat_push32 t_def [symmetric] lo [symmetric] c1_def c2_def len_num1 BB B_def len_bit0 len_bit1) simp_all
  from carries_exact [OF this, of "unat rh"]
  have exact: "(unat rh + unat m0 div B + unat m1 div B + c1 + c2) * (B * B) + unat lo = unat v * unat p"
    unfolding prods n split_product [of "unat v" "unat p" B] .
  let ?hi = "unat rh + unat m0 div B + unat m1 div B + c1 + c2"
  have hi_eq: "hi = of_nat ?hi"
    unfolding hi c1_def c2_def B_def unat_hi32 [symmetric] by simp
  have "?hi * (B * B) \<le> unat v * unat p" using exact by linarith
  also have "\<dots> < (B * B) * (B * B)" using \<open>unat v < B * B\<close> \<open>unat p < B * B\<close>
    by (intro mult_strict_mono) (auto simp: B_def)
  finally have "?hi < 2 ^ 64" unfolding BB by (simp only: mult_less_cancel2)
  then have "unat hi = ?hi" unfolding hi_eq by (intro unat_of_nat_less) simp
  then show ?thesis using exact by (simp only: BB)
qed

text \<open>With 128-bit integers.\<close>

lemma vmum_int128_exact:
  fixes v p :: u64
  defines "r \<equiv> (ucast v :: 128 word) * ucast p"
  shows "unat (ucast (drop_bit 64 r) :: u64) * 2 ^ 64 + unat (ucast r :: u64) = unat v * unat p"
proof -
  have lt: "unat v * unat p < 2 ^ 64 * 2 ^ 64"
    using unsigned_less [of v] unsigned_less [of p] by (intro mult_strict_mono) auto
  have u: "unat (ucast x :: 128 word) = unat x" for x :: u64
    unfolding unsigned_ucast_eq by (simp add: take_bit_eq_mod unsigned_less [THEN less_le_trans])
  have r: "unat r = unat v * unat p" unfolding r_def using lt by (subst unat_mult_less) (simp_all add: u)
  have "unat (ucast r :: u64) = unat r mod 2 ^ 64"
    unfolding unsigned_ucast_eq by (simp add: take_bit_eq_mod)
  moreover have "unat (ucast (drop_bit 64 r) :: u64) = unat r div 2 ^ 64"
    using lt unfolding unsigned_ucast_eq unat_drop_bit_eq r
    by (simp add: take_bit_eq_mod drop_bit_eq_div less_mult_imp_div_less)
  ultimately show ?thesis unfolding r [symmetric] by simp
qed

text \<open>Both give the sum of the high and the low half of the exact product.\<close>

lemma halves_unique:
  fixes hi lo :: u64
  assumes "unat hi * 2 ^ 64 + unat lo = n"
  shows "hi = of_nat (n div 2 ^ 64)" "lo = of_nat (n mod 2 ^ 64)"
proof -
  have "unat lo < 2 ^ 64" using unsigned_less [of lo] by simp
  then have "n div 2 ^ 64 = unat hi" "n mod 2 ^ 64 = unat lo" unfolding assms [symmetric] by simp_all
  then show "hi = of_nat (n div 2 ^ 64)" "lo = of_nat (n mod 2 ^ 64)" by simp_all
qed

lemma vmum_exact:
  assumes "use_int128 C \<or> target_independent C"
  shows "vmum C v p = of_nat (unat v * unat p div 2 ^ 64) + of_nat (unat v * unat p mod 2 ^ 64)"
proof (cases "use_int128 C")
  case True
  then show ?thesis using halves_unique [OF vmum_int128_exact [of v p]] by (simp add: vmum_def Let_def)
next
  case False
  then have "target_independent C" using assms by simp
  moreover obtain hi lo where parts: "vmum_by_parts True v p = (hi, lo)" by fastforce
  ultimately show ?thesis
    using False halves_unique [OF vmum_by_parts_exact [OF parts]] by (simp add: vmum_def)
qed

section \<open>Reads stay inside the key and the tables\<close>

definition vmum_state_ok :: "vmum_state \<Rightarrow> bool" where
  "vmum_state_ok S \<longleftrightarrow> length (factors S) = 80 \<and> length (unroll_factors S) = 4"

lemma vmum_default_ok [simp]: "vmum_state_ok vmum_default_state"
  by (simp add: vmum_state_ok_def vmum_default_state_def vmum_default_factors_def vmum_default_unroll_def)

lemma read_key_defined: "a + LENGTH('w) div 8 \<le> length key \<Longrightarrow> \<exists>v. read_key C key a = Some (v :: 'w::len word)"
  by (simp add: read_key_def key_bytes_def)

lemma reads_defined:
  "a + 8 \<le> length key \<Longrightarrow> \<exists>v. read64 C key a = Some v"
  "a + 4 \<le> length key \<Longrightarrow> \<exists>v. read32 C key a = Some v"
  "a + 2 \<le> length key \<Longrightarrow> \<exists>v. read16 C key a = Some v"
  "a < length key \<Longrightarrow> \<exists>v. read8 key a = Some v"
  using read_key_defined [of a key C, where 'w = 64] read_key_defined [of a key C, where 'w = 32]
    read_key_defined [of a key C, where 'w = 16]
  by (auto simp: read64_def read32_def read16_def read8_def)

lemma factor_defined: "vmum_state_ok S \<Longrightarrow> i < 80 \<Longrightarrow> \<exists>f. factor S i = Some f"
  by (simp add: factor_def vmum_state_ok_def)

lemma those_map_defined:
  "(\<And>x. x \<in> set xs \<Longrightarrow> \<exists>y. f x = Some y) \<Longrightarrow> \<exists>ys. those (map f xs) = Some ys \<and> length ys = length xs"
  by (induction xs) fastforce+

lemma key_block_defined:
  assumes "str + 32 * i + 32 \<le> length key"
  shows "\<exists>b. key_block C key str i = Some b \<and> length b = 4"
proof -
  have "\<exists>v. read64 C key (str + 32 * i + 8 * j) = Some v" if "j \<in> set [0..<4]" for j
    using that assms by (intro reads_defined(1)) simp
  from those_map_defined [of "[0..<4]", OF this] show ?thesis by (simp add: key_block_def)
qed

lemma factor_block_defined:
  assumes "vmum_state_ok S" "i < 20"
  shows "\<exists>b. factor_block S i = Some b \<and> length b = 4"
proof -
  have "\<exists>v. factor S (4 * i + j) = Some v" if "j \<in> set [0..<4]" for j
    using that assms by (intro factor_defined) simp_all
  from those_map_defined [of "[0..<4]", OF this] show ?thesis by (simp add: factor_block_def)
qed

lemma update_blocks_defined:
  assumes "vmum_state_ok S" "\<And>i. i \<in> set is \<Longrightarrow> i < 15" "\<And>i. i \<in> set is \<Longrightarrow> str + 32 * i + 64 \<le> length key"
  shows "\<exists>s'. vmum_update_blocks C S key str is s = Some s'"
  using assms(2,3)
proof (induction "is" arbitrary: s)
  case (Cons i "is")
  obtain v0 v1 where "key_block C key str i = Some v0" "key_block C key str (i + 1) = Some v1"
    using key_block_defined [of str i key C] key_block_defined [of str "i + 1" key C] Cons.prems(2) [of i] by auto
  moreover obtain p0 p1 where "factor_block S i = Some p0" "factor_block S (i + 1) = Some p1"
    using factor_block_defined [OF assms(1), of i] factor_block_defined [OF assms(1), of "i + 1"] Cons.prems(1) [of i]
    by auto
  ultimately show ?case using Cons by simp
qed simp

lemma chunks_defined:
  assumes "vmum_state_ok S" "str + len \<le> length key"
  shows "\<exists>s' str'. vmum_chunks C S key s str len = Some (s', str', len mod 512) \<and> str' + len mod 512 = str + len"
  using assms(2)
proof (induction len arbitrary: s str rule: less_induct)
  case (less len)
  show ?case
  proof (cases "len < 512")
    case True
    then show ?thesis by (subst vmum_chunks.simps) simp
  next
    case False
    have "\<exists>s1. vmum_update_blocks C S key str [0, 2, 4, 6, 8, 10, 12, 14] s = Some s1"
      by (rule update_blocks_defined [OF assms(1)]) (use less.prems False in auto)
    then obtain s1 where "vmum_update_blocks C S key str [0, 2, 4, 6, 8, 10, 12, 14] s = Some s1" by blast
    moreover obtain u where "unroll_block S = Some u" using assms(1) by (simp add: unroll_block_def vmum_state_ok_def)
    moreover from False obtain m where m: "len = m + 512" by (metis add.commute le_Suc_ex not_less)
    ultimately show ?thesis
      using less.IH [of m "str + 512" "vmum_factor_block C s1 u"] less.prems
      by (subst vmum_chunks.simps) (auto simp del: vmum_update_blocks.simps)
  qed
qed

lemma mix_defined:
  assumes "vmum_state_ok S" "i + 1 < 80" "str + 8 * i + 16 \<le> length key"
  shows "\<exists>h. vmum_mix comb C S key str i h0 = Some h"
  using reads_defined(1) [of "str + 8 * i" key C] reads_defined(1) [of "str + 8 * (i + 1)" key C]
    factor_defined [OF assms(1), of i] factor_defined [OF assms(1), of "i + 1"] assms(2,3)
  by (auto simp: vmum_mix_def)

lemma mixes_defined:
  assumes "vmum_state_ok S" "i + 2 * n \<le> 80" "str + 8 * (i + 2 * n) \<le> length key"
  shows "\<exists>h. vmum_mixes comb C S key str n i h0 = Some h"
  using assms(2,3)
proof (induction n arbitrary: i h0)
  case (Suc n)
  obtain h where "vmum_mix comb C S key str i h0 = Some h"
    using mix_defined [OF assms(1), of i str key comb C h0] Suc.prems by auto
  then show ?case using Suc.IH [of "i + 2" h] Suc.prems by simp
qed simp

lemma words_defined:
  assumes "vmum_state_ok S" "i + len div 8 \<le> 80" "str + 8 * i + len \<le> length key"
  shows "\<exists>h. vmum_words C S key str i len h0 = Some (h, i + 16 * (len div 128), len mod 128)"
  using assms(2,3)
proof (induction len arbitrary: i h0 rule: less_induct)
  case (less len)
  show ?case
  proof (cases "len < 128")
    case True
    then show ?thesis by (subst vmum_words.simps) simp
  next
    case False
    then obtain m where m: "len = m + 128" by (metis add.commute le_Suc_ex not_less)
    have d: "len div 8 = m div 8 + 16" "len div 128 = Suc (m div 128)" "len mod 128 = m mod 128"
      unfolding m by simp_all
    then obtain h where "vmum_mixes vmum_xor C S key str 8 i h0 = Some h"
      using mixes_defined [OF assms(1), of i 8 str key vmum_xor C h0] less.prems m by auto
    then show ?thesis
      using less.IH [of m "i + 16" h] less.prems d m by (subst vmum_words.simps) auto
  qed
qed

lemma odd_bytes_defined:
  assumes "vmum_state_ok S" "i + 7 < 80" "1 \<le> len" "len \<le> 7" "str + len \<le> length key"
  shows "\<exists>u. vmum_odd_bytes C S key str i len = Some u"
proof -
  have f: "\<exists>f. factor S (i + j) = Some f" if "j \<le> 7" for j
    using factor_defined [OF assms(1), of "i + j"] assms(2) that by simp
  consider "len = 7" | "len = 6" | "len = 5" | "len = 4" | "len = 3" | "len = 2" | "len = 1"
    using assms(3,4) by linarith
  then show ?thesis
    using f [of 1] f [of 2] f [of 3] f [of 4] f [of 5] f [of 6] f [of 7] assms(5)
      reads_defined(2) [of str key C] reads_defined(3) [of str key C] reads_defined(3) [of "str + 4" key C]
      reads_defined(4) [of str key] reads_defined(4) [of "str + 2" key] reads_defined(4) [of "str + 4" key]
      reads_defined(4) [of "str + 6" key]
    by cases (auto simp: vmum_odd_bytes_def)
qed

lemma tail_defined:
  assumes "vmum_state_ok S" "i + 7 < 80" "len < 16" "str + len \<le> length key"
  shows "\<exists>h. vmum_tail C S key str i len h0 = Some h"
proof -
  obtain f where f: "factor S i = Some f" using factor_defined [OF assms(1), of i] assms(2) by auto
  consider "9 \<le> len" | "len = 8" | "1 \<le> len" "len \<le> 7" | "len = 0" by linarith
  then show ?thesis
  proof cases
    case 1
    then obtain a u where "read64 C key str = Some a" "vmum_odd_bytes C S key (str + 8) i (len - 8) = Some u"
      using reads_defined(1) [of str key C] odd_bytes_defined [OF assms(1,2), of "len - 8" "str + 8" key C] assms(3,4)
      by fastforce
    then show ?thesis using 1 f assms(3) by (simp add: vmum_tail_def)
  next
    case 2
    then show ?thesis using f reads_defined(1) [of str key C] assms(4) by (auto simp: vmum_tail_def)
  next
    case 3
    then show ?thesis using odd_bytes_defined [OF assms(1,2) 3, of str key C] assms(4) by (auto simp: vmum_tail_def)
  qed (simp add: vmum_tail_def)
qed

lemma hash_aligned_defined:
  assumes ok: "vmum_state_ok S" and len: "len \<le> length key"
  shows "\<exists>h. vmum_hash_aligned C S start key len = Some h"
proof -
  let ?chunks = "if len \<ge> 16 * 32 then do {
      (s, str, len) \<leftarrow> vmum_chunks C S key vmum_zero_block 0 len;
      Some (vmum C start (block_start_factor S) + vmum_fold_block s, str, len) }
    else Some (vmum C start (block_start_factor S), 0, len)"
  obtain h1 str where 1: "?chunks = Some (h1, str, len mod 512)" "str + len mod 512 = len"
    using chunks_defined [OF ok, of 0 len key C vmum_zero_block] len by (cases "len < 512") auto
  define l where "l = len mod 512"
  have l: "l < 512" "str + l \<le> length key" using 1(2) len by (auto simp: l_def)
  have "l div 8 \<le> 80" using l(1) by simp
  then obtain h2 where 2: "vmum_words C S key str 0 l h1 = Some (h2, 16 * (l div 128), l mod 128)"
    using words_defined [OF ok, of 0 l str key C h1] l by auto
  define i n where "i = 16 * (l div 128)" and "n = l mod 128 div 8 div 2"
  have "l div 128 < 4" using l(1) by (simp add: less_mult_imp_div_less)
  then have i: "i \<le> 48" by (simp add: i_def)
  have n: "n \<le> 7" "16 * n \<le> l mod 128" "l mod 128 - 16 * n < 16" unfolding n_def by auto
  have sum: "8 * i + l mod 128 = l" unfolding i_def by simp
  obtain h3 where 3: "vmum_mixes vmum_plus C S key str n i h2 = Some h3"
    using mixes_defined [OF ok, of i n str key vmum_plus C h2] i n sum l by auto
  obtain h where "vmum_tail C S key (str + 8 * (i + 2 * n)) (i + 2 * n) (l mod 128 - 8 * (2 * n)) h3 = Some h"
    using tail_defined [OF ok, of "i + 2 * n" "l mod 128 - 8 * (2 * n)" "str + 8 * (i + 2 * n)" key C h3]
      i n sum l by auto
  then show ?thesis using 1(1) 2 3 by (simp add: vmum_hash_aligned_def Let_def l_def i_def n_def)
qed

lemma block_loop_defined:
  assumes "vmum_state_ok S" "str + len \<le> length key"
  shows "\<exists>h. vmum_block_loop C S key str len h0 = Some h"
  using assms(2)
proof (induction len arbitrary: str h0 rule: less_induct)
  case (less len)
  show ?case
  proof (cases "len = 0")
    case True
    then show ?thesis by (subst vmum_block_loop.simps) simp
  next
    case False
    define bl where "bl = (if len < 1024 then len else 1024)"
    have bl: "0 < bl" "bl \<le> len" using False by (auto simp: bl_def)
    have buf: "key_bytes key str bl = Some (take bl (drop str key))"
      using less.prems bl by (simp add: key_bytes_def)
    obtain h where "vmum_hash_aligned C S h0 (take bl (drop str key)) bl = Some h"
      using hash_aligned_defined [OF assms(1), of bl "take bl (drop str key)" C h0] less.prems bl by auto
    then show ?thesis
      using less.IH [of "len - bl" "str + bl" h] less.prems bl False buf
      by (subst vmum_block_loop.simps) (simp add: Let_def flip: bl_def)
  qed
qed

lemma vmum_hash_defined:
  assumes "vmum_state_ok S" "len \<le> length key"
  shows "\<exists>h. vmum_hash C S aligned key len seed = Some h"
  using hash_aligned_defined [OF assms, of C "seed + of_nat len"]
    block_loop_defined [OF assms(1), of 0 len key C "seed + of_nat len"] assms(2)
  by (cases aligned) (auto simp: vmum_hash_def vmum_hash_default_def)

section \<open>Vector units\<close>

text \<open>Every vector unit multiplies and adds the halves of a lane as the scalar code does.\<close>

lemma bit_lo32: "bit (lo32 v) n \<longleftrightarrow> n < 32 \<and> bit v n"
  by (auto simp: lo32_def bit_simps)

lemma lo32_signed_drop: "lo32 (signed_drop_bit 32 v) = drop_bit 32 v"
  by (rule bit_word_eqI) (auto simp: bit_lo32 bit_simps dest: bit_imp_le_length)

lemma ucast_ucast_32: "(ucast (ucast v :: u32) :: u64) = lo32 v"
  by (simp add: lo32_def)

lemma lo32_drop: "lo32 (drop_bit 32 v) = drop_bit 32 v"
  by (rule bit_word_eqI) (auto simp: bit_lo32 bit_simps dest: bit_imp_le_length)

lemma length_4: "length xs = 4 \<longleftrightarrow> (\<exists>a b c d. xs = [a, b, c, d])"
  by (auto simp: numeral_eq_Suc length_Suc_conv)

lemma upt_4: "[0..<4] = [0, 1, 2, 3]"
  by (simp add: upt_rec)

lemma avx2_block_lanes: "length v = length p \<Longrightarrow> avx2_block v p = map2 scalar_val v p"
  by (induction v p rule: list_induct2)
    (simp_all add: avx2_block_def pmuludq256_def scalar_val_def lo32_signed_drop Let_def)

lemma neon_val_lanes: "neon_val [a, b] [c, d] = [scalar_val a c, scalar_val b d]"
  by (simp add: neon_val_def u32x4_def vmull_u32_def vpaddq_u64_def scalar_val_def ucast_ucast_32 lo32_drop Let_def)

lemma altivec_val_lanes: "altivec_val be [a, b] [c, d] = [scalar_val a c, scalar_val b d]"
  by (simp add: altivec_val_def u32x4_def vec_mule_def vec_mulo_def scalar_val_def ucast_ucast_32 lo32_drop Let_def
      add.commute)

lemma factor_block_same:
  assumes "length s = 4" "length p = 4"
  shows "vmum_factor_block C s p = scalar_factor_block s p"
  using assms unfolding length_4
  by (auto simp: vmum_factor_block_def avx2_factor_block_def neon_factor_block_def altivec_factor_block_def
      scalar_factor_block_def avx2_block_lanes neon_val_lanes altivec_val_lanes upt_4 split: simd.split)

lemma all_nonzero:
  "0 \<notin> set v \<Longrightarrow> length v = 4 \<Longrightarrow> avx2_nonzero v = v"
  "0 \<notin> set v \<Longrightarrow> neon_nonzero v = v"
  "0 \<notin> set v \<Longrightarrow> length v = 2 \<Longrightarrow> altivec_nonzero v = v"
proof -
  show "0 \<notin> set v \<Longrightarrow> neon_nonzero v = v" by (induction v) (auto simp: neon_nonzero_def Let_def)
  show "0 \<notin> set v \<Longrightarrow> length v = 4 \<Longrightarrow> avx2_nonzero v = v"
    by (auto simp: length_4 avx2_nonzero_def pcmpeqq256_def Let_def)
  show "0 \<notin> set v \<Longrightarrow> length v = 2 \<Longrightarrow> altivec_nonzero v = v"
    by (auto simp: numeral_eq_Suc length_Suc_conv altivec_nonzero_def vec_sel_def Let_def)
qed

lemma xor_zero_iff: "(a :: 'w::len word) XOR b = 0 \<longleftrightarrow> a = b"
proof
  assume "a XOR b = 0"
  then have "(a XOR b) XOR b = 0 XOR b" by simp
  then show "a = b" by (simp add: xor.assoc)
qed simp

text \<open>The update agrees unless a word equals its multiplier, where the vector code substitutes all ones.\<close>

definition lanes_differ :: "block \<Rightarrow> block \<Rightarrow> bool" where
  "lanes_differ v p \<longleftrightarrow> list_all2 (\<noteq>) v p"

lemma update_block_same:
  assumes len: "length s = 4" "length (fst v) = 4" "length (snd v) = 4" "length (fst p) = 4" "length (snd p) = 4"
    and ok: "v1 C \<or> lanes_differ (fst v) (fst p) \<and> lanes_differ (snd v) (snd p)"
    and le: "\<not> (big_endian C \<and> target_independent C)"
  shows "vmum_update_block C s v p = scalar_update_block C s v p"
proof -
  obtain a b where v: "v = (a, b)" by (cases v)
  obtain c d where p: "p = (c, d)" by (cases p)
  obtain s0 s1 s2 s3 a0 a1 a2 a3 b0 b1 b2 b3 c0 c1 c2 c3 d0 d1 d2 d3
    where l: "s = [s0, s1, s2, s3]" "a = [a0, a1, a2, a3]" "b = [b0, b1, b2, b3]" "c = [c0, c1, c2, c3]"
      "d = [d0, d1, d2, d3]"
    using len unfolding v p length_4 fst_conv snd_conv by blast
  have le': "vmum_le C x = x" for x using le by (auto simp: vmum_le_def)
  have neon: "neon_nonzero [x, y] = [x, y]" and altivec: "altivec_nonzero [x, y] = [x, y]"
    if "x \<noteq> 0" "y \<noteq> 0" for x y
    using that all_nonzero [of "[x, y]"] by simp_all
  have avx2: "avx2_nonzero [x, y, z, w] = [x, y, z, w]" if "x \<noteq> 0" "y \<noteq> 0" "z \<noteq> 0" "w \<noteq> 0" for x y z w
    using that all_nonzero(1) [of "[x, y, z, w]"] by simp
  note ok' = ok [unfolded v p l lanes_differ_def fst_conv snd_conv list_all2_Cons]
  show ?thesis
  proof (cases "simd C")
    case AVX2
    show ?thesis
      using ok' unfolding v p l vmum_update_block_def AVX2
      by (auto simp: avx2_update_block_def scalar_update_block_def upt_4 le' avx2_block_lanes avx2 vmum_xor_def xor_zero_iff)
  next
    case ARM_NEON
    show ?thesis
      using ok' unfolding v p l vmum_update_block_def ARM_NEON
      by (auto simp: neon_update_block_def half_update_def vmum_xor_def xor_zero_iff scalar_update_block_def upt_4 le'
          neon_val_lanes neon)
  next
    case ALTIVEC
    show ?thesis
      using ok' unfolding v p l vmum_update_block_def ALTIVEC
      by (auto simp: altivec_update_block_def half_update_def vmum_xor_def xor_zero_iff scalar_update_block_def upt_4 le'
          altivec_val_lanes altivec)
  next
    case SCALAR
    then show ?thesis by (simp add: vmum_update_block_def)
  qed
qed

lemma length_scalar_block [simp]: "length (scalar_update_block C s v p) = 4" "length (scalar_factor_block s q) = 4"
  by (simp_all add: scalar_update_block_def scalar_factor_block_def)

section \<open>Configurations that give the same hash\<close>

text \<open>What two configurations must share for everything after the block loop to agree.\<close>

definition same_words :: "vmum_config \<Rightarrow> vmum_config \<Rightarrow> bool" where
  "same_words C C' \<longleftrightarrow> vmum C = vmum C' \<and> v1 C = v1 C' \<and> read32 C = read32 C' \<and> read16 C = read16 C' \<and>
     (\<forall>key a. map_option (vmum_le C) (read64 C key a) = map_option (vmum_le C') (read64 C' key a))"

lemma same_words_comb: "same_words C C' \<Longrightarrow> vmum_xor C = vmum_xor C' \<and> vmum_plus C = vmum_plus C'"
  by (auto simp: same_words_def vmum_xor_def vmum_plus_def fun_eq_iff)

lemma read64_bind:
  assumes "same_words C C'" "\<And>v v'. vmum_le C v = vmum_le C' v' \<Longrightarrow> f v = g v'"
  shows "read64 C key a \<bind> f = read64 C' key a \<bind> g"
proof -
  have "map_option (vmum_le C) (read64 C key a) = map_option (vmum_le C') (read64 C' key a)"
    using assms(1) by (simp add: same_words_def)
  then show ?thesis
    using assms(2) by (cases "read64 C key a"; cases "read64 C' key a") auto
qed

lemma same_mix:
  assumes "same_words C C'" "comb C = comb C'"
  shows "vmum_mix comb C S key str i h = vmum_mix comb C' S key str i h"
proof -
  have "vmum C = vmum C'" using assms(1) by (simp add: same_words_def)
  then show ?thesis
    unfolding vmum_mix_def using assms(2)
    by (intro read64_bind [OF assms(1)] Option.bind_cong refl) simp
qed

lemma same_mixes:
  assumes "same_words C C'" "comb C = comb C'"
  shows "vmum_mixes comb C S key str n i h = vmum_mixes comb C' S key str n i h"
  by (induction n arbitrary: i h) (simp_all add: same_mix [OF assms])

lemma same_words_loop:
  assumes "same_words C C'"
  shows "vmum_words C S key str i len h = vmum_words C' S key str i len h"
proof (induction len arbitrary: i h rule: less_induct)
  case (less len)
  show ?case
    using less same_mixes [OF assms, of vmum_xor] same_words_comb [OF assms]
    by (cases "vmum_mixes vmum_xor C' S key str 8 i h") (simp_all add: vmum_words.simps [of _ _ _ _ _ len])
qed

lemma same_odd_bytes: "same_words C C' \<Longrightarrow> vmum_odd_bytes C S key str i len = vmum_odd_bytes C' S key str i len"
  by (simp add: vmum_odd_bytes_def same_words_def)

lemma same_tail:
  assumes "same_words C C'"
  shows "vmum_tail C S key str i len h = vmum_tail C' S key str i len h"
proof -
  have "vmum C = vmum C'" using assms by (simp add: same_words_def)
  then show ?thesis
    unfolding vmum_tail_def same_odd_bytes [OF assms] using same_words_comb [OF assms]
    by (intro if_cong read64_bind [OF assms] Option.bind_cong refl) simp_all
qed

lemma same_hash_aligned:
  assumes "same_words C C'"
    and "vmum_chunks C S key vmum_zero_block 0 len = vmum_chunks C' S key vmum_zero_block 0 len"
  shows "vmum_hash_aligned C S h key len = vmum_hash_aligned C' S h key len"
proof -
  have eq: "vmum C = vmum C'" "vmum_plus C = vmum_plus C'"
    using same_words_comb [OF assms(1)] assms(1) by (simp_all add: same_words_def)
  show ?thesis
    unfolding vmum_hash_aligned_def assms(2) eq(1) same_words_loop [OF assms(1)] same_tail [OF assms(1)]
      same_mixes [OF assms(1), of vmum_plus, OF eq(2)] ..
qed

section \<open>The vector units against the scalar code\<close>

text \<open>A word of the part hashed in blocks equals its multiplier.\<close>

definition word_collides :: "vmum_config \<Rightarrow> vmum_state \<Rightarrow> u8 list \<Rightarrow> nat \<Rightarrow> bool" where
  "word_collides C S key len \<longleftrightarrow>
     (\<exists>w < 64 * (len div 512). read64 C key (8 * w) = factor S (w mod 64))"

lemma those_eq_Some: "those xs = Some ys \<longleftrightarrow> xs = map Some ys"
  by (induction xs arbitrary: ys) (auto split: option.split)

lemma those_nth:
  assumes "those (map f [0..<n]) = Some b"
  shows "length b = n \<and> (\<forall>j < n. f j = Some (b ! j))"
proof -
  have eq: "map f [0..<n] = map Some b" using assms by (simp add: those_eq_Some)
  then have len: "length b = n" by (metis length_map length_upt minus_nat.diff_0)
  moreover have "f j = Some (b ! j)" if "j < n" for j
    using arg_cong [OF eq, of "\<lambda>xs. xs ! j"] that len by simp
  ultimately show ?thesis by blast
qed

lemma length_key_block: "key_block C key str i = Some b \<Longrightarrow> length b = 4"
  unfolding key_block_def by (drule those_nth) simp

lemma length_factor_block: "factor_block S i = Some b \<Longrightarrow> length b = 4"
  unfolding factor_block_def by (drule those_nth) simp

lemma blocks_differ:
  assumes "\<not> word_collides C S key len" "512 * c + 512 \<le> len" "i < 16"
    and "key_block C key (512 * c) i = Some v" "factor_block S i = Some p"
  shows "lanes_differ v p"
proof -
  note v = those_nth [OF assms(4) [unfolded key_block_def]]
  note p = those_nth [OF assms(5) [unfolded factor_block_def]]
  have "v ! j \<noteq> p ! j" if "j < 4" for j
  proof
    assume eq: "v ! j = p ! j"
    let ?w = "64 * c + (4 * i + j)"
    have "4 * i + j < 64" using assms(3) that by simp
    then have "?w mod 64 = 4 * i + j" by simp
    moreover have "Suc c \<le> len div 512" using assms(2) by (simp add: less_eq_div_iff_mult_less_eq)
    then have "?w < 64 * (len div 512)" using \<open>4 * i + j < 64\<close> by simp
    moreover have "read64 C key (8 * ?w) = factor S (4 * i + j)"
      using v p that eq by (simp add: algebra_simps)
    ultimately show False using assms(1) unfolding word_collides_def by metis
  qed
  then show ?thesis using v p by (simp add: lanes_differ_def list_all2_conv_all_nth)
qed

lemma update_blocks_same:
  assumes "v1 C \<or> \<not> word_collides C S key len" "\<not> (big_endian C \<and> target_independent C)"
    and "512 * c + 512 \<le> len" "\<forall>i \<in> set is. i + 1 < 16" "length s = 4"
  shows "vmum_update_blocks C S key (512 * c) is s = vmum_update_blocks (C\<lparr>simd := SCALAR\<rparr>) S key (512 * c) is s
    \<and> (\<forall>s'. vmum_update_blocks C S key (512 * c) is s = Some s' \<longrightarrow> length s' = 4)"
  using assms(4,5)
proof (induction "is" arbitrary: s)
  case (Cons i "is")
  have kb: "key_block (C\<lparr>simd := SCALAR\<rparr>) = key_block C"
    by (simp add: key_block_def read64_def read_key_def fun_eq_iff)
  show ?case
  proof (cases "key_block C key (512 * c) i = None \<or> key_block C key (512 * c) (i + 1) = None \<or>
      factor_block S i = None \<or> factor_block S (i + 1) = None")
    case True
    then show ?thesis by (auto simp: kb split: Option.bind_split)
  next
    case False
    then obtain a b p q where ab: "key_block C key (512 * c) i = Some a" "key_block C key (512 * c) (i + 1) = Some b"
      "factor_block S i = Some p" "factor_block S (i + 1) = Some q" by auto
    have len: "length a = 4" "length b = 4" "length p = 4" "length q = 4"
      using ab by (auto dest: length_key_block length_factor_block)
    have ok: "v1 C \<or> lanes_differ a p \<and> lanes_differ b q"
      using assms(1,3) ab Cons.prems(1) blocks_differ [of C S key len c i a p]
        blocks_differ [of C S key len c "i + 1" b q] by auto
    have "vmum_update_block C s (a, b) (p, q) = scalar_update_block C s (a, b) (p, q)"
      using update_block_same [of s "(a, b)" "(p, q)" C] len ok assms(2) Cons.prems(2) by simp
    moreover have "vmum_update_block (C\<lparr>simd := SCALAR\<rparr>) s (a, b) (p, q) = scalar_update_block C s (a, b) (p, q)"
      by (simp add: vmum_update_block_def scalar_update_block_def vmum_xor_def vmum_le_def)
    ultimately show ?thesis
      using Cons.IH [of "scalar_update_block C s (a, b) (p, q)"] Cons.prems(1) ab by (simp add: kb)
  qed
qed simp

lemma chunks_same:
  assumes "v1 C \<or> \<not> word_collides C S key len" "\<not> (big_endian C \<and> target_independent C)"
    and "512 * c + m \<le> len" "length s = 4"
  shows "vmum_chunks C S key s (512 * c) m = vmum_chunks (C\<lparr>simd := SCALAR\<rparr>) S key s (512 * c) m"
  using assms(3,4)
proof (induction m arbitrary: s c rule: less_induct)
  case (less m)
  let ?is = "[0, 2, 4, 6, 8, 10, 12, 14]" and ?C = "C\<lparr>simd := SCALAR\<rparr>"
  show ?case
  proof (cases "m < 512")
    case True
    then show ?thesis by (simp add: vmum_chunks.simps [of _ _ _ _ _ m])
  next
    case False
    note upd = update_blocks_same [OF assms(1,2), of c ?is s]
    have eq: "vmum_update_blocks C S key (512 * c) ?is s = vmum_update_blocks ?C S key (512 * c) ?is s"
      using upd less.prems False by (simp del: vmum_update_blocks.simps)
    show ?thesis
    proof (cases "vmum_update_blocks ?C S key (512 * c) ?is s \<bind> (\<lambda>s'. unroll_block S \<bind> (\<lambda>u. Some (s', u)))")
      case None
      then show ?thesis
        using False eq by (auto simp: vmum_chunks.simps [of _ _ _ _ _ m] bind_eq_None_conv
            simp del: vmum_update_blocks.simps split: Option.bind_splits)
    next
      case (Some su)
      then obtain s' u where s': "vmum_update_blocks ?C S key (512 * c) ?is s = Some s'" "unroll_block S = Some u"
        by (auto split: Option.bind_splits simp del: vmum_update_blocks.simps)
      have "length s' = 4" using upd s' eq less.prems False by (simp del: vmum_update_blocks.simps)
      moreover have "length u = 4" using s'(2) by (simp add: unroll_block_def split: if_splits)
      ultimately have "vmum_factor_block D s' u = scalar_factor_block s' u" for D by (rule factor_block_same)
      then show ?thesis
        using less.IH [of "m - 512" "c + 1" "scalar_factor_block s' u"] less.prems False eq s'
        by (simp add: vmum_chunks.simps [of _ _ _ _ _ m] algebra_simps del: vmum_update_blocks.simps)
    qed
  qed
qed

lemma vmum_simd_same:
  assumes "v1 C \<or> \<not> word_collides C S key len" "\<not> (big_endian C \<and> target_independent C)"
  shows "vmum_hash_aligned C S h key len = vmum_hash_aligned (C\<lparr>simd := SCALAR\<rparr>) S h key len"
proof (rule same_hash_aligned)
  let ?C = "C\<lparr>simd := SCALAR\<rparr>"
  have le: "vmum_le C = vmum_le ?C" "vmum_le32 C = vmum_le32 ?C" "vmum_le16 C = vmum_le16 ?C"
    by (simp_all add: fun_eq_iff vmum_le_def vmum_le32_def vmum_le16_def)
  have "read64 C = read64 ?C" "read32 C = read32 ?C" "read16 C = read16 ?C"
    unfolding fun_eq_iff read64_def read32_def read16_def read_key_def le by simp_all
  moreover have "vmum C = vmum ?C" by (simp add: vmum_def fun_eq_iff)
  ultimately show "same_words C ?C" unfolding same_words_def le by simp
  show "vmum_chunks C S key vmum_zero_block 0 len = vmum_chunks ?C S key vmum_zero_block 0 len"
    using chunks_same [OF assms, of 0 len vmum_zero_block] by (simp add: vmum_zero_block_def)
qed

section \<open>Target independence\<close>

text \<open>A little-endian reader; with \<open>VMUM_TARGET_INDEPENDENT_HASH\<close> every byte order reads the same words.\<close>

lemma key_bytes_length: "key_bytes key a k = Some bs \<Longrightarrow> length bs = k"
  by (auto simp: key_bytes_def split: if_splits)

lemma bswap_rev:
  "length bs = 8 \<Longrightarrow> bswap64 (le_word (rev bs)) = le_word bs"
  "length bs = 4 \<Longrightarrow> bswap32 (le_word (rev bs)) = le_word bs"
  by (simp_all add: bswap64_def bswap32_def le_bytes_le_word)

lemma le16_rev:
  assumes "length bs = 2"
  shows "ucast (drop_bit 8 (le_word (rev bs) :: u16)) OR push_bit 8 (ucast ((le_word (rev bs) :: u16) AND 0xff)) =
    (ucast (le_word bs :: u16) :: u64)"
proof -
  obtain x y where bs: "bs = [x, y]" using assms by (auto simp: numeral_eq_Suc length_Suc_conv)
  have mask: "(v :: u16) AND 0xff = take_bit 8 v" for v by (simp add: take_bit_eq_mask mask_eq_exp_minus_1)
  show ?thesis
    unfolding bs mask
    by (rule bit_word_eqI) (auto simp: bit_simps bit_le_word nth_Cons' dest: bit_imp_le_length)
qed

lemma read_independent:
  assumes "target_independent C"
  shows "map_option (vmum_le C) (read64 C key a) = map_option le_word (key_bytes key a 8)"
    and "read32 C key a = map_option (\<lambda>bs. ucast (le_word bs :: u32)) (key_bytes key a 4)"
    and "read16 C key a = map_option (\<lambda>bs. ucast (le_word bs :: u16)) (key_bytes key a 2)"
  using assms
  by (auto simp: read64_def read32_def read16_def read_key_def vmum_le_def vmum_le32_def vmum_le16_def bswap_rev le16_rev
      option.map_comp comp_def dest: key_bytes_length intro!: map_option_cong)

lemma vmum_independent:
  assumes "use_int128 C \<or> target_independent C" "use_int128 C' \<or> target_independent C'"
  shows "vmum C = vmum C'"
  using vmum_exact [OF assms(1)] vmum_exact [OF assms(2)] by (simp add: fun_eq_iff)

lemma same_words_independent:
  assumes "target_independent C" "target_independent C'" "v1 C = v1 C'"
  shows "same_words C C'"
  using assms vmum_independent [of C C']
  by (simp add: same_words_def read_independent fun_eq_iff)

lemma those_map_option: "map_option (map g) (those (map f xs)) = those (map (\<lambda>x. map_option g (f x)) xs)"
proof (induction xs)
  case (Cons a xs)
  then show ?case by (cases "f a"; cases "those (map f xs)") (simp_all add: Cons.IH [symmetric])
qed simp

lemma key_block_independent:
  assumes "same_words C C'"
  shows "map_option (map (vmum_le C)) (key_block C key str i) = map_option (map (vmum_le C')) (key_block C' key str i)"
  using assms by (simp add: key_block_def those_map_option same_words_def)

lemma scalar_update_independent:
  assumes "same_words C C'" "simd C = SCALAR" "simd C' = SCALAR"
    and "length a = 4" "length b = 4" "length a' = 4" "length b' = 4"
    and "map (vmum_le C) a = map (vmum_le C') a'" "map (vmum_le C) b = map (vmum_le C') b'"
  shows "vmum_update_block C s (a, b) p = vmum_update_block C' s (a', b') p"
proof -
  have nth: "vmum_le C (a ! j) = vmum_le C' (a' ! j)" "vmum_le C (b ! j) = vmum_le C' (b' ! j)" if "j < 4" for j
    using that assms(4-7) arg_cong [OF assms(8), of "\<lambda>xs. xs ! j"] arg_cong [OF assms(9), of "\<lambda>xs. xs ! j"] by simp_all
  then show ?thesis
    using same_words_comb [OF assms(1)] assms(2,3)
    by (simp add: vmum_update_block_def scalar_update_block_def)
qed

lemma update_blocks_independent:
  assumes "same_words C C'" "simd C = SCALAR" "simd C' = SCALAR"
  shows "vmum_update_blocks C S key str is s = vmum_update_blocks C' S key str is s"
proof (induction "is" arbitrary: s)
  case (Cons i "is")
  note kb = key_block_independent [OF assms(1), of key str]
  show ?case
  proof (cases "key_block C key str i = None \<or> key_block C key str (i + 1) = None \<or>
      factor_block S i = None \<or> factor_block S (i + 1) = None")
    case True
    then show ?thesis using kb [of i] kb [of "i + 1"] by (auto split: Option.bind_split)
  next
    case False
    then obtain a b p q where ab: "key_block C key str i = Some a" "key_block C key str (i + 1) = Some b"
      "factor_block S i = Some p" "factor_block S (i + 1) = Some q" by auto
    obtain a' b' where ab': "key_block C' key str i = Some a'" "key_block C' key str (i + 1) = Some b'"
      "map (vmum_le C) a = map (vmum_le C') a'" "map (vmum_le C) b = map (vmum_le C') b'"
      using kb [of i, symmetric] kb [of "i + 1", symmetric] ab by auto
    have "vmum_update_block C s (a, b) (p, q) = vmum_update_block C' s (a', b') (p, q)"
      using ab ab' by (intro scalar_update_independent [OF assms] length_key_block)
    then show ?thesis using ab ab' Cons.IH by simp
  qed
qed simp

lemma chunks_independent:
  assumes "same_words C C'" "simd C = SCALAR" "simd C' = SCALAR"
  shows "vmum_chunks C S key s str len = vmum_chunks C' S key s str len"
proof (induction len arbitrary: s str rule: less_induct)
  case (less len)
  let ?is = "[0, 2, 4, 6, 8, 10, 12, 14]"
  have "vmum_factor_block C = vmum_factor_block C'" using assms by (simp add: vmum_factor_block_def fun_eq_iff)
  then show ?case
    using less.IH update_blocks_independent [OF assms, of S key str ?is s]
    by (cases "vmum_update_blocks C' S key str ?is s"; cases "unroll_block S")
      (simp_all add: vmum_chunks.simps [of _ _ _ _ _ len] del: vmum_update_blocks.simps)
qed

lemma hash_aligned_independent:
  assumes "target_independent C" "target_independent C'" "v1 C = v1 C'" "simd C = SCALAR" "simd C' = SCALAR"
  shows "vmum_hash_aligned C S h key len = vmum_hash_aligned C' S h key len"
  using same_words_independent [OF assms(1-3)] chunks_independent [OF _ assms(4,5)] by (blast intro: same_hash_aligned)

text \<open>An unaligned key of 1 to 1024 bytes is hashed as one block, from a copy of its bytes.\<close>

lemma read_key_take: "read_key C (take n key) a = Some v \<Longrightarrow> read_key C key a = Some v"
  by (auto simp: read_key_def key_bytes_def take_drop min_def split: if_splits)

lemma reads_take:
  "read64 C (take n key) a = Some v \<Longrightarrow> read64 C key a = Some v"
  "read32 C (take n key) a = Some v \<Longrightarrow> read32 C key a = Some v"
  "read16 C (take n key) a = Some v \<Longrightarrow> read16 C key a = Some v"
  "read8 (take n key) a = Some v \<Longrightarrow> read8 key a = Some v"
  by (auto simp: read64_def read32_def read16_def read8_def dest: read_key_take split: if_splits)

lemma key_block_take: "key_block C (take n key) str i = Some b \<Longrightarrow> key_block C key str i = Some b"
  unfolding key_block_def those_eq_Some list_eq_iff_nth_eq by (auto intro: reads_take(1) [of C n])

lemma update_blocks_take:
  "vmum_update_blocks C S (take n key) str is s = Some r \<Longrightarrow> vmum_update_blocks C S key str is s = Some r"
  by (induction "is" arbitrary: s) (auto simp: bind_eq_Some_conv dest!: key_block_take)

lemma chunks_take:
  "vmum_chunks C S (take n key) s str len = Some r \<Longrightarrow> vmum_chunks C S key s str len = Some r"
proof (induction len arbitrary: s str rule: less_induct)
  case (less len)
  show ?case
  proof (cases "len < 512")
    case True
    then show ?thesis using less.prems by (simp add: vmum_chunks.simps [of _ _ _ _ _ len])
  next
    case False
    then show ?thesis
      using less.prems less.IH [of "len - 512"]
      by (auto simp: vmum_chunks.simps [of _ _ _ _ _ len] bind_eq_Some_conv simp del: vmum_update_blocks.simps
          dest!: update_blocks_take)
  qed
qed

lemma mix_take: "vmum_mix comb C S (take n key) str i h = Some r \<Longrightarrow> vmum_mix comb C S key str i h = Some r"
  by (auto simp: vmum_mix_def bind_eq_Some_conv dest!: reads_take(1))

lemma mixes_take: "vmum_mixes comb C S (take n key) str k i h = Some r \<Longrightarrow> vmum_mixes comb C S key str k i h = Some r"
  by (induction k arbitrary: i h) (auto simp: bind_eq_Some_conv dest!: mix_take)

lemma words_take: "vmum_words C S (take n key) str i len h = Some r \<Longrightarrow> vmum_words C S key str i len h = Some r"
proof (induction len arbitrary: i h rule: less_induct)
  case (less len)
  show ?case
  proof (cases "len < 128")
    case True
    then show ?thesis using less.prems by (simp add: vmum_words.simps [of _ _ _ _ _ len])
  next
    case False
    then show ?thesis
      using less.prems less.IH [of "len - 128"]
      by (auto simp: vmum_words.simps [of _ _ _ _ _ len] bind_eq_Some_conv dest!: mixes_take)
  qed
qed

lemma odd_bytes_take: "vmum_odd_bytes C S (take n key) str i len = Some r \<Longrightarrow> vmum_odd_bytes C S key str i len = Some r"
  unfolding vmum_odd_bytes_def by (auto simp: bind_eq_Some_conv split: if_splits dest!: reads_take)

lemma tail_take: "vmum_tail C S (take n key) str i len h = Some r \<Longrightarrow> vmum_tail C S key str i len h = Some r"
  unfolding vmum_tail_def by (auto simp: bind_eq_Some_conv split: if_splits dest!: reads_take odd_bytes_take)

lemma hash_aligned_take:
  "vmum_hash_aligned C S h (take n key) len = Some r \<Longrightarrow> vmum_hash_aligned C S h key len = Some r"
  unfolding vmum_hash_aligned_def Let_def
  by (auto simp: bind_eq_Some_conv split: if_splits dest!: chunks_take words_take mixes_take tail_take)

lemma block_loop_single:
  assumes "vmum_state_ok S" "1 \<le> len" "len \<le> 1024" "len \<le> length key"
  shows "vmum_block_loop C S key 0 len h = vmum_hash_aligned C S h key len"
proof -
  have bl: "(if len < 1024 then len else 1024) = len" using assms(3) by simp
  obtain r where r: "vmum_hash_aligned C S h (take len key) len = Some r"
    using hash_aligned_defined [OF assms(1), of len "take len key" C h] assms(4) by auto
  then show ?thesis
    using assms(2,4) hash_aligned_take [OF r]
    by (subst vmum_block_loop.simps) (simp add: bl Let_def key_bytes_def vmum_block_loop.simps [of _ _ _ _ 0])
qed

text \<open>The empty key does not enter the block loop: only the final mix is applied.\<close>

lemma hash_default_empty:
  "vmum_hash_default C S False key 0 seed = Some (vmum_final C seed)"
  "vmum_hash_default C S True key 0 seed = Some (vmum_final C (vmum C seed (block_start_factor S)))"
  by (simp_all add: vmum_hash_default_def vmum_block_loop.simps [of _ _ _ _ 0] vmum_hash_aligned_def
      vmum_words.simps [of _ _ _ _ _ 0] vmum_tail_def)

section \<open>Randomization\<close>

lemma length_next_factors: "length (fst (vmum_next_factors rand n r)) = n"
  by (induction n arbitrary: r) (simp_all add: split_beta Let_def)

lemma randomize_ok: "vmum_state_ok S \<Longrightarrow> vmum_state_ok (vmum_hash_randomize srand rand S seed)"
  by (simp add: vmum_state_ok_def vmum_hash_randomize_def Let_def split_beta length_next_factors)

end
