(* ===== verification/Vmum_Props.thy ===== *)
theory Vmum_Props
  imports Vmum_Correct
begin

text \<open>
  The properties of the hash function of \<open>vmum.h\<close>: the multiplication, memory safety, and when
  two configurations of the preprocessor give the same hash.
\<close>

section \<open>A configuration and a key for the witnesses\<close>

definition sample_config :: vmum_config where
  "sample_config = \<lparr>use_int128 = False, target_independent = True, big_endian = False, v1 = False,
     simd = SCALAR, unaligned_access = False\<rparr>"

text \<open>A linear congruential generator in the place of \<open>rand\<close>.\<close>

definition sample_rand :: "nat \<Rightarrow> nat \<times> nat" where
  "sample_rand r = (let r = (r * 1103515245 + 12345) mod 2147483648 in (r div 65536, r))"



section \<open>Properties\<close>

text \<open>
  C27. The 64-bit multiplication of \<open>_vmum\<close>, with 128-bit integers or by four 32-bit products with
  both carries, is exact: its result is the sum modulo \<open>2\<^sup>64\<close> of the high and the low half of the
  128-bit product.\<close>
theorem vmum_product_exact:
  assumes "use_int128 C \<or> target_independent C"
  shows "vmum C v p = of_nat (unat v * unat p div 2 ^ 64) + of_nat (unat v * unat p mod 2 ^ 64)"
  using assms by (rule vmum_exact)

theorem vmum_product_exact_witness:
  "vmum sample_config 0xfedcba9876543210 0x123456789abcdef1 =
     of_nat (unat (0xfedcba9876543210 :: u64) * unat (0x123456789abcdef1 :: u64) div 2 ^ 64) +
     of_nat (unat (0xfedcba9876543210 :: u64) * unat (0x123456789abcdef1 :: u64) mod 2 ^ 64)"
  by (rule vmum_product_exact) (simp add: sample_config_def)

text \<open>
  C28. Memory safety of \<open>vmum_hash\<close>, also after \<open>vmum_hash_randomize\<close>: for every configuration,
  byte order, vector unit and alignment, hashing \<open>len\<close> bytes of a key that has them ends with a
  hash; no read is past the end of the key or of a multiplier table.\<close>
theorem vmum_hash_safe:
  assumes "vmum_state_ok S" "len \<le> length key"
  shows "\<exists>h h'. vmum_hash C S aligned key len seed = Some h \<and>
    vmum_hash C (vmum_hash_randomize srand rand S rseed) aligned key len seed = Some h'"
  using vmum_hash_defined [OF assms] vmum_hash_defined [OF randomize_ok [OF assms(1)] assms(2)] by blast

theorem vmum_hash_safe_witness:
  "\<exists>h h'. vmum_hash sample_config vmum_default_state False [1, 2, 3] 3 7 = Some h \<and>
    vmum_hash sample_config (vmum_hash_randomize (\<lambda>s. unat s) sample_rand vmum_default_state 42) False [1, 2, 3] 3 7
      = Some h'"
  by (rule vmum_hash_safe) simp_all












end
