(* ===== verification/Ix_Table.thy ===== *)
theory Ix_Table
  imports Client Cpp_Action
begin

text \<open>
  The extendible table of \<open>ixhtab.h\<close>, \<open>ixhtab-v0.h\<close>, \<open>ixhtab.hpp\<close> and \<open>ixhtab-v0.hpp\<close>: a directory,
  indexed by the low bits of the hash, of bins that are tables of their own, and that split when they
  are full. The four files have the same directory code and differ in their bins. Here that code is
  written once, over the record \<open>ix_ops\<close> of the operations of a bin; the theories of the four files
  give the bins and instantiate it.
\<close>

section \<open>Constants\<close>

text \<open>The same in all four files; \<open>GROUP_SIZE\<close> is used at several widths.\<close>

definition IXHT_GROUP_SIZE :: "'w::len word" where "IXHT_GROUP_SIZE = 8"

definition IXHT_MAX_BIN_SIZE_POWER :: nat where "IXHT_MAX_BIN_SIZE_POWER = 15"

abbreviation "IXHT_FIND \<equiv> FIND"
abbreviation "IXHT_DELETE \<equiv> DELETE"
abbreviation "IXHT_INSERT \<equiv> INSERT"

section \<open>State\<close>

text \<open>
  A bin, without the arrays of tags and indices, which extend the record in the theory of each file.
  \<open>depth\<close> and \<open>mask\<close>, here \<open>hash_mask\<close>, are unset in a bin that has just been allocated.
\<close>

record 'e ebin =
  depth :: "u16 option"
  hash_mask :: "u64 option"
  els_start :: u32
  els_bound :: u32
  els :: "'e option list"
  deleted :: "u8 list"
  groups_mask :: u32

text \<open>A table: its directory holds positions in the array of bins, which has room for more bins.\<close>

record 'b ix_table =
  els_num :: u32
  max_depth :: u16
  bin_mask :: u64
  dir :: "u32 option list"
  dir_capacity :: u32
  bins :: "'b option list"
  bins_num :: u32
  bins_capacity :: u32

text \<open>A pointer to an element is the position of its bin and its index there.\<close>

type_synonym el_ptr = "nat \<times> nat"

record ix_iter =
  bin_idx :: u32
  el_idx :: u32
  ptr :: "el_ptr option"

text \<open>
  The operations of a bin: \<open>bin_do_1\<close> is \<open>do_1\<close> on the counter \<open>els_num\<close> and one bin, \<open>bin_init\<close> the
  allocation of the arrays of a new bin, \<open>bin_clear\<close> the \<open>memset\<close> of its tags, \<open>bin_regroup\<close> the
  reallocation of tags and indices for a number of slots. \<open>key_hash\<close> is the client's hash.
\<close>

record ('e, 'm) ix_ops =
  key_hash :: "'e \<Rightarrow> u64"
  bin_do_1 :: "u32 \<Rightarrow> ('e, 'm) ebin_scheme \<Rightarrow> u64 \<Rightarrow> 'e \<Rightarrow> action \<Rightarrow>
    (bool \<times> nat option \<times> u32 \<times> ('e, 'm) ebin_scheme) option"
  bin_init :: "u32 \<Rightarrow> ('e, 'm) ebin_scheme option"
  bin_clear :: "('e, 'm) ebin_scheme \<Rightarrow> ('e, 'm) ebin_scheme option"
  bin_regroup :: "u32 \<Rightarrow> ('e, 'm) ebin_scheme \<Rightarrow> ('e, 'm) ebin_scheme option"

text \<open>\<open>hash = Hash (*el); if (hash == 0) hash = 1;\<close>\<close>

definition ix_hash :: "('e \<Rightarrow> u64) \<Rightarrow> 'e \<Rightarrow> u64" where
  "ix_hash Hash e = (let hash = Hash e in if hash = 0 then 1 else hash)"

section \<open>Bins\<close>

definition ix_create_bin :: "('e, 'm) ix_ops \<Rightarrow> ('e, 'm) ebin_scheme ix_table \<Rightarrow> u32 \<Rightarrow>
    (u32 \<times> ('e, 'm) ebin_scheme ix_table) option" where
  "ix_create_bin ops t size' =
     do {
       let size' = (if size' < IXHT_GROUP_SIZE then IXHT_GROUP_SIZE else size');
       let t = (if bins_num t = bins_capacity t
                then (let cap = (if bins_capacity t \<noteq> 0 then bins_capacity t * 2 else 4)
                      in t\<lparr>bins_capacity := cap, bins := realloc_els (bins t) (unat cap)\<rparr>)
                else t);
       let ind = bins_num t;
       b \<leftarrow> bin_init ops size';
       bs \<leftarrow> write_el (bins t) (unat ind) b;
       Some (ind, t\<lparr>bins_num := ind + 1, bins := bs\<rparr>)
     }"

text \<open>
  One loop iteration that moves an element: insert it into the bin \<open>b\<close> and store it through the
  pointer. The insertion does not change the elements, so the value stored is the one read before.
\<close>

definition ix_put :: "('e, 'm) ix_ops \<Rightarrow> u32 \<Rightarrow> ('e, 'm) ebin_scheme \<Rightarrow> 'e \<Rightarrow> (u32 \<times> ('e, 'm) ebin_scheme) option" where
  "ix_put ops num b e =
     do {
       (found, res, num, b) \<leftarrow> bin_do_1 ops num b (ix_hash (key_hash ops) e) e INSERT;
       r \<leftarrow> res;
       xs \<leftarrow> write_el (els b) r e;
       Some (num, b\<lparr>els := xs\<rparr>)
     }"

text \<open>The copying loop of a rebuild in place: the elements move towards the front of their array.\<close>

primrec ix_reinsert :: "('e, 'm) ix_ops \<Rightarrow> u8 list \<Rightarrow> nat list \<Rightarrow> u32 \<Rightarrow> ('e, 'm) ebin_scheme \<Rightarrow>
    (u32 \<times> ('e, 'm) ebin_scheme) option" where
  "ix_reinsert ops old_deleted [] num b = Some (num, b)"
| "ix_reinsert ops old_deleted (i # is) num b =
     do {
       d \<leftarrow> del_test old_deleted i;
       if d then ix_reinsert ops old_deleted is num b
       else do {
         e \<leftarrow> read_el (els b) i;
         (num, b) \<leftarrow> ix_put ops num b e;
         ix_reinsert ops old_deleted is num b
       }
     }"

definition ix_rebuild_bin :: "('e, 'm) ix_ops \<Rightarrow> ('e, 'm) ebin_scheme ix_table \<Rightarrow> u32 \<Rightarrow> u32 \<Rightarrow> u32 \<Rightarrow>
    ('e, 'm) ebin_scheme ix_table option" where
  "ix_rebuild_bin ops t bin_ind indexes_size els_size =
     do {
       b \<leftarrow> read_el (bins t) (unat bin_ind);
       let old_deleted = deleted b;
       let del_bytes = (els_size + 7) div 8;
       let b = b\<lparr>deleted := replicate (unat del_bytes) 0, els := realloc_els (els b) (unat els_size)\<rparr>;
       b \<leftarrow> bin_regroup ops indexes_size b;
       let start = els_start b;
       let bound = els_bound b;
       let b = b\<lparr>els_start := 0, els_bound := 0\<rparr>;
       let saved = els_num t;
       (num, b) \<leftarrow> ix_reinsert ops old_deleted [unat start..<unat bound] 0 b;
       bs \<leftarrow> write_el (bins t) (unat bin_ind) b;
       Some (t\<lparr>els_num := saved, bins := bs\<rparr>)
     }"

section \<open>Splitting a bin\<close>

text \<open>Doubling the directory, \<open>for (j = 0; j < len; j++) dir[j + len] = dir[j];\<close>\<close>

primrec ix_copy_dir :: "u32 \<Rightarrow> nat list \<Rightarrow> u32 option list \<Rightarrow> u32 option list option" where
  "ix_copy_dir len [] ds = Some ds"
| "ix_copy_dir len (j # js) ds =
     do {
       x \<leftarrow> read_el ds j;
       ds \<leftarrow> write_el ds (unat (of_nat j + len)) x;
       ix_copy_dir len js ds
     }"

definition ix_grow_dir :: "u16 \<Rightarrow> 'b ix_table \<Rightarrow> 'b ix_table option" where
  "ix_grow_dir d t =
     (if d > max_depth t then
        if unat d < 64 then do {
          let len = dir_capacity t;
          ds \<leftarrow> ix_copy_dir len [0..<unat len] (realloc_els (dir t) (unat (2 * len)));
          Some (t\<lparr>max_depth := d, bin_mask := NOT (push_bit (unat d) (NOT 0)), dir := ds, dir_capacity := 2 * len\<rparr>)
        }
        else None
      else Some t)"

text \<open>
  The loop of a split round over the elements of the bin: those whose hash has the split bit go to
  the new bin, the others stay. The flags tell whether the old and the new bin got an element.
\<close>

primrec ix_split_els :: "('e, 'm) ix_ops \<Rightarrow> u64 \<Rightarrow> nat list \<Rightarrow> bool \<Rightarrow> bool \<Rightarrow> u32 \<Rightarrow>
    ('e, 'm) ebin_scheme \<Rightarrow> ('e, 'm) ebin_scheme \<Rightarrow>
    (bool \<times> bool \<times> ('e, 'm) ebin_scheme \<times> ('e, 'm) ebin_scheme) option" where
  "ix_split_els ops split_mask [] old_added new_added num b nb = Some (old_added, new_added, b, nb)"
| "ix_split_els ops split_mask (i # is) old_added new_added num b nb =
     do {
       d \<leftarrow> del_test (deleted b) i;
       if d then ix_split_els ops split_mask is old_added new_added num b nb
       else do {
         e \<leftarrow> read_el (els b) i;
         let hash = ix_hash (key_hash ops) e;
         if hash AND split_mask = 0
         then do {
           (num, b) \<leftarrow> ix_put ops num b e;
           ix_split_els ops split_mask is True new_added num b nb
         }
         else do {
           (num, nb) \<leftarrow> ix_put ops num nb e;
           ix_split_els ops split_mask is old_added True num b nb
         }
       }
     }"

text \<open>One round of the loop \<open>for (;;)\<close> of \<open>split_bin\<close>.\<close>

definition ix_split_round :: "('e, 'm) ix_ops \<Rightarrow> ('e, 'm) ebin_scheme ix_table \<Rightarrow> u32 \<Rightarrow> u32 \<Rightarrow>
    (bool \<times> bool \<times> ('e, 'm) ebin_scheme ix_table) option" where
  "ix_split_round ops t bin_ind new_ind =
     do {
       nb \<leftarrow> read_el (bins t) (unat new_ind);
       b \<leftarrow> read_el (bins t) (unat bin_ind);
       b \<leftarrow> bin_clear ops b;
       d \<leftarrow> depth b;
       split_mask \<leftarrow> (if unat d < 64 then Some (push_bit (unat d) 1 :: u64) else None);
       t \<leftarrow> ix_grow_dir (d + 1) t;
       m \<leftarrow> hash_mask b;
       ds \<leftarrow> write_el (dir t) (unat (m OR split_mask)) new_ind;
       let start = els_start b;
       let bound = els_bound b;
       let b = b\<lparr>depth := Some (d + 1), els_start := 0, els_bound := 0\<rparr>;
       let nb = nb\<lparr>depth := Some (d + 1), hash_mask := Some (m OR split_mask)\<rparr>;
       (old_added, new_added, b, nb) \<leftarrow>
         ix_split_els ops split_mask [unat start..<unat bound] False False (els_num t) b nb;
       bs \<leftarrow> write_el (bins t) (unat bin_ind) b;
       bs \<leftarrow> write_el bs (unat new_ind) nb;
       Some (old_added, new_added, t\<lparr>dir := ds, bins := bs\<rparr>)
     }"

partial_function (option) ix_split_loop :: "('e, 'm) ix_ops \<Rightarrow> ('e, 'm) ebin_scheme ix_table \<Rightarrow> u32 \<Rightarrow> u32 \<Rightarrow>
    (u32 \<times> u32 \<times> ('e, 'm) ebin_scheme ix_table) option" where
  "ix_split_loop ops t bin_ind new_ind =
     do {
       (old_added, new_added, t) \<leftarrow> ix_split_round ops t bin_ind new_ind;
       if \<not> old_added then ix_split_loop ops t new_ind bin_ind
       else if new_added then Some (bin_ind, new_ind, t)
       else ix_split_loop ops t bin_ind new_ind
     }"

text \<open>\<open>memset (b->deleted, 0, ((b->groups_mask + 1) * IXHT_GROUP_SIZE / 2 + 7) / 8);\<close>\<close>

definition ix_undelete :: "('e, 'm) ebin_scheme ix_table \<Rightarrow> u32 \<Rightarrow> ('e, 'm) ebin_scheme ix_table option" where
  "ix_undelete t ind =
     do {
       b \<leftarrow> read_el (bins t) (unat ind);
       let n = unat (((groups_mask b + 1) * IXHT_GROUP_SIZE div 2 + 7) div 8);
       bs \<leftarrow> (if n \<le> length (deleted b)
              then write_el (bins t) (unat ind) (b\<lparr>deleted := replicate n 0 @ drop n (deleted b)\<rparr>) else None);
       Some (t\<lparr>bins := bs\<rparr>)
     }"

definition ix_split_bin :: "('e, 'm) ix_ops \<Rightarrow> ('e, 'm) ebin_scheme ix_table \<Rightarrow> u32 \<Rightarrow>
    ('e, 'm) ebin_scheme ix_table option" where
  "ix_split_bin ops t bin_ind =
     do {
       b \<leftarrow> read_el (bins t) (unat bin_ind);
       let size' = (groups_mask b + 1) * IXHT_GROUP_SIZE div 2;
       (new_ind, t) \<leftarrow> ix_create_bin ops t size';
       (bin_ind, new_ind, t) \<leftarrow> ix_split_loop ops t bin_ind new_ind;
       t \<leftarrow> ix_undelete t bin_ind;
       ix_undelete t new_ind
     }"

section \<open>Creation and destruction\<close>

text \<open>The number of bins, the depth and the size of a bin for a table of \<open>size\<close> elements.\<close>

function ix_params_loop :: "u64 \<Rightarrow> u64 \<Rightarrow> u64 \<Rightarrow> u64 \<times> u64 \<times> u64" where
  "ix_params_loop bs bn bp2 =
     (if push_bit IXHT_MAX_BIN_SIZE_POWER 1 \<le> bs then ix_params_loop (bs div 2) (bn * 2) (bp2 + 1) else (bn, bp2, bs))"
  by pat_completeness auto
termination
proof (relation "measure (\<lambda>(bs, bn, bp2). unat bs)")
  fix bs bn bp2 :: u64
  assume "push_bit IXHT_MAX_BIN_SIZE_POWER 1 \<le> bs"
  then have "0 < unat bs" by (simp add: word_le_nat_alt push_bit_eq_mult IXHT_MAX_BIN_SIZE_POWER_def)
  then show "((bs div 2, bn * 2, bp2 + 1), bs, bn, bp2) \<in> measure (\<lambda>(bs, bn, bp2). unat bs)"
    by (simp add: unat_div)
qed simp

declare ix_params_loop.simps [simp del]

definition ix_get_params :: "u64 \<Rightarrow> u64 \<times> u64 \<times> u64" where
  "ix_get_params size' = ix_params_loop size' 1 0"

text \<open>\<open>for (size = 2; min_size > size; size *= 2);\<close>\<close>

partial_function (option) ix_create_size :: "u32 \<Rightarrow> u32 \<Rightarrow> u32 option" where
  "ix_create_size min_size size' = (if min_size > size' then ix_create_size min_size (size' * 2) else Some size')"

primrec ix_create_bins :: "('e, 'm) ix_ops \<Rightarrow> u64 \<Rightarrow> u64 \<Rightarrow> nat list \<Rightarrow> ('e, 'm) ebin_scheme ix_table \<Rightarrow>
    ('e, 'm) ebin_scheme ix_table option" where
  "ix_create_bins ops bin_power2 bin_size [] t = Some t"
| "ix_create_bins ops bin_power2 bin_size (i # is) t =
     do {
       ds \<leftarrow> write_el (dir t) i (of_nat i);
       (ind, t) \<leftarrow> ix_create_bin ops (t\<lparr>dir := ds\<rparr>) (ucast bin_size);
       b \<leftarrow> read_el (bins t) (unat ind);
       bs \<leftarrow> write_el (bins t) (unat ind) (b\<lparr>depth := Some (ucast bin_power2), hash_mask := Some (of_nat i)\<rparr>);
       ix_create_bins ops bin_power2 bin_size is (t\<lparr>bins := bs\<rparr>)
     }"

definition ix_create :: "('e, 'm) ix_ops \<Rightarrow> u32 \<Rightarrow> ('e, 'm) ebin_scheme ix_table option" where
  "ix_create ops min_size =
     do {
       size' \<leftarrow> ix_create_size min_size 2;
       let (bn, bin_power2, bin_size) = ix_get_params (ucast size');
       ix_create_bins ops bin_power2 bin_size [0..<unat bn]
         \<lparr>els_num = 0, max_depth = ucast bin_power2, bin_mask = push_bit (unat bin_power2) 1 - 1,
          dir = replicate (unat bn) None, dir_capacity = ucast bn, bins = [], bins_num = 0, bins_capacity = 0\<rparr>
     }"

primrec ix_destroy_bins :: "('b \<Rightarrow> 'b) \<Rightarrow> nat list \<Rightarrow> 'b option list \<Rightarrow> 'b option list option" where
  "ix_destroy_bins destroy_bin [] bs = Some bs"
| "ix_destroy_bins destroy_bin (i # is) bs =
     do {
       b \<leftarrow> read_el bs i;
       bs \<leftarrow> write_el bs i (destroy_bin b);
       ix_destroy_bins destroy_bin is bs
     }"

definition ix_destroy :: "('b \<Rightarrow> 'b) \<Rightarrow> 'b ix_table \<Rightarrow> 'b ix_table option" where
  "ix_destroy destroy_bin t =
     do {
       bs \<leftarrow> ix_destroy_bins destroy_bin [0..<unat (bins_num t)] (bins t);
       Some (t\<lparr>bins := [], dir := []\<rparr>)
     }"

section \<open>The interface\<close>

text \<open>
  The part of \<open>perform\<close> that makes room in a full bin: it splits the bin if the table holds enough
  elements to fill it and it may not grow any more, and rebuilds it otherwise.
\<close>

definition ix_make_room :: "('e, 'm) ix_ops \<Rightarrow> ('e, 'm) ebin_scheme ix_table \<Rightarrow> u64 \<Rightarrow> u32 \<Rightarrow>
    (u32 \<times> ('e, 'm) ebin_scheme ix_table) option" where
  "ix_make_room ops t hash bin_ind =
     do {
       b \<leftarrow> read_el (bins t) (unat bin_ind);
       let indexes_size = (groups_mask b + 1) * IXHT_GROUP_SIZE;
       let els_size = indexes_size div 2;
       if els_bound b = els_size then do {
         let grow = (2 * els_num t \<ge> indexes_size);
         let indexes_size = (if grow then indexes_size * 2 else indexes_size);
         let els_size = (if grow then els_size * 2 else els_size);
         if grow \<and> els_size \<ge> push_bit IXHT_MAX_BIN_SIZE_POWER 1 then do {
           t \<leftarrow> ix_split_bin ops t bin_ind;
           bin_ind \<leftarrow> read_el (dir t) (unat (hash AND bin_mask t));
           Some (bin_ind, t)
         }
         else do {
           t \<leftarrow> ix_rebuild_bin ops t bin_ind indexes_size els_size;
           Some (bin_ind, t)
         }
       }
       else Some (bin_ind, t)
     }"

definition ix_perform :: "('e, 'm) ix_ops \<Rightarrow> ('e, 'm) ebin_scheme ix_table \<Rightarrow> 'e \<Rightarrow> action \<Rightarrow>
    (bool \<times> el_ptr option \<times> ('e, 'm) ebin_scheme ix_table) option" where
  "ix_perform ops t el action =
     do {
       let hash = ix_hash (key_hash ops) el;
       bin_ind \<leftarrow> read_el (dir t) (unat (hash AND bin_mask t));
       (bin_ind, t) \<leftarrow> (if action \<ge> INSERT then ix_make_room ops t hash bin_ind else Some (bin_ind, t));
       b \<leftarrow> read_el (bins t) (unat bin_ind);
       (found, res, num, b) \<leftarrow> bin_do_1 ops (els_num t) b hash el action;
       bs \<leftarrow> write_el (bins t) (unat bin_ind) b;
       Some (found, map_option (\<lambda>r. (unat bin_ind, r)) res, t\<lparr>els_num := num, bins := bs\<rparr>)
     }"

definition ix_els_count :: "'b ix_table \<Rightarrow> u32" where
  "ix_els_count t = els_num t"

function ix_iter_advance :: "('e, 'm) ebin_scheme ix_table \<Rightarrow> ix_iter \<Rightarrow> ix_iter option" where
  "ix_iter_advance t it =
     (if bin_idx it < bins_num t then do {
        b \<leftarrow> read_el (bins t) (unat (bin_idx it));
        if el_idx it < els_bound b then do {
          d \<leftarrow> del_test (deleted b) (unat (el_idx it));
          if \<not> d then Some (it\<lparr>ptr := Some (unat (bin_idx it), unat (el_idx it))\<rparr>)
          else ix_iter_advance t (it\<lparr>el_idx := el_idx it + 1\<rparr>)
        }
        else do {
          start \<leftarrow> (if bin_idx it + 1 < bins_num t
                    then map_option els_start (read_el (bins t) (unat (bin_idx it + 1))) else Some (el_idx it));
          ix_iter_advance t (it\<lparr>bin_idx := bin_idx it + 1, el_idx := start\<rparr>)
        }
      }
      else Some (it\<lparr>ptr := None\<rparr>))"
  by pat_completeness auto
termination
proof (relation "measures [\<lambda>(t, it). unat (bins_num t) - unat (bin_idx it),
    \<lambda>(t, it). unat (els_bound (the (read_el (bins t) (unat (bin_idx it))))) - unat (el_idx it)]", goal_cases)
  case (2 t it b d)
  then have "unat (el_idx it + 1) = unat (el_idx it) + 1" by (intro unat_succ_less)
  then show ?case using 2 by (simp add: word_less_nat_alt)
next
  case (3 t it b start)
  then have "unat (bin_idx it + 1) = unat (bin_idx it) + 1" by (intro unat_succ_less)
  then show ?case using 3 by (simp add: word_less_nat_alt)
qed simp

declare ix_iter_advance.simps [simp del]

definition ix_iter_begin :: "('e, 'm) ebin_scheme ix_table \<Rightarrow> ix_iter option" where
  "ix_iter_begin t =
     do {
       start \<leftarrow> (if bins_num t > 0 then map_option els_start (read_el (bins t) 0) else Some 0);
       ix_iter_advance t \<lparr>bin_idx = 0, el_idx = start, ptr = None\<rparr>
     }"

definition ix_iter_valid :: "ix_iter \<Rightarrow> bool" where
  "ix_iter_valid it \<longleftrightarrow> ptr it \<noteq> None"

definition ix_iter_next :: "('e, 'm) ebin_scheme ix_table \<Rightarrow> ix_iter \<Rightarrow> ix_iter option" where
  "ix_iter_next t it = ix_iter_advance t (it\<lparr>el_idx := el_idx it + 1\<rparr>)"

section \<open>Client code\<close>

text \<open>The store and the read through a pointer to an element.\<close>

definition ix_store :: "('e, 'm) ebin_scheme ix_table \<Rightarrow> el_ptr option \<Rightarrow> 'e \<Rightarrow> ('e, 'm) ebin_scheme ix_table option" where
  "ix_store t res e =
     do {
       (i, r) \<leftarrow> res;
       b \<leftarrow> read_el (bins t) i;
       xs \<leftarrow> write_el (els b) r e;
       bs \<leftarrow> write_el (bins t) i (b\<lparr>els := xs\<rparr>);
       Some (t\<lparr>bins := bs\<rparr>)
     }"

definition ix_load :: "('e, 'm) ebin_scheme ix_table \<Rightarrow> el_ptr option \<Rightarrow> 'e option" where
  "ix_load t res = do { (i, r) \<leftarrow> res; b \<leftarrow> read_el (bins t) i; read_el (els b) r }"

definition ix_step :: "('e, 'm) ix_ops \<Rightarrow> ('e, 'm) ebin_scheme ix_table \<Rightarrow> 'e cmd \<Rightarrow>
    ('e reply \<times> ('e, 'm) ebin_scheme ix_table) option" where
  "ix_step ops = client_step (\<lambda>t e. ix_perform ops t e FIND) (\<lambda>t e. ix_perform ops t e DELETE)
     (\<lambda>t e. ix_perform ops t e INSERT) ix_store ix_load"

definition ix_iterate :: "('e, 'm) ebin_scheme ix_table \<Rightarrow> 'e list option" where
  "ix_iterate t =
     do {
       it \<leftarrow> ix_iter_begin t;
       client_iterate ix_iter_valid (\<lambda>it. ix_load t (ptr it)) (ix_iter_next t) it
     }"

end
