(* ===== verification/Ix_Bins.thy ===== *)
theory Ix_Bins
  imports Ix_Table
begin

text \<open>
  The interface \<open>ix_bins\<close> of the bins of an extendible table, and what the loops that move elements
  between and inside bins do to the lists of elements: the copying loop of a rebuild in place and
  the loop of a split.
\<close>

section \<open>Hashes\<close>

text \<open>A hash of zero is replaced by one, which keeps equal elements together.\<close>

lemma hash_key_ix:
  assumes "hash_key Hash Eq"
  shows "hash_key (ix_hash Hash) Eq"
proof (rule hash_key.intro)
  show "Eq a a" for a by (rule hash_key.eq_refl [OF assms])
  show "Eq b a" if "Eq a b" for a b by (rule hash_key.eq_sym [OF assms that])
  show "Eq a c" if "Eq a b" "Eq b c" for a b c by (rule hash_key.eq_trans [OF assms that])
  show "ix_hash Hash a = ix_hash Hash b" if "Eq a b" for a b
    using hash_key.hash_cong [OF assms that] by (simp add: ix_hash_def)
qed

section \<open>The interface of a bin\<close>

text \<open>The fields a bin operation leaves alone.\<close>

definition head :: "('e, 'm) ebin_scheme \<Rightarrow> u16 option \<times> u64 option \<times> u32" where
  "head b = (depth b, hash_mask b, els_start b)"

lemma head_update [simp]: "head (b\<lparr>els := xs\<rparr>) = head b" "head (b\<lparr>deleted := ds\<rparr>) = head b"
  "head (b\<lparr>els_bound := n\<rparr>) = head b"
  by (simp_all add: head_def)

abbreviation no_dels :: "nat \<Rightarrow> u8 list" where
  "no_dels k \<equiv> replicate ((4 * 2 ^ k + 7) div 8) 0"

text \<open>
  \<open>bin_ok k b\<close>: the arrays of \<open>b\<close> have the sizes of a bin with \<open>2 ^ k\<close> groups and its view satisfies the
  invariant of bins. The laws: how a new, a cleared and a regrouped bin look, what \<open>do_1\<close> does, and
  that an insertion neither reads nor writes the deletion bits, which a split relies on.
\<close>

locale ix_bins =
  fixes ops :: "('e, 'm) ix_ops" and Eq :: "'e \<Rightarrow> 'e \<Rightarrow> bool"
    and view :: "('e, 'm) ebin_scheme \<Rightarrow> 'e view" and bin_ok :: "nat \<Rightarrow> ('e, 'm) ebin_scheme \<Rightarrow> bool"
  assumes bin_view: "bin_ok k b \<Longrightarrow> view_inv (ix_hash (key_hash ops)) Eq (view b) \<and> elem (view b) = read_el (els b) \<and>
      dead (view b) = del_bit (deleted b) \<and> bound (view b) = unat (els_bound b)"
    and bin_size: "bin_ok k b \<Longrightarrow> 1 \<le> k \<and> k \<le> 12 \<and> groups_mask b = 2 ^ k - 1 \<and> length (els b) = 4 * 2 ^ k \<and>
      length (deleted b) = (4 * 2 ^ k + 7) div 8 \<and> unat (els_bound b) \<le> 4 * 2 ^ k"
    and bin_frame: "bin_ok k (b\<lparr>depth := d, hash_mask := m, els_start := s\<rparr>) \<longleftrightarrow> bin_ok k b"
    and view_frame: "view (b\<lparr>depth := d, hash_mask := m, els_start := s\<rparr>) = view b"
    and init_ok: "1 \<le> k \<Longrightarrow> k \<le> 12 \<Longrightarrow> \<exists>b. bin_init ops (4 * 2 ^ k) = Some b \<and> bin_ok k b \<and> els_start b = 0 \<and>
      els_bound b = 0 \<and> contents (view b) = []"
    and clear_ok: "bin_ok k b \<Longrightarrow> \<exists>c. bin_clear ops b = Some c \<and> head c = head b \<and> els_bound c = els_bound b \<and>
      els c = els b \<and> deleted c = deleted b \<and> bin_ok k (c\<lparr>els_bound := 0, deleted := no_dels k\<rparr>) \<and>
      contents (view (c\<lparr>els_bound := 0, deleted := no_dels k\<rparr>)) = []"
    and clear_frame: "bin_clear ops b = Some c \<Longrightarrow> els_start c = els_start b \<and> els_bound c = els_bound b \<and> deleted c = deleted b"
    and init_empty: "bin_init ops n = Some b \<Longrightarrow> els_start b = 0 \<and> els_bound b = 0"
    and regroup_ok: "1 \<le> k \<Longrightarrow> k \<le> 12 \<Longrightarrow> length (els b) = 4 * 2 ^ k \<Longrightarrow> deleted b = no_dels k \<Longrightarrow>
      \<exists>c. bin_regroup ops (8 * 2 ^ k) b = Some c \<and> head c = head b \<and> els_bound c = els_bound b \<and> els c = els b \<and>
        deleted c = deleted b \<and> bin_ok k (c\<lparr>els_bound := 0\<rparr>) \<and> contents (view (c\<lparr>els_bound := 0\<rparr>)) = []"
    and do_1_present: "hash_key (key_hash ops) Eq \<Longrightarrow> bin_ok k b \<Longrightarrow> y \<in> set (contents (view b)) \<Longrightarrow> Eq y el \<Longrightarrow>
      \<exists>i x. live (view b) i \<and> elem (view b) i = Some x \<and> Eq x el \<and>
        (\<forall>a. a \<noteq> DELETE \<longrightarrow> bin_do_1 ops num b (ix_hash (key_hash ops) el) el a = Some (True, Some i, num, b)) \<and>
        (\<exists>b'. bin_do_1 ops num b (ix_hash (key_hash ops) el) el DELETE = Some (True, None, num - 1, b') \<and>
          bin_ok k b' \<and> head b' = head b \<and>
          contents (view b') = filter (\<lambda>x. \<not> Eq x el) (contents (view b)))"
    and do_1_absent: "hash_key (key_hash ops) Eq \<Longrightarrow> bin_ok k b \<Longrightarrow> \<forall>x \<in> set (contents (view b)). \<not> Eq x el \<Longrightarrow>
      a < INSERT \<Longrightarrow> bin_do_1 ops num b (ix_hash (key_hash ops) el) el a = Some (False, None, num, b)"
    and do_1_insert: "hash_key (key_hash ops) Eq \<Longrightarrow> bin_ok k b \<Longrightarrow> \<forall>x \<in> set (contents (view b)). \<not> Eq x el \<Longrightarrow>
      unat (els_bound b) < 4 * 2 ^ k \<Longrightarrow>
      \<exists>b'. bin_do_1 ops num b (ix_hash (key_hash ops) el) el INSERT = Some (False, Some (unat (els_bound b)), num + 1, b') \<and>
        head b' = head b \<and> els b' = els b \<and> deleted b' = deleted b \<and> unat (els_bound b') = Suc (unat (els_bound b)) \<and>
        (\<forall>xs. write_el (els b) (unat (els_bound b)) el = Some xs \<longrightarrow> bin_ok k (b'\<lparr>els := xs\<rparr>) \<and>
          contents (view (b'\<lparr>els := xs\<rparr>)) = contents (view b) @ [el])"
    and do_1_del_frame: "bin_do_1 ops num (b\<lparr>deleted := ds\<rparr>) h el INSERT =
      map_option (\<lambda>(found, res, num, b'). (found, res, num, b'\<lparr>deleted := ds\<rparr>)) (bin_do_1 ops num b h el INSERT)"
    and set_el: "hash_key (key_hash ops) Eq \<Longrightarrow> bin_ok k b \<Longrightarrow> live (view b) i \<Longrightarrow> elem (view b) i = Some x \<Longrightarrow> Eq x e \<Longrightarrow>
      write_el (els b) i e = Some xs \<Longrightarrow>
      bin_ok k (b\<lparr>els := xs\<rparr>) \<and> view (b\<lparr>els := xs\<rparr>) = view_set i e (view b)"
begin

abbreviation hash :: "'e \<Rightarrow> u64" where "hash \<equiv> ix_hash (key_hash ops)"

abbreviation keys_ok :: bool where "keys_ok \<equiv> hash_key (key_hash ops) Eq"

text \<open>A bin without deleted cells that holds exactly \<open>xs\<close>.\<close>

definition packed :: "nat \<Rightarrow> ('e, 'm) ebin_scheme \<Rightarrow> 'e list \<Rightarrow> bool" where
  "packed k b xs \<longleftrightarrow> bin_ok k b \<and> contents (view b) = xs \<and> unat (els_bound b) = length xs"

lemma packed_size: "packed k b xs \<Longrightarrow> length xs \<le> 4 * 2 ^ k \<and> length (els b) = 4 * 2 ^ k"
  using bin_size [of k b] by (auto simp: packed_def)

lemma packed_head: "packed k (b\<lparr>depth := d, hash_mask := m, els_start := s\<rparr>) xs \<longleftrightarrow> packed k b xs"
  by (simp add: packed_def bin_frame view_frame)

text \<open>Moving one element, whatever the deletion bits are.\<close>

lemma put_packed:
  assumes hk: "keys_ok" and b: "packed k (b\<lparr>deleted := ds\<rparr>) xs" and new: "\<not> member Eq xs e" "length xs < 4 * 2 ^ k"
  shows "\<exists>num' b'. ix_put ops num b e = Some (num', b') \<and> packed k (b'\<lparr>deleted := ds\<rparr>) (xs @ [e]) \<and>
    els b' = (els b)[length xs := Some e] \<and> deleted b' = deleted b \<and> head b' = head b"
proof -
  let ?b = "b\<lparr>deleted := ds\<rparr>"
  have ok: "bin_ok k ?b" "contents (view ?b) = xs" "unat (els_bound ?b) = length xs"
    using b by (simp_all add: packed_def)
  have absent: "\<forall>x \<in> set (contents (view ?b)). \<not> Eq x e" using new(1) ok(2) by (simp add: member_def)
  define ys where "ys = (els b)[length xs := Some e]"
  have ys: "write_el (els b) (length xs) e = Some ys"
    using packed_size [OF b] new(2) by (simp add: write_el_def ys_def)
  from do_1_insert [OF hk ok(1) absent, of num] new(2) ok(3) obtain c where c:
      "bin_do_1 ops num ?b (hash e) e INSERT = Some (False, Some (unat (els_bound ?b)), num + 1, c)"
      "head c = head ?b" "els c = els ?b" "deleted c = deleted ?b" "unat (els_bound c) = Suc (unat (els_bound ?b))"
      "\<forall>zs. write_el (els ?b) (unat (els_bound ?b)) e = Some zs \<longrightarrow> bin_ok k (c\<lparr>els := zs\<rparr>) \<and>
        contents (view (c\<lparr>els := zs\<rparr>)) = contents (view ?b) @ [e]"
    by (elim meta_impE exE conjE) simp_all
  have c6: "bin_ok k (c\<lparr>els := ys\<rparr>)" "contents (view (c\<lparr>els := ys\<rparr>)) = xs @ [e]"
    using c(6) ys ok(2,3) by simp_all
  have "bin_do_1 ops num b (hash e) e INSERT = Some (False, Some (length xs), num + 1, c\<lparr>deleted := deleted b\<rparr>)"
    using do_1_del_frame [where b = ?b and ds = "deleted b" and num = num and h = "hash e" and el = e] c(1) ok(3)
    by simp
  then have "ix_put ops num b e = Some (num + 1, c\<lparr>deleted := deleted b, els := ys\<rparr>)"
    using ys c(3) by (simp add: ix_put_def)
  moreover have "c\<lparr>els := ys, deleted := ds\<rparr> = c\<lparr>els := ys\<rparr>" using c(4) by simp
  then have "packed k (c\<lparr>els := ys, deleted := ds\<rparr>) (xs @ [e])"
    using c(5) c6 ok(3) by (simp add: packed_def)
  moreover have "head c = head b" using c(2) by simp
  ultimately show ?thesis
    by (intro exI [of _ "num + 1"] exI [of _ "c\<lparr>deleted := deleted b, els := ys\<rparr>"]) (simp add: ys_def)
qed

lemma put_packed_plain:
  assumes "keys_ok" "packed k b xs" "\<not> member Eq xs e" "length xs < 4 * 2 ^ k"
  shows "\<exists>num' b'. ix_put ops num b e = Some (num', b') \<and> packed k b' (xs @ [e]) \<and>
    els b' = (els b)[length xs := Some e] \<and> head b' = head b"
proof -
  have "packed k (b\<lparr>deleted := deleted b\<rparr>) xs" using assms(2) by simp
  from put_packed [OF assms(1) this assms(3,4), of num] obtain num' b' where b':
      "ix_put ops num b e = Some (num', b')" "packed k (b'\<lparr>deleted := deleted b\<rparr>) (xs @ [e])"
      "els b' = (els b)[length xs := Some e]" "deleted b' = deleted b" "head b' = head b"
    by blast
  have "packed k b' (xs @ [e])" using b'(2) unfolding b'(4) [symmetric] by simp
  then show ?thesis using b' by auto
qed

text \<open>
  The loops walk over increasing indices \<open>is\<close>, never behind the elements already moved. \<open>f i\<close> is the
  element at index \<open>i\<close> before the loop.
\<close>

definition ahead :: "u8 list \<Rightarrow> (nat \<Rightarrow> 'e) \<Rightarrow> nat list \<Rightarrow> 'e option list \<Rightarrow> nat \<Rightarrow> bool" where
  "ahead ds f is xs n \<longleftrightarrow> sorted_wrt (<) is \<and> (\<forall>i \<in> set is. n \<le> i \<and> i div 8 < length ds \<and>
     (\<not> del_bit ds i \<longrightarrow> read_el xs i = Some (f i)))"

definition moved :: "u8 list \<Rightarrow> (nat \<Rightarrow> 'e) \<Rightarrow> nat list \<Rightarrow> 'e list" where
  "moved ds f is = map f (filter (\<lambda>i. \<not> del_bit ds i) is)"

lemma moved_simps [simp]: "moved ds f [] = []"
  "moved ds f (i # is) = (if del_bit ds i then moved ds f is else f i # moved ds f is)"
  by (simp_all add: moved_def)

lemma ahead_head: "ahead ds f (i # is) xs n \<Longrightarrow> del_test ds i = Some (del_bit ds i) \<and> (\<not> del_bit ds i \<longrightarrow> read_el xs i = Some (f i))"
  by (simp add: ahead_def del_test_eq)

lemma ahead_tail: "ahead ds f (i # is) xs n \<Longrightarrow> ahead ds f is xs n"
  by (simp add: ahead_def)

lemma ahead_put: "ahead ds f (i # is) xs n \<Longrightarrow> ahead ds f is (xs[n := Some e]) (Suc n)"
  by (force simp: ahead_def read_el_def nth_list_update)

lemma distinct_first: "keys_distinct Eq (xs @ e # es) \<Longrightarrow> \<not> member Eq xs e"
  by (auto simp: keys_distinct_def sorted_wrt_append member_def)

lemma distinct_skip: "keys_distinct Eq (xs @ e # es) \<Longrightarrow> keys_distinct Eq (xs @ es)"
  by (auto simp: keys_distinct_def sorted_wrt_append)

lemma reinsert_packed:
  assumes hk: "keys_ok" and "packed k b xs" "ahead ds f is (els b) (length xs)"
    and "keys_distinct Eq (xs @ moved ds f is)" "length xs + length (moved ds f is) \<le> 4 * 2 ^ k"
  shows "\<exists>num' b'. ix_reinsert ops ds is num b = Some (num', b') \<and> packed k b' (xs @ moved ds f is) \<and> head b' = head b"
  using assms(2-)
proof (induction "is" arbitrary: xs b num)
  case Nil
  then show ?case by simp
next
  case (Cons i "is")
  note i = ahead_head [OF Cons.prems(2)]
  show ?case
  proof (cases "del_bit ds i")
    case True
    then show ?thesis
      using Cons.IH [OF Cons.prems(1) ahead_tail [OF Cons.prems(2)]] Cons.prems i by simp
  next
    case False
    then have d: "keys_distinct Eq (xs @ f i # moved ds f is)" "length xs < 4 * 2 ^ k" using Cons.prems by simp_all
    from put_packed_plain [OF hk Cons.prems(1) distinct_first [OF d(1)] d(2), of num] obtain num' b' where b':
        "ix_put ops num b (f i) = Some (num', b')" "packed k b' (xs @ [f i])"
        "els b' = (els b)[length xs := Some (f i)]" "head b' = head b"
      by blast
    have "ahead ds f is (els b') (length (xs @ [f i]))"
      using ahead_put [OF Cons.prems(2)] b'(3) by simp
    then show ?thesis
      using Cons.IH [OF b'(2), of num'] Cons.prems(4) d(1) False i b'(1,4) by simp
  qed
qed

lemma split_packed:
  assumes hk: "keys_ok" and "packed k (b\<lparr>deleted := zs\<rparr>) xs" "packed k nb ys" "deleted b = ds"
    and "ahead ds f is (els b) (length xs)"
    and "keys_distinct Eq (xs @ moved ds f is)" "length xs + length (moved ds f is) \<le> 4 * 2 ^ k"
    and "keys_distinct Eq (ys @ moved ds f is)" "length ys + length (moved ds f is) \<le> 4 * 2 ^ k"
  shows "\<exists>b' nb'. ix_split_els ops sm is oa na num b nb =
      Some (oa \<or> (\<exists>e \<in> set (moved ds f is). hash e AND sm = 0), na \<or> (\<exists>e \<in> set (moved ds f is). hash e AND sm \<noteq> 0), b', nb') \<and>
    packed k (b'\<lparr>deleted := zs\<rparr>) (xs @ filter (\<lambda>e. hash e AND sm = 0) (moved ds f is)) \<and>
    packed k nb' (ys @ filter (\<lambda>e. hash e AND sm \<noteq> 0) (moved ds f is)) \<and>
    deleted b' = ds \<and> head b' = head b \<and> head nb' = head nb"
  using assms(2-)
proof (induction "is" arbitrary: xs ys b nb num oa na)
  case Nil
  then show ?case by simp
next
  case (Cons i "is")
  note i = ahead_head [OF Cons.prems(4)]
  show ?case
  proof (cases "del_bit ds i")
    case True
    then show ?thesis
      using Cons.IH [OF Cons.prems(1-3) ahead_tail [OF Cons.prems(4)], of oa na num] Cons.prems(3,5-8) i by simp
  next
    case False
    then have d: "keys_distinct Eq (xs @ f i # moved ds f is)" "length xs < 4 * 2 ^ k"
        "keys_distinct Eq (ys @ f i # moved ds f is)" "length ys < 4 * 2 ^ k"
      using Cons.prems by simp_all
    show ?thesis
    proof (cases "hash (f i) AND sm = 0")
      case True
      from put_packed [OF hk Cons.prems(1) distinct_first [OF d(1)] d(2), of num] obtain num' b' where b':
          "ix_put ops num b (f i) = Some (num', b')" "packed k (b'\<lparr>deleted := zs\<rparr>) (xs @ [f i])"
          "els b' = (els b)[length xs := Some (f i)]" "deleted b' = deleted b" "head b' = head b"
        by blast
      have "deleted b' = ds" "ahead ds f is (els b') (length (xs @ [f i]))"
        using ahead_put [OF Cons.prems(4)] b'(3,4) Cons.prems(3) by simp_all
      then show ?thesis
        using Cons.IH [OF b'(2) Cons.prems(2), of True na num'] Cons.prems(3,6,8) d(1) distinct_skip [OF d(3)]
          False True i b'(1,5) by simp
    next
      case other: False
      from put_packed_plain [OF hk Cons.prems(2) distinct_first [OF d(3)] d(4), of num] obtain num' nb' where b':
          "ix_put ops num nb (f i) = Some (num', nb')" "packed k nb' (ys @ [f i])" "head nb' = head nb"
        by blast
      then show ?thesis
        using Cons.IH [OF Cons.prems(1) b'(2) Cons.prems(3) ahead_tail [OF Cons.prems(4)], of oa True num']
          Cons.prems(3,6,8) d(3) distinct_skip [OF d(1)] False other i by simp
    qed
  qed
qed

end

end
