(* ===== verification/Bag_Spec.thy ===== *)
theory Bag_Spec
  imports Table_Spec "HOL-Library.Multiset"
begin

text \<open>
  Tables that do not keep the order of insertion. Such a table stands for a list of elements up to its
  order; as no two of its elements are equal keys, the replies of the specification do not depend on it.
\<close>

definition keys_unique :: "('e \<Rightarrow> 'e \<Rightarrow> bool) \<Rightarrow> 'e list \<Rightarrow> bool" where
  "keys_unique Eq xs \<longleftrightarrow> (\<forall>e. \<forall>x \<in> set xs. \<forall>y \<in> set xs. Eq x e \<longrightarrow> Eq y e \<longrightarrow> x = y)"

lemma find_unique:
  assumes "keys_unique Eq xs" "x \<in> set xs" "Eq x e"
  shows "List.find (\<lambda>x. Eq x e) xs = Some x"
  using assms
proof (induction xs)
  case (Cons y ys)
  have "keys_unique Eq ys" using Cons.prems(1) by (auto simp: keys_unique_def)
  then show ?case using Cons by (auto simp: keys_unique_def)
qed simp

lemma spec_step_bag:
  assumes "keys_unique Eq xs" "mset ys = mset xs"
  shows "fst (spec_step Eq ys c) = fst (spec_step Eq xs c)"
    and "mset (snd (spec_step Eq ys c)) = mset (snd (spec_step Eq xs c))"
proof -
  have set: "set ys = set xs" using assms(2) by (rule mset_eq_setD)
  have mem: "member Eq ys e = member Eq xs e" for e by (simp add: member_def set)
  have "List.find (\<lambda>x. Eq x e) ys = List.find (\<lambda>x. Eq x e) xs" for e
  proof (cases "\<exists>x \<in> set xs. Eq x e")
    case True
    then obtain x where "x \<in> set xs" "Eq x e" by blast
    moreover have "keys_unique Eq ys" using assms(1) set by (simp add: keys_unique_def)
    ultimately show ?thesis using find_unique [of Eq ys x e] find_unique [OF assms(1), of x e] set by simp
  next
    case False
    then show ?thesis using find_None_iff [of "\<lambda>x. Eq x e"] set by metis
  qed
  then show "fst (spec_step Eq ys c) = fst (spec_step Eq xs c)" by (cases c) (simp_all add: mem)
  show "mset (snd (spec_step Eq ys c)) = mset (snd (spec_step Eq xs c))"
    by (cases c) (simp_all add: mem assms(2))
qed

locale bag_dictionary =
  fixes Eq :: "'e \<Rightarrow> 'e \<Rightarrow> bool" and step :: "'t \<Rightarrow> 'e cmd \<Rightarrow> ('e reply \<times> 't) option"
    and inv :: "'t \<Rightarrow> bool" and abs :: "'t \<Rightarrow> 'e list" and limit :: nat
  assumes unique: "inv t \<Longrightarrow> keys_unique Eq (abs t)"
    and step_refines: "inv t \<Longrightarrow> length (abs t) < limit \<Longrightarrow>
      \<exists>t'. step t c = Some (fst (spec_step Eq (abs t) c), t') \<and> inv t' \<and>
        mset (abs t') = mset (snd (spec_step Eq (abs t) c))"
begin

lemma run_refines:
  assumes "inv t" "mset (abs t) = mset xs" "length xs + length cs \<le> limit"
  shows "\<exists>t'. run_cmds step t cs = Some (fst (spec_run Eq xs cs), t') \<and> inv t' \<and>
    mset (abs t') = mset (snd (spec_run Eq xs cs))"
  using assms
proof (induction cs arbitrary: t xs)
  case Nil
  then show ?case by simp
next
  case (Cons c cs)
  have len: "length (abs t) = length xs" using Cons.prems(2) by (rule mset_eq_length)
  then obtain t' where t': "step t c = Some (fst (spec_step Eq (abs t) c), t')" "inv t'"
      "mset (abs t') = mset (snd (spec_step Eq (abs t) c))"
    using step_refines [of t c] Cons.prems by auto
  note bag = spec_step_bag [OF unique [OF Cons.prems(1)] Cons.prems(2) [symmetric], of c]
  have "mset (abs t') = mset (snd (spec_step Eq xs c))" using t'(3) bag(2) by simp
  moreover have "length (snd (spec_step Eq xs c)) + length cs \<le> limit"
    using length_spec_step [of Eq xs c] Cons.prems(3) by simp
  ultimately show ?case
    using Cons.IH [OF t'(2), of "snd (spec_step Eq xs c)"] t'(1) bag(1) by (auto simp: Let_def split: prod.split)
qed

end

end
