(* ===== verification/Ix_Correct.thy ===== *)
theory Ix_Correct
  imports Ix_Bins Bag_Spec
begin

text \<open>
  Correctness of the extendible table over the interface \<open>ix_bins\<close>: the invariant of the directory and
  its bins, the operations on the bag of elements, rebuilding, splitting and iteration.
\<close>

section \<open>What a table stands for\<close>

definition ix_contents :: "('b \<Rightarrow> 'e view) \<Rightarrow> 'b ix_table \<Rightarrow> nat \<Rightarrow> 'e list" where
  "ix_contents view t i = contents (view (the (read_el (bins t) i)))"

text \<open>The elements, bin after bin.\<close>

definition ix_abs :: "('b \<Rightarrow> 'e view) \<Rightarrow> 'b ix_table \<Rightarrow> 'e list" where
  "ix_abs view t = concat (map (ix_contents view t) [0..<unat (bins_num t)])"

text \<open>
  A bin of depth \<open>d\<close> and mask \<open>m\<close> is the one of exactly those directory entries whose low \<open>d\<close> bits are \<open>m\<close>,
  and it holds elements whose hashes have these low bits.
\<close>

definition ix_good :: "('e \<Rightarrow> u64) \<Rightarrow> (('e, 'm) ebin_scheme \<Rightarrow> 'e view) \<Rightarrow> (nat \<Rightarrow> ('e, 'm) ebin_scheme \<Rightarrow> bool) \<Rightarrow>
    ('e, 'm) ebin_scheme ix_table \<Rightarrow> nat \<Rightarrow> bool" where
  "ix_good hash view bin_ok t i \<longleftrightarrow> (\<exists>b k d m. read_el (bins t) i = Some b \<and> bin_ok k b \<and>
     head b = (Some d, Some m, 0) \<and> unat d \<le> unat (max_depth t) \<and> unat m < 2 ^ unat d \<and>
     (\<forall>j < 2 ^ unat (max_depth t). read_el (dir t) j = Some (of_nat i) \<longleftrightarrow> j mod 2 ^ unat d = unat m) \<and>
     (\<forall>x \<in> set (contents (view b)). unat (hash x) mod 2 ^ unat d = unat m))"

definition ix_inv :: "('e \<Rightarrow> u64) \<Rightarrow> (('e, 'm) ebin_scheme \<Rightarrow> 'e view) \<Rightarrow> (nat \<Rightarrow> ('e, 'm) ebin_scheme \<Rightarrow> bool) \<Rightarrow>
    ('e, 'm) ebin_scheme ix_table \<Rightarrow> bool" where
  "ix_inv hash view bin_ok t \<longleftrightarrow> unat (max_depth t) \<le> 31 \<and> bin_mask t = 2 ^ unat (max_depth t) - 1 \<and>
     unat (dir_capacity t) = 2 ^ unat (max_depth t) \<and> length (dir t) = 2 ^ unat (max_depth t) \<and>
     length (bins t) = unat (bins_capacity t) \<and> unat (bins_num t) \<le> unat (bins_capacity t) \<and>
     (\<forall>j < 2 ^ unat (max_depth t). \<exists>i < unat (bins_num t). read_el (dir t) j = Some (of_nat i)) \<and>
     (\<forall>i < unat (bins_num t). ix_good hash view bin_ok t i) \<and>
     unat (els_num t) = length (ix_abs view t)"

lemma ix_invD:
  assumes "ix_inv hash view bin_ok t"
  shows "unat (max_depth t) \<le> 31" "bin_mask t = 2 ^ unat (max_depth t) - 1"
    "unat (dir_capacity t) = 2 ^ unat (max_depth t)" "length (dir t) = 2 ^ unat (max_depth t)"
    "length (bins t) = unat (bins_capacity t)" "unat (bins_num t) \<le> unat (bins_capacity t)"
    "j < 2 ^ unat (max_depth t) \<Longrightarrow> \<exists>i < unat (bins_num t). read_el (dir t) j = Some (of_nat i)"
    "i < unat (bins_num t) \<Longrightarrow> ix_good hash view bin_ok t i" "unat (els_num t) = length (ix_abs view t)"
  using assms unfolding ix_inv_def by simp_all

lemma unat_bin_ind: "i < unat (n :: u32) \<Longrightarrow> unat (of_nat i :: u32) = i"
  using unsigned_less [of n, where 'a = nat] by (simp add: unat_of_nat_less)

lemma mset_concat_upt:
  assumes "i < n"
  shows "mset (concat (map f [0..<n])) = mset (f i) + (\<Sum>j \<in> {..<n} - {i}. mset (f j))"
proof -
  have "mset (concat (map f [0..<n])) = (\<Sum>j \<in> {..<n}. mset (f j))"
    by (simp add: mset_concat interv_sum_list_conv_sum_set_nat atLeast0LessThan comp_def)
  then show ?thesis using assms by (simp add: sum.remove [of "{..<n}" i])
qed

lemma in_sum_mset: "finite A \<Longrightarrow> x \<in># (\<Sum>j \<in> A. mset (f j)) \<longleftrightarrow> (\<exists>j \<in> A. x \<in> set (f j))"
  by (induction A rule: finite_induct) auto

lemma set_ix_abs: "set (ix_abs view t) = (\<Union>i < unat (bins_num t). set (ix_contents view t i))"
  by (auto simp: ix_abs_def)

lemma mod_low: "d \<le> D \<Longrightarrow> (x mod 2 ^ D) mod 2 ^ d = x mod (2 ^ d :: nat)"
  by (rule mod_mod_cancel) (rule le_imp_power_dvd)

lemma del_bytes_cover: "i < n \<Longrightarrow> i div 8 < (n + 7) div (8 :: nat)"
  using div_le_mono [of "i + 8" "n + 7" 8] by simp

lemma pow2_le_12: "k \<le> 12 \<Longrightarrow> (2 :: nat) ^ k \<le> 2 ^ 12"
  by (rule power_increasing) simp_all

lemma ix_sizes:
  assumes "k \<le> 13"
  shows "unat (8 * 2 ^ k :: u32) = 8 * 2 ^ k" "unat (4 * 2 ^ k :: u32) = 4 * 2 ^ k" "(8 * 2 ^ k :: u32) div 2 = 4 * 2 ^ k"
    "unat ((4 * 2 ^ k + 7) div 8 :: u32) = (4 * 2 ^ k + 7) div 8" "(2 ^ k - 1 + 1 :: u32) * IXHT_GROUP_SIZE = 8 * 2 ^ k"
    "(8 * 2 ^ k :: u32) div IXHT_GROUP_SIZE = 2 ^ k" "unat (2 ^ k :: u32) = 2 ^ k"
proof -
  have le: "(2 :: nat) ^ k \<le> 2 ^ 13" by (rule power_increasing) (use assms in simp_all)
  then show u: "unat (8 * 2 ^ k :: u32) = 8 * 2 ^ k" "unat (4 * 2 ^ k :: u32) = 4 * 2 ^ k" "unat (2 ^ k :: u32) = 2 ^ k"
    using assms by (simp_all add: unat_mult_less)
  show "(8 * 2 ^ k :: u32) div 2 = 4 * 2 ^ k" "(8 * 2 ^ k :: u32) div IXHT_GROUP_SIZE = 2 ^ k"
    using u by (simp_all add: word_unat_eq_iff unat_div IXHT_GROUP_SIZE_def)
  show "unat ((4 * 2 ^ k + 7) div 8 :: u32) = (4 * 2 ^ k + 7) div 8"
    using u(2) le by (simp add: unat_div unat_add_less)
  show "(2 ^ k - 1 + 1 :: u32) * IXHT_GROUP_SIZE = 8 * 2 ^ k" by (simp add: IXHT_GROUP_SIZE_def)
qed

text \<open>Scan masks and group numbers at 32 bits.\<close>

lemma ucast_low_byte: "(ucast (m AND 0xff :: u32) :: u64) = ucast m AND 0xff"
  by (simp add: unsigned_and_eq)

lemma ucast_byte_twice: "(ucast (ucast (x :: u8) :: u32) :: u64) = ucast x"
  by (rule bit_word_eqI) (auto simp: bit_simps dest: bit_imp_le_length)

lemma unat_bin_mask: "k \<le> 12 \<Longrightarrow> unat (2 ^ k - 1 :: u32) = 2 ^ k - 1"
  by (subst unat_sub) (simp_all add: word_le_nat_alt)

lemma bin_next_group:
  assumes "k \<le> 12" "unat g < 2 ^ k"
  shows "unat ((g + 1) AND (2 ^ k - 1 :: u32)) = Suc (unat g) mod 2 ^ k"
proof -
  have "unat g < 2 ^ 12" using assms(2) pow2_le_12 [OF assms(1)] by simp
  then have "unat (g + 1) = Suc (unat g)" by (subst unat_add_less) simp_all
  then show ?thesis by (simp add: unat_and_pow2_mask)
qed

lemma bin_home:
  assumes "k \<le> 12"
  shows "unat (ucast (h div IXHT_GROUP_SIZE :: u64) AND (2 ^ k - 1 :: u32)) = home (2 ^ k) h"
proof -
  have "unat (ucast (h div 8) :: u32) mod 2 ^ k = unat (h div 8) mod 2 ^ k"
    using mod_low [of k 32 "unat (h div 8)"] assms by (simp add: unsigned_ucast_eq take_bit_eq_mod)
  then show ?thesis by (simp add: unat_and_pow2_mask home_def IXHT_GROUP_SIZE_def)
qed

context ix_bins
begin

abbreviation tab_inv :: "('e, 'm) ebin_scheme ix_table \<Rightarrow> bool" where "tab_inv \<equiv> ix_inv hash view bin_ok"

abbreviation tab_abs :: "('e, 'm) ebin_scheme ix_table \<Rightarrow> 'e list" where "tab_abs \<equiv> ix_abs view"

lemma bin_unique:
  assumes b: "bin_ok k b" and x: "x \<in> set (contents (view b))" "y \<in> set (contents (view b))" and eq: "Eq x y"
  shows "x = y"
proof -
  have v: "view_inv hash Eq (view b)" using bin_view [OF b] by blast
  obtain i j where "live (view b) i" "elem (view b) i = Some x" "live (view b) j" "elem (view b) j = Some y"
    using x unfolding in_contents_iff [OF v] by blast
  then show ?thesis using view_inv_keys_inj [OF v] eq by fastforce
qed

text \<open>The directory entry of an element.\<close>

abbreviation entry :: "('e, 'm) ebin_scheme ix_table \<Rightarrow> 'e \<Rightarrow> nat" where
  "entry t e \<equiv> unat (hash e) mod 2 ^ unat (max_depth t)"

lemma entry_eq: "tab_inv t \<Longrightarrow> unat (hash e AND bin_mask t) = entry t e"
  by (simp add: ix_invD(2) unat_and_pow2_mask)

lemma entry_less: "entry t e < 2 ^ unat (max_depth t)"
  by simp

lemma good_bin:
  assumes "tab_inv t" "i < unat (bins_num t)"
  shows "\<exists>b k d m. read_el (bins t) i = Some b \<and> bin_ok k b \<and> head b = (Some d, Some m, 0) \<and>
    unat d \<le> unat (max_depth t) \<and> unat m < 2 ^ unat d \<and>
    (\<forall>j < 2 ^ unat (max_depth t). read_el (dir t) j = Some (of_nat i) \<longleftrightarrow> j mod 2 ^ unat d = unat m) \<and>
    (\<forall>x \<in> set (contents (view b)). unat (hash x) mod 2 ^ unat d = unat m)"
  using ix_invD(8) [OF assms] by (simp only: ix_good_def)

text \<open>An element is stored in the bin of its directory entry.\<close>

lemma stored_at:
  assumes inv: "tab_inv t" and i: "i < unat (bins_num t)" and x: "x \<in> set (ix_contents view t i)"
  shows "read_el (dir t) (entry t x) = Some (of_nat i)"
proof -
  obtain b and d :: u16 and m :: u64 where b: "read_el (bins t) i = Some b" "unat d \<le> unat (max_depth t)"
      "\<forall>j < 2 ^ unat (max_depth t). read_el (dir t) j = Some (of_nat i) \<longleftrightarrow> j mod 2 ^ unat d = unat m"
      "\<forall>x \<in> set (contents (view b)). unat (hash x) mod 2 ^ unat d = unat m"
    using good_bin [OF inv i] by blast
  have "entry t x mod 2 ^ unat d = unat m" using b(1,4) x mod_low [OF b(2)] by (simp add: ix_contents_def)
  then show ?thesis using b(3) entry_less by blast
qed

lemma stored_apart:
  assumes hk: "keys_ok" and inv: "tab_inv t" and i: "i < unat (bins_num t)" "j < unat (bins_num t)"
    and "read_el (dir t) (entry t e) = Some (of_nat i)" "x \<in> set (ix_contents view t j)" "Eq x e"
  shows "j = i"
proof -
  have "hash x = hash e" by (rule hash_key.hash_cong [OF hash_key_ix [OF hk] assms(7)])
  then have "(of_nat i :: u32) = of_nat j" using stored_at [OF inv i(2) assms(6)] assms(5) by simp
  then have "unat (of_nat i :: u32) = unat (of_nat j :: u32)" by simp
  then show ?thesis using unat_bin_ind [OF i(1)] unat_bin_ind [OF i(2)] by simp
qed

text \<open>The bin an operation on \<open>e\<close> works on.\<close>

definition at_bin :: "('e, 'm) ebin_scheme ix_table \<Rightarrow> 'e \<Rightarrow> nat \<Rightarrow> ('e, 'm) ebin_scheme \<Rightarrow> nat \<Rightarrow> bool" where
  "at_bin t e i b k \<longleftrightarrow> i < unat (bins_num t) \<and> read_el (dir t) (entry t e) = Some (of_nat i) \<and>
     read_el (bins t) i = Some b \<and> bin_ok k b"

lemma at_bin_exists:
  assumes "tab_inv t"
  shows "\<exists>i b k. at_bin t e i b k"
proof -
  obtain i where "i < unat (bins_num t)" "read_el (dir t) (entry t e) = Some (of_nat i)"
    using ix_invD(7) [OF assms entry_less] by blast
  then show ?thesis using good_bin [OF assms, of i] unfolding at_bin_def by blast
qed

lemma at_binD:
  assumes "at_bin t e i b k"
  shows "i < unat (bins_num t)" "read_el (dir t) (entry t e) = Some (of_nat i)" "read_el (bins t) i = Some b" "bin_ok k b"
    "unat (of_nat i :: u32) = i" "ix_contents view t i = contents (view b)"
  using assms unat_bin_ind [of i "bins_num t"] by (simp_all add: at_bin_def ix_contents_def)

lemma member_at_bin:
  assumes hk: "keys_ok" and inv: "tab_inv t" and at: "at_bin t e i b k"
  shows "member Eq (tab_abs t) e \<longleftrightarrow> member Eq (contents (view b)) e"
proof -
  note d = at_binD [OF at]
  have "x \<in> set (contents (view b))" if "x \<in> set (tab_abs t)" "Eq x e" for x
  proof -
    obtain j where j: "j < unat (bins_num t)" "x \<in> set (ix_contents view t j)"
      using \<open>x \<in> set (tab_abs t)\<close> by (auto simp: set_ix_abs)
    have "j = i" by (rule stored_apart [OF hk inv d(1) j(1) d(2) j(2) \<open>Eq x e\<close>])
    then show ?thesis using j(2) unfolding d(6) [symmetric] by simp
  qed
  moreover have "x \<in> set (tab_abs t)" if "x \<in> set (contents (view b))" for x
    unfolding set_ix_abs by (rule UN_I [of i]) (use that d(1,6) in simp_all)
  ultimately show ?thesis unfolding member_def by blast
qed

lemma unique_abs:
  assumes hk: "keys_ok" and inv: "tab_inv t"
  shows "keys_unique Eq (tab_abs t)"
proof -
  have "x = y" if "x \<in> set (tab_abs t)" "y \<in> set (tab_abs t)" "Eq x e" "Eq y e" for e x y
  proof -
    obtain i b k where at: "at_bin t e i b k" using at_bin_exists [OF inv] by blast
    note d = at_binD [OF at]
    have "z \<in> set (contents (view b))" if "z \<in> set (tab_abs t)" "Eq z e" for z
      using that stored_apart [OF hk inv d(1) _ d(2)] d(6) by (auto simp: set_ix_abs)
    then have "x \<in> set (contents (view b))" "y \<in> set (contents (view b))" using that by blast+
    moreover have "Eq x y" using hash_key.eq_trans [OF hk that(3)] hash_key.eq_sym [OF hk that(4)] by blast
    ultimately show ?thesis using bin_unique [OF d(4)] by blast
  qed
  then show ?thesis unfolding keys_unique_def by blast
qed

subsection \<open>Replacing one bin\<close>

lemma write_bin:
  assumes "tab_inv t" "i < unat (bins_num t)"
  shows "write_el (bins t) i b = Some ((bins t)[i := Some b])"
  using ix_invD(5,6) [OF assms(1)] assms(2) by (simp add: write_el_def)

abbreviation with_bin :: "('e, 'm) ebin_scheme ix_table \<Rightarrow> u32 \<Rightarrow> nat \<Rightarrow> ('e, 'm) ebin_scheme \<Rightarrow> ('e, 'm) ebin_scheme ix_table" where
  "with_bin t num i b \<equiv> t\<lparr>els_num := num, bins := (bins t)[i := Some b]\<rparr>"

lemma read_with_bin:
  assumes "tab_inv t" "i < unat (bins_num t)"
  shows "read_el (bins (with_bin t num i b)) j = (if j = i then Some b else read_el (bins t) j)"
  using read_write_el [OF write_bin [OF assms, of b], of j] by simp

lemma contents_with_bin:
  assumes "tab_inv t" "i < unat (bins_num t)"
  shows "ix_contents view (with_bin t num i b) j = (if j = i then contents (view b) else ix_contents view t j)"
  unfolding ix_contents_def read_with_bin [OF assms] by simp

lemma abs_with_bin:
  assumes hk: "keys_ok" and inv: "tab_inv t" and at: "at_bin t e i b k"
  shows "\<exists>R. mset (tab_abs t) = mset (contents (view b)) + R \<and>
    (\<forall>num b'. mset (tab_abs (with_bin t num i b')) = mset (contents (view b')) + R) \<and> (\<forall>x \<in># R. \<not> Eq x e)"
proof -
  note d = at_binD [OF at]
  let ?R = "\<Sum>j \<in> {..<unat (bins_num t)} - {i}. mset (ix_contents view t j)"
  have "mset (tab_abs t) = mset (contents (view b)) + ?R"
    using mset_concat_upt [OF d(1), of "ix_contents view t"] by (simp add: ix_abs_def d(6))
  moreover have "mset (tab_abs (with_bin t num i b')) = mset (contents (view b')) + ?R" for num b'
    using mset_concat_upt [OF d(1), of "ix_contents view (with_bin t num i b')"]
    by (simp add: ix_abs_def contents_with_bin [OF inv d(1)])
  moreover have "\<not> Eq x e" if "x \<in># ?R" for x
    using that stored_apart [OF hk inv d(1) _ d(2)] by (auto simp: in_sum_mset)
  ultimately show ?thesis by blast
qed

lemma good_with_bin:
  assumes hk: "keys_ok" and inv: "tab_inv t" and at: "at_bin t e i b k" and b': "bin_ok k' b'" "head b' = head b"
    and elems: "\<And>x. x \<in> set (contents (view b')) \<Longrightarrow> x \<in> set (contents (view b)) \<or> Eq x e"
    and j: "j < unat (bins_num t)"
  shows "ix_good hash view bin_ok (with_bin t num i b') j"
proof (cases "j = i")
  case True
  note at' = at_binD [OF at]
  obtain c k d m where c: "read_el (bins t) i = Some c" "head c = (Some d, Some m, 0)"
      "unat d \<le> unat (max_depth t)" "unat m < 2 ^ unat d"
      "\<forall>j < 2 ^ unat (max_depth t). read_el (dir t) j = Some (of_nat i) \<longleftrightarrow> j mod 2 ^ unat d = unat m"
      "\<forall>x \<in> set (contents (view c)). unat (hash x) mod 2 ^ unat d = unat m"
    using good_bin [OF inv at'(1)] by blast
  have cb: "c = b" using c(1) at'(3) by simp
  have "unat (hash x) mod 2 ^ unat d = unat m" if "x \<in> set (contents (view b'))" for x
  proof (cases "x \<in> set (contents (view b))")
    case False
    then have "hash x = hash e" using elems [OF that] hash_key.hash_cong [OF hash_key_ix [OF hk]] by blast
    moreover have "entry t e mod 2 ^ unat d = unat m" using c(5) entry_less at'(2) by blast
    ultimately show ?thesis using mod_low [OF c(3)] by simp
  qed (use c(6) cb in blast)
  then show ?thesis
    unfolding ix_good_def read_with_bin [OF inv at'(1)] using True b' c(2-5) cb by auto
next
  case False
  then show ?thesis
    using ix_invD(8) [OF inv j] unfolding ix_good_def read_with_bin [OF inv at_binD(1) [OF at]] by simp
qed

lemma inv_with_bin:
  assumes "keys_ok" "tab_inv t" "at_bin t e i b k" "bin_ok k' b'" "head b' = head b"
    and "\<And>x. x \<in> set (contents (view b')) \<Longrightarrow> x \<in> set (contents (view b)) \<or> Eq x e"
    and num: "unat num + length (contents (view b)) = unat (els_num t) + length (contents (view b'))"
  shows "tab_inv (with_bin t num i b')"
proof -
  obtain R where R: "mset (tab_abs t) = mset (contents (view b)) + R"
      "mset (tab_abs (with_bin t num i b')) = mset (contents (view b')) + R"
    using abs_with_bin [OF assms(1-3)] by blast
  have "unat num = length (tab_abs (with_bin t num i b'))"
    using arg_cong [OF R(1), of size] arg_cong [OF R(2), of size] ix_invD(9) [OF assms(2)] num by simp
  moreover have "ix_good hash view bin_ok (with_bin t num i b') j" if "j < unat (bins_num t)" for j
    using good_with_bin [OF assms(1-6) that] by blast
  ultimately show ?thesis using assms(2) by (simp add: ix_inv_def)
qed

subsection \<open>Find and delete\<close>

lemma with_same_bin:
  assumes "at_bin t e i b k"
  shows "with_bin t (els_num t) i b = t"
proof -
  have "bins t ! i = Some b" using at_binD(3) [OF assms] by (simp add: read_el_def split: if_splits)
  then have "(bins t)[i := Some b] = bins t" by (metis list_update_id)
  then show ?thesis by simp
qed

text \<open>What \<open>perform\<close> does once it has made room, for an insertion, and otherwise at once.\<close>

lemma perform_at:
  assumes "tab_inv t" "at_bin t e i b k"
    and room: "if a \<ge> INSERT then ix_make_room ops t (hash e) (of_nat i) = Some (of_nat i', t') else i' = i \<and> t' = t"
    and "tab_inv t'" "at_bin t' e i' b' k'"
  shows "ix_perform ops t e a = do {
    (found, res, num, b) \<leftarrow> bin_do_1 ops (els_num t') b' (hash e) e a;
    Some (found, map_option (Pair i') res, with_bin t' num i' b)
  }"
  using room entry_eq [OF assms(1)] at_binD [OF assms(2)] at_binD [OF assms(5)]
    write_bin [OF assms(4) at_binD(1) [OF assms(5)]]
  by (simp add: ix_perform_def split: if_splits)

lemma perform_now:
  assumes "tab_inv t" "at_bin t e i b k" "\<not> INSERT \<le> a"
  shows "ix_perform ops t e a = do {
    (found, res, num, b) \<leftarrow> bin_do_1 ops (els_num t) b (hash e) e a;
    Some (found, map_option (Pair i) res, with_bin t num i b)
  }"
  using perform_at [OF assms(1,2) _ assms(1,2), of a] assms(3) by simp

lemma load_live:
  assumes at: "at_bin t e i b k" and "live (view b) j"
  shows "ix_load t (Some (i, j)) = elem (view b) j"
  using at_binD [OF at] bin_view [of k b] by (simp add: ix_load_def)

lemma find_abs:
  assumes hk: "keys_ok" and inv: "tab_inv t" and at: "at_bin t e i b k"
    and x: "live (view b) j" "elem (view b) j = Some x" "Eq x e"
  shows "List.find (\<lambda>x. Eq x e) (tab_abs t) = Some x"
proof (rule find_unique [OF unique_abs [OF hk inv] _ x(3)])
  note d = at_binD [OF at]
  have "view_inv hash Eq (view b)" using bin_view [OF d(4)] by blast
  then have "x \<in> set (ix_contents view t i)" unfolding d(6) using x by (simp add: in_contents_iff) blast
  then show "x \<in> set (tab_abs t)" unfolding set_ix_abs using d(1) by blast
qed

lemma perform_find:
  assumes hk: "keys_ok" and inv: "tab_inv t"
  shows "member Eq (tab_abs t) e \<Longrightarrow> \<exists>p x. ix_perform ops t e FIND = Some (True, Some p, t) \<and>
      ix_load t (Some p) = Some x \<and> List.find (\<lambda>x. Eq x e) (tab_abs t) = Some x"
    and "\<not> member Eq (tab_abs t) e \<Longrightarrow> ix_perform ops t e FIND = Some (False, None, t)"
proof -
  obtain i b k where at: "at_bin t e i b k" using at_bin_exists [OF inv] by blast
  note d = at_binD [OF at] and mem = member_at_bin [OF hk inv at] and same = with_same_bin [OF at]
  have now: "ix_perform ops t e FIND = do {
      (found, res, num, b) \<leftarrow> bin_do_1 ops (els_num t) b (hash e) e FIND;
      Some (found, map_option (Pair i) res, with_bin t num i b)
    }"
    by (rule perform_now [OF inv at]) (simp add: less_eq_action_def)
  show "\<exists>p x. ix_perform ops t e FIND = Some (True, Some p, t) \<and>
      ix_load t (Some p) = Some x \<and> List.find (\<lambda>x. Eq x e) (tab_abs t) = Some x" if m: "member Eq (tab_abs t) e"
  proof -
    obtain y where "y \<in> set (contents (view b))" "Eq y e" using m mem unfolding member_def by blast
    from do_1_present [OF hk d(4) this, of "els_num t"] obtain j x where j:
        "live (view b) j" "elem (view b) j = Some x" "Eq x e"
        "\<forall>a. a \<noteq> DELETE \<longrightarrow> bin_do_1 ops (els_num t) b (hash e) e a = Some (True, Some j, els_num t, b)"
      by blast
    then show ?thesis
      using now same load_live [OF at j(1)] find_abs [OF hk inv at j(1-3)] by simp
  qed
  show "ix_perform ops t e FIND = Some (False, None, t)" if m: "\<not> member Eq (tab_abs t) e"
  proof -
    have "\<forall>x \<in> set (contents (view b)). \<not> Eq x e" using m mem unfolding member_def by blast
    from do_1_absent [OF hk d(4) this, of FIND "els_num t"] show ?thesis
      using now same by (simp add: less_action_def)
  qed
qed

lemma filter_bag:
  assumes "mset ys = mset xs + R" "\<forall>x \<in># R. \<not> Eq x e"
  shows "mset (filter (\<lambda>x. \<not> Eq x e) ys) = mset (filter (\<lambda>x. \<not> Eq x e) xs) + R"
proof -
  have "filter_mset (\<lambda>x. \<not> Eq x e) R = R" using assms(2) by (simp add: filter_mset_eq_conv)
  then show ?thesis using assms(1) by (simp add: mset_filter)
qed

text \<open>The tables have the same directory, which refers to as many bins.\<close>

definition same_dir :: "('e, 'm) ebin_scheme ix_table \<Rightarrow> ('e, 'm) ebin_scheme ix_table \<Rightarrow> bool" where
  "same_dir t t' \<longleftrightarrow> max_depth t' = max_depth t \<and> dir t' = dir t \<and> bins_num t' = bins_num t"

lemma same_dir_with_bin [simp]: "same_dir t (with_bin t' num i b) \<longleftrightarrow> same_dir t t'"
  by (simp add: same_dir_def)

lemma same_dir_refl [simp]: "same_dir t t"
  by (simp add: same_dir_def)

lemma perform_delete:
  assumes hk: "keys_ok" and inv: "tab_inv t"
  shows "\<exists>t'. ix_perform ops t e DELETE = Some (member Eq (tab_abs t) e, None, t') \<and> tab_inv t' \<and>
    mset (tab_abs t') = mset (filter (\<lambda>x. \<not> Eq x e) (tab_abs t)) \<and> same_dir t t'"
proof -
  obtain i b k where at: "at_bin t e i b k" using at_bin_exists [OF inv] by blast
  note d = at_binD [OF at] and mem = member_at_bin [OF hk inv at]
  have now: "ix_perform ops t e DELETE = do {
      (found, res, num, b) \<leftarrow> bin_do_1 ops (els_num t) b (hash e) e DELETE;
      Some (found, map_option (Pair i) res, with_bin t num i b)
    }"
    by (rule perform_now [OF inv at]) (simp add: less_eq_action_def)
  obtain R where R: "mset (tab_abs t) = mset (contents (view b)) + R"
      "\<forall>num b'. mset (tab_abs (with_bin t num i b')) = mset (contents (view b')) + R" "\<forall>x \<in># R. \<not> Eq x e"
    using abs_with_bin [OF hk inv at] by blast
  note rest = filter_bag [OF R(1,3)]
  show ?thesis
  proof (cases "member Eq (tab_abs t) e")
    case True
    then obtain y where y: "y \<in> set (contents (view b))" "Eq y e" using mem unfolding member_def by blast
    from do_1_present [OF hk d(4) this, of "els_num t"] obtain b' where b':
        "bin_do_1 ops (els_num t) b (hash e) e DELETE = Some (True, None, els_num t - 1, b')" "bin_ok k b'"
        "head b' = head b" "contents (view b') = filter (\<lambda>x. \<not> Eq x e) (contents (view b))"
      by blast
    have "keys_distinct Eq (contents (view b))" using bin_view [OF d(4)] contents_keys_distinct by blast
    then have len: "Suc (length (contents (view b'))) = length (contents (view b))"
      unfolding b'(4) using length_remove_key [OF hk] True mem by blast
    have "length (contents (view b)) \<le> unat (els_num t)"
      using arg_cong [OF R(1), of size] ix_invD(9) [OF inv] by simp
    then have "unat (els_num t - 1) = unat (els_num t) - 1"
      using len by (subst unat_sub) (simp_all add: word_le_nat_alt)
    then have "unat (els_num t - 1) + length (contents (view b)) = unat (els_num t) + length (contents (view b'))"
      using len \<open>length (contents (view b)) \<le> unat (els_num t)\<close> by simp
    from inv_with_bin [OF hk inv at b'(2,3) _ this] have "tab_inv (with_bin t (els_num t - 1) i b')"
      using b'(4) by simp
    then show ?thesis using now b'(1,4) True R(2) rest by simp
  next
    case False
    then have "\<forall>x \<in> set (contents (view b)). \<not> Eq x e" using mem unfolding member_def by blast
    from do_1_absent [OF hk d(4) this, of DELETE "els_num t"] have "ix_perform ops t e DELETE = Some (False, None, t)"
      using now with_same_bin [OF at] by (simp add: less_action_def)
    moreover have "filter (\<lambda>x. \<not> Eq x e) (tab_abs t) = tab_abs t" using False by (auto simp: member_def filter_id_conv)
    ultimately show ?thesis using False inv by simp
  qed
qed

subsection \<open>Rebuilding a bin in place\<close>

lemma moved_contents:
  assumes "bin_ok k b"
  shows "moved (deleted b) (\<lambda>i. the (read_el (els b) i)) [0..<unat (els_bound b)] = contents (view b)"
  using bin_view [OF assms] by (simp add: moved_def contents_def)

lemma ahead_contents:
  assumes b: "bin_ok k b" and xs: "\<And>i. i < unat (els_bound b) \<Longrightarrow> read_el xs i = read_el (els b) i"
  shows "ahead (deleted b) (\<lambda>i. the (read_el (els b) i)) [0..<unat (els_bound b)] xs 0"
  unfolding ahead_def
proof (intro conjI ballI impI)
  note v = bin_view [OF b] and z = bin_size [OF b]
  fix i
  assume "i \<in> set [0..<unat (els_bound b)]"
  then have i: "i < unat (els_bound b)" by simp
  show "i div 8 < length (deleted b)" using del_bytes_cover [OF less_le_trans [OF i]] z by metis
  assume "\<not> del_bit (deleted b) i"
  then have "live (view b) i" using v i by (simp add: live_def)
  then obtain e where "read_el (els b) i = Some e" using live_elem [of hash Eq "view b" i] v by metis
  then show "read_el xs i = Some (the (read_el (els b) i))" using xs [OF i] by simp
qed (simp_all add: sorted_wrt_upt)

lemma distinct_contents: "bin_ok k b \<Longrightarrow> keys_distinct Eq (contents (view b))"
  using bin_view [of k b] contents_keys_distinct by blast

lemma length_contents_bound: "bin_ok k b \<Longrightarrow> length (contents (view b)) \<le> unat (els_bound b)"
  using bin_view [of k b] length_contents [of "view b"] by simp

lemma rebuild_bin_correct:
  assumes hk: "keys_ok" and inv: "tab_inv t" and at: "at_bin t e i b k" and k': "k \<le> k'" "k' \<le> 12"
    and head: "els_start b = 0"
  shows "\<exists>b'. ix_rebuild_bin ops t (of_nat i) (8 * 2 ^ k') (4 * 2 ^ k') = Some (with_bin t (els_num t) i b') \<and>
    packed k' b' (contents (view b)) \<and> head b' = head b"
proof -
  note d = at_binD [OF at] and z = bin_size [OF at_binD(4) [OF at]]
  have sizes: "unat (4 * 2 ^ k' :: u32) = 4 * 2 ^ k'" "unat ((4 * 2 ^ k' + 7) div 8 :: u32) = (4 * 2 ^ k' + 7) div 8"
    using ix_sizes [of k'] k'(2) by simp_all
  have le: "unat (els_bound b) \<le> 4 * 2 ^ k'"
    using z k'(1) by (elim conjE) (erule order_trans, simp)
  let ?xs = "realloc_els (els b) (4 * 2 ^ k')"
  let ?b = "b\<lparr>deleted := no_dels k', els := ?xs\<rparr>"
  obtain c where c: "bin_regroup ops (8 * 2 ^ k') ?b = Some c" "head c = head ?b" "els_bound c = els_bound ?b"
      "els c = els ?b" "bin_ok k' (c\<lparr>els_bound := 0\<rparr>)" "contents (view (c\<lparr>els_bound := 0\<rparr>)) = []"
    using regroup_ok [OF le_trans [OF _ k'(1)] k'(2), of ?b] z by auto
  let ?c = "c\<lparr>els_start := 0, els_bound := 0\<rparr>"
  have same: "?c = c\<lparr>els_bound := 0\<rparr>" "els_start c = 0"
    using c(2) head by (simp_all add: head_def)
  have start: "packed k' ?c []" unfolding same(1) using c(5,6) by (simp add: packed_def)
  have "ahead (deleted b) (\<lambda>i. the (read_el (els b) i)) [0..<unat (els_bound b)] ?xs 0"
  proof (rule ahead_contents [OF d(4)])
    show "read_el ?xs i = read_el (els b) i" if "i < unat (els_bound b)" for i
      using less_le_trans [OF that le] by (simp add: read_realloc_els)
  qed
  moreover have "length (contents (view b)) \<le> 4 * 2 ^ k'" using length_contents_bound [OF d(4)] le by (rule le_trans)
  ultimately have "\<exists>num' b'. ix_reinsert ops (deleted b) [0..<unat (els_bound b)] 0 ?c = Some (num', b') \<and>
      packed k' b' ([] @ contents (view b)) \<and> head b' = head ?c"
    unfolding moved_contents [OF d(4), symmetric]
    using distinct_contents [OF d(4)] moved_contents [OF d(4)] c(4)
    by (intro reinsert_packed [OF hk start]) simp_all
  then obtain num' b' where b': "ix_reinsert ops (deleted b) [0..<unat (els_bound b)] 0 ?c = Some (num', b')"
      "packed k' b' (contents (view b))" "head b' = head ?c"
    by auto
  have "ix_rebuild_bin ops t (of_nat i) (8 * 2 ^ k') (4 * 2 ^ k') = Some (with_bin t (els_num t) i b')"
    using c(1,3) b'(1) d(3,5) same(2) write_bin [OF inv d(1)] sizes by (simp add: ix_rebuild_bin_def Let_def)
  moreover have "head b' = head b" using b'(3) c(2) same by simp
  ultimately show ?thesis using b'(2) by blast
qed

text \<open>A full bin of the largest size splits if the table holds at least as many elements as it has cells.\<close>

definition splits :: "('e, 'm) ebin_scheme ix_table \<Rightarrow> ('e, 'm) ebin_scheme \<Rightarrow> nat \<Rightarrow> bool" where
  "splits t b k \<longleftrightarrow> unat (els_bound b) = 4 * 2 ^ k \<and> 4 * 2 ^ k \<le> length (tab_abs t) \<and> k = 12"

lemma make_room_eq:
  assumes inv: "tab_inv t" and at: "at_bin t e i b k" and small: "length (tab_abs t) < 2 ^ 31"
    and k': "k' = (if 4 * 2 ^ k \<le> length (tab_abs t) then Suc k else k)"
  shows "ix_make_room ops t (hash e) (of_nat i) =
    (if unat (els_bound b) \<noteq> 4 * 2 ^ k then Some (of_nat i, t)
     else if splits t b k then do {
       t \<leftarrow> ix_split_bin ops t (of_nat i);
       bin_ind \<leftarrow> read_el (dir t) (unat (hash e AND bin_mask t));
       Some (bin_ind, t)
     }
     else do { t \<leftarrow> ix_rebuild_bin ops t (of_nat i) (8 * 2 ^ k') (4 * 2 ^ k'); Some (of_nat i, t) })"
proof -
  note d = at_binD [OF at] and z = bin_size [OF at_binD(4) [OF at]]
  have k: "k \<le> 13" "Suc k \<le> 13" using z by simp_all
  note u = ix_sizes [OF k(1)] and u' = ix_sizes [OF k(2)]
  have bound: "els_bound b = 4 * 2 ^ k \<longleftrightarrow> unat (els_bound b) = 4 * 2 ^ k"
    unfolding word_unat_eq_iff u(2) ..
  have "unat (2 * els_num t) = 2 * length (tab_abs t)"
    using small ix_invD(9) [OF inv] by (simp add: unat_mult_less)
  then have grow: "8 * 2 ^ k \<le> 2 * els_num t \<longleftrightarrow> 4 * 2 ^ k \<le> length (tab_abs t)"
    unfolding word_le_nat_alt u(1) by simp
  have double: "(8 * 2 ^ k :: u32) * 2 = 8 * 2 ^ Suc k" "(4 * 2 ^ k :: u32) * 2 = 4 * 2 ^ Suc k" by simp_all
  have "(2 :: nat) ^ 12 \<le> 2 ^ k \<longleftrightarrow> k = 12"
    using z power_increasing_iff [of "2 :: nat" 12 k] by auto
  then have limit: "push_bit IXHT_MAX_BIN_SIZE_POWER 1 \<le> (4 * 2 ^ Suc k :: u32) \<longleftrightarrow> k = 12"
    unfolding word_le_nat_alt u'(2) by (simp add: IXHT_MAX_BIN_SIZE_POWER_def push_bit_eq_mult)
  have mask: "(groups_mask b + 1) * IXHT_GROUP_SIZE = 8 * 2 ^ k" using z u(5) by simp
  show ?thesis
    unfolding ix_make_room_def Let_def d(5) d(3) Option.bind.simps mask u(3) bound grow double k' splits_def
    using limit by (cases "k = 12") simp_all
qed

lemma make_room_rebuild:
  assumes hk: "keys_ok" and inv: "tab_inv t" and at: "at_bin t e i b k" and small: "length (tab_abs t) < 2 ^ 31"
    and "\<not> splits t b k"
  shows "\<exists>t' b' k'. ix_make_room ops t (hash e) (of_nat i) = Some (of_nat i, t') \<and> tab_inv t' \<and> at_bin t' e i b' k' \<and>
    unat (els_bound b') < 4 * 2 ^ k' \<and> tab_abs t' = tab_abs t \<and> same_dir t t'"
proof (cases "unat (els_bound b) = 4 * 2 ^ k")
  case False
  then have "unat (els_bound b) < 4 * 2 ^ k" using bin_size [OF at_binD(4) [OF at]] by simp
  then show ?thesis using make_room_eq [OF inv at small refl] False inv at by (intro exI [of _ t] exI [of _ b] exI [of _ k]) simp
next
  case True
  note d = at_binD [OF at] and z = bin_size [OF at_binD(4) [OF at]]
  define k' where "k' = (if 4 * 2 ^ k \<le> length (tab_abs t) then Suc k else k)"
  have k': "k \<le> k'" "k' \<le> 12" using True assms(5) z by (auto simp: k'_def splits_def)
  have start: "els_start b = 0" using good_bin [OF inv d(1)] d(3) by (auto simp: head_def)
  obtain b' where b': "ix_rebuild_bin ops t (of_nat i) (8 * 2 ^ k') (4 * 2 ^ k') = Some (with_bin t (els_num t) i b')"
      "packed k' b' (contents (view b))" "head b' = head b"
    using rebuild_bin_correct [OF hk inv at k' start] by blast
  let ?t = "with_bin t (els_num t) i b'"
  have ok: "bin_ok k' b'" "contents (view b') = contents (view b)" "unat (els_bound b') = length (contents (view b))"
    using b'(2) by (simp_all add: packed_def)
  have "ix_make_room ops t (hash e) (of_nat i) = Some (of_nat i, ?t)"
    using make_room_eq [OF inv at small k'_def] True assms(5) b'(1) by simp
  moreover have "tab_inv ?t" by (rule inv_with_bin [OF hk inv at ok(1) b'(3)]) (use ok(2) in simp_all)
  moreover have "at_bin ?t e i b' k'"
    using d ok(1) read_with_bin [OF inv d(1), where num = "els_num t" and b = b' and j = i] by (simp add: at_bin_def)
  moreover have "length (contents (view b)) \<le> length (tab_abs t)"
    using mset_concat_upt [OF d(1), of "ix_contents view t", THEN arg_cong, of size] d(6) by (simp add: ix_abs_def)
  then have "unat (els_bound b') < 4 * 2 ^ k'"
  proof (cases "4 * 2 ^ k \<le> length (tab_abs t)")
    case big: True
    then have "k' = Suc k" by (simp add: k'_def)
    moreover have "(4 :: nat) * 2 ^ k < 4 * 2 ^ Suc k" by simp
    ultimately show ?thesis using length_contents_bound [OF d(4)] True ok(3) by (metis le_less_trans)
  next
    case False
    then show ?thesis using \<open>length (contents (view b)) \<le> length (tab_abs t)\<close> ok(3) unfolding k'_def by simp
  qed
  moreover have "ix_contents view ?t = ix_contents view t"
    using contents_with_bin [OF inv d(1), where num = "els_num t" and b = b'] ok(2) d(6) by (intro ext) auto
  then have "tab_abs ?t = tab_abs t" by (simp add: ix_abs_def)
  ultimately show ?thesis by (intro exI [of _ ?t] exI [of _ b'] exI [of _ k']) (simp add: same_dir_def)
qed

end

end
