(* ===== verification/Ix_Create.thy ===== *)
theory Ix_Create
  imports Ix_Correct
begin

text \<open>
  Creation of an extendible table: the size loop ends exactly for requests of at most \<open>2 ^ 31\<close>
  elements, and then every directory entry gets an empty bin of its own.
\<close>

section \<open>Sizes\<close>

lemma ix_create_size_ends:
  assumes "min_size \<le> 2 ^ 31" "1 \<le> s" "s \<le> 31"
  shows "\<exists>j. s \<le> j \<and> j \<le> 31 \<and> ix_create_size min_size (2 ^ s) = Some (2 ^ j) \<and> min_size \<le> 2 ^ j \<and>
    (j = s \<or> 2 ^ (j - 1) < min_size)"
  using assms(2,3)
proof (induction "31 - s" arbitrary: s)
  case 0
  then have "s = 31" by simp
  moreover have "\<not> 2 ^ 31 < min_size" using assms(1) by (simp only: not_less)
  ultimately show ?case using assms(1) by (intro exI [of _ 31]) (subst ix_create_size.simps, simp del: not_less)
next
  case (Suc n)
  show ?case
  proof (cases "2 ^ s < min_size")
    case True
    have "n = 31 - Suc s" "Suc s \<le> 31" using Suc.hyps(2) by simp_all
    from Suc.hyps(1) [OF this(1) _ this(2)] obtain j where
        "Suc s \<le> j" "j \<le> 31" "ix_create_size min_size (2 ^ Suc s) = Some (2 ^ j)" "min_size \<le> 2 ^ j"
        "j = Suc s \<or> 2 ^ (j - 1) < min_size"
      by auto
    then show ?thesis
      using True by (intro exI [of _ j]) (subst ix_create_size.simps, auto simp: mult.commute)
  next
    case False
    moreover have "min_size \<le> 2 ^ s" using False by (simp only: not_less)
    ultimately show ?thesis using Suc.prems by (intro exI [of _ s]) (subst ix_create_size.simps, simp del: not_less)
  qed
qed

lemma ix_create_small:
  assumes "j \<le> 31" "j = 1 \<or> 2 ^ (j - 1) < min_size" "min_size \<le> (2 ^ 14 :: u32)"
  shows "j \<le> 14"
proof (rule ccontr)
  assume "\<not> j \<le> 14"
  then have j: "14 \<le> j - 1" "2 ^ (j - 1) < min_size" using assms(2) by auto
  have "unat (2 ^ (j - 1) :: u32) = 2 ^ (j - 1)" by (rule unat_pow2) (use assms(1) in simp)
  then have "2 ^ (j - 1) < unat min_size" using j(2) by (simp add: word_less_nat_alt)
  moreover have "unat min_size \<le> 2 ^ 14" using assms(3) by (simp add: word_le_nat_alt)
  moreover have "(2 :: nat) ^ 14 \<le> 2 ^ (j - 1)" by (rule power_increasing) (use j(1) in simp_all)
  ultimately show False by linarith
qed

lemma ix_create_size_result:
  assumes "ix_create_size min_size s = Some r"
  shows "min_size \<le> r \<and> (\<exists>j. r = s * 2 ^ j)"
proof (rule ix_create_size.raw_induct [OF _ assms])
  fix loop :: "u32 \<Rightarrow> u32 \<Rightarrow> u32 option" and min_size s r
  assume IH: "\<And>min_size s r. loop min_size s = Some r \<Longrightarrow> min_size \<le> r \<and> (\<exists>j. r = s * 2 ^ j)"
    and body: "(if s < min_size then loop min_size (s * 2) else Some s) = Some r"
  show "min_size \<le> r \<and> (\<exists>j. r = s * 2 ^ j)"
  proof (cases "s < min_size")
    case True
    then have "loop min_size (s * 2) = Some r" using body by simp
    from IH [OF this] obtain j where j: "min_size \<le> r" "r = s * 2 * 2 ^ j" by blast
    then have "r = s * 2 ^ Suc j" by (simp add: mult.assoc)
    then show ?thesis using j(1) by blast
  next
    case False
    then have "r = s * 2 ^ 0" "min_size \<le> r" using body by simp_all
    then show ?thesis by blast
  qed
qed

lemma ix_create_size_diverges:
  assumes "2 ^ 31 < min_size"
  shows "ix_create_size min_size 2 = None"
proof (rule ccontr)
  assume "ix_create_size min_size 2 \<noteq> None"
  then obtain r where r: "ix_create_size min_size 2 = Some r" by blast
  from ix_create_size_result [OF this] obtain j where j: "min_size \<le> r" "r = 2 * 2 ^ j" by blast
  have "unat (2 ^ Suc j :: u32) \<le> 2 ^ 31"
  proof (cases "Suc j < 32")
    case True
    then have "unat (2 ^ Suc j :: u32) = 2 ^ Suc j" by (intro unat_pow2) simp
    also have "\<dots> \<le> 2 ^ 31" by (rule power_increasing) (use True in simp_all)
    finally show ?thesis .
  next
    case False
    then have "(2 ^ Suc j :: u32) = 0" by (intro exp_eq_zero_iff [THEN iffD2]) simp
    then show ?thesis by simp
  qed
  moreover have "2 ^ 31 < unat min_size" using assms by (simp add: word_less_nat_alt)
  moreover have "unat min_size \<le> unat (2 ^ Suc j :: u32)" using j by (simp add: word_le_nat_alt)
  ultimately show False by simp
qed

lemma ix_params_loop_pow2:
  assumes "j \<le> 31"
  shows "ix_params_loop (2 ^ j) (2 ^ n) (of_nat n) = (2 ^ (n + (j - 14)), of_nat (n + (j - 14)), 2 ^ min j 14)"
  using assms
proof (induction j arbitrary: n)
  case 0
  have "\<not> (32768 :: u64) \<le> 1" by (simp add: word_le_nat_alt)
  then show ?case by (subst ix_params_loop.simps) (simp add: IXHT_MAX_BIN_SIZE_POWER_def)
next
  case (Suc j)
  have u: "unat (2 ^ Suc j :: u64) = 2 ^ Suc j" "unat (2 ^ j :: u64) = 2 ^ j"
    using Suc.prems by (intro unat_pow2; simp)+
  have "(2 :: nat) ^ 15 \<le> 2 ^ Suc j \<longleftrightarrow> 15 \<le> Suc j" by (rule power_increasing_iff) simp
  then have limit: "push_bit IXHT_MAX_BIN_SIZE_POWER 1 \<le> (2 ^ Suc j :: u64) \<longleftrightarrow> 15 \<le> Suc j"
    unfolding word_le_nat_alt u(1) by (simp add: IXHT_MAX_BIN_SIZE_POWER_def push_bit_eq_mult del: power_Suc)
  have half: "(2 ^ Suc j :: u64) div 2 = 2 ^ j" "(2 ^ n * 2 :: u64) = 2 ^ Suc n" "(of_nat n + 1 :: u64) = of_nat (Suc n)"
    using u by (simp_all add: word_unat_eq_iff [of "_ div _"] unat_div)
  show ?case
  proof (cases "15 \<le> Suc j")
    case True
    have IH: "ix_params_loop (2 ^ j) (2 ^ Suc n) (of_nat (Suc n)) =
        (2 ^ (Suc n + (j - 14)), of_nat (Suc n + (j - 14)), 2 ^ min j 14)"
      by (rule Suc.IH) (use Suc.prems in simp)
    have "Suc n + (j - 14) = n + (Suc j - 14)" "min j 14 = min (Suc j) 14" using True by simp_all
    then show ?thesis
      using IH by (subst ix_params_loop.simps) (simp only: limit True half if_True)
  next
    case False
    then show ?thesis
      by (subst ix_params_loop.simps) (simp only: limit if_False, simp)
  qed
qed

lemma ix_get_params_pow2:
  "j \<le> 31 \<Longrightarrow> ix_get_params (2 ^ j) = (2 ^ (j - 14), of_nat (j - 14), 2 ^ min j 14)"
  using ix_params_loop_pow2 [of j 0] by (simp add: ix_get_params_def)

section \<open>Bins\<close>

context ix_bins
begin

definition bin_cells :: "u32 \<Rightarrow> u32" where
  "bin_cells sz = (if sz < IXHT_GROUP_SIZE then IXHT_GROUP_SIZE else sz)"

lemma create_bin_ok:
  assumes k: "1 \<le> k" "k \<le> 12" and sz: "bin_cells sz = 4 * 2 ^ k" and cap: "unat (bins_capacity t) = length (bins t)" "unat (bins_num t) \<le> length (bins t)"
      "unat (bins_num t) < 2 ^ 31"
  shows "\<exists>b bs c. ix_create_bin ops t sz =
      Some (bins_num t, t\<lparr>bins_num := bins_num t + 1, bins := bs, bins_capacity := c\<rparr>) \<and>
    bin_ok k b \<and> els_start b = 0 \<and> els_bound b = 0 \<and> contents (view b) = [] \<and>
    unat (bins_num t + 1) = Suc (unat (bins_num t)) \<and> unat c = length bs \<and> Suc (unat (bins_num t)) \<le> length bs \<and>
    (length bs = length (bins t) \<or> length bs \<le> 2 * unat (bins_num t) + 4) \<and>
    (\<forall>j. read_el bs j = (if j = unat (bins_num t) then Some b else read_el (bins t) j))"
proof -
  let ?n = "unat (bins_num t)"
  obtain b where b: "bin_init ops (4 * 2 ^ k) = Some b" "bin_ok k b" "els_start b = 0" "els_bound b = 0" "contents (view b) = []"
    using init_ok [OF k] by blast
  have suc: "unat (bins_num t + 1) = Suc ?n" using cap(2,3) by (simp add: unat_add_less)
  define c where "c = (if bins_num t = bins_capacity t
    then (if bins_capacity t \<noteq> 0 then bins_capacity t * 2 else 4) else bins_capacity t)"
  define bs where "bs = (if bins_num t = bins_capacity t then realloc_els (bins t) (unat c) else bins t)"
  have n: "bins_num t = bins_capacity t \<longleftrightarrow> ?n = length (bins t)" using cap(1) by (simp add: word_unat_eq_iff)
  have double: "unat (bins_capacity t * 2) = 2 * length (bins t)" if "?n = length (bins t)"
    using that cap(1,3) by (simp add: unat_mult_less)
  have zero: "bins_capacity t = 0 \<longleftrightarrow> bins t = []" using cap(1) by (simp add: word_unat_eq_iff)
  have len: "unat c = length bs" "Suc ?n \<le> length bs" "length bs = length (bins t) \<or> length bs \<le> 2 * ?n + 4"
    using cap n double zero by (cases "bins t = []", auto simp: c_def bs_def Suc_le_eq)
  have read: "read_el bs j = read_el (bins t) j" for j
    using cap(1) double zero n by (auto simp: bs_def c_def read_realloc_els) (auto simp: read_el_def)
  have "ix_create_bin ops t sz =
      Some (bins_num t, t\<lparr>bins_num := bins_num t + 1, bins := bs[?n := Some b], bins_capacity := c\<rparr>)"
    using sz b(1) len(2) by (auto simp: ix_create_bin_def Let_def c_def bs_def write_el_def bin_cells_def)
  moreover have "read_el (bs[?n := Some b]) j = (if j = ?n then Some b else read_el (bins t) j)" for j
    using read [of j] len(2) by (auto simp: read_el_def nth_list_update)
  ultimately show ?thesis using b suc len
    by (intro exI [of _ b] exI [of _ "bs[?n := Some b]"] exI [of _ c]) simp
qed

text \<open>A table under construction, with the first \<open>i\<close> of \<open>2 ^ D\<close> bins.\<close>

definition created :: "nat \<Rightarrow> nat \<Rightarrow> nat \<Rightarrow> ('e, 'm) ebin_scheme ix_table \<Rightarrow> bool" where
  "created k D i t \<longleftrightarrow> unat (bins_num t) = i \<and> unat (bins_capacity t) = length (bins t) \<and> i \<le> length (bins t) \<and>
     length (bins t) \<le> 2 * i + 4 \<and> length (dir t) = 2 ^ D \<and> unat (dir_capacity t) = 2 ^ D \<and> els_num t = 0 \<and>
     unat (max_depth t) = D \<and> bin_mask t = 2 ^ D - 1 \<and>
     (\<forall>j < i. read_el (dir t) j = Some (of_nat j) \<and> (\<exists>b d m. read_el (bins t) j = Some b \<and> bin_ok k b \<and>
       head b = (Some d, Some m, 0) \<and> unat d = D \<and> unat m = j \<and> contents (view b) = []))"

lemma created_step:
  assumes k: "1 \<le> k" "k \<le> 12" and D: "D \<le> 17" and i: "i < 2 ^ D" and t: "created k D i t"
    and sz: "bin_cells (ucast bs) = 4 * 2 ^ k"
  shows "\<exists>t'. ix_create_bins ops (of_nat D) bs (i # is) t = ix_create_bins ops (of_nat D) bs is t' \<and> created k D (Suc i) t'"
proof -
  have pow: "(2 :: nat) ^ D \<le> 2 ^ 17" by (rule power_increasing) (use D in simp_all)
  note c = t [unfolded created_def]
  define ds where "ds = (dir t)[i := Some (of_nat i :: u32)]"
  have ds: "write_el (dir t) i (of_nat i) = Some ds" using c i by (simp add: write_el_def ds_def)
  let ?t = "t\<lparr>dir := ds\<rparr>"
  have lim: "length (bins t) < 2 ^ 31" using c i pow by simp
  obtain b bs' cap where n: "ix_create_bin ops ?t (ucast bs) =
        Some (bins_num ?t, ?t\<lparr>bins_num := bins_num ?t + 1, bins := bs', bins_capacity := cap\<rparr>)"
      "bin_ok k b" "els_start b = 0" "contents (view b) = []" "unat (bins_num ?t + 1) = Suc (unat (bins_num ?t))"
      "unat cap = length bs'" "Suc (unat (bins_num ?t)) \<le> length bs'"
      "length bs' = length (bins ?t) \<or> length bs' \<le> 2 * unat (bins_num ?t) + 4"
      "\<forall>j. read_el bs' j = (if j = unat (bins_num ?t) then Some b else read_el (bins ?t) j)"
    using create_bin_ok [OF k sz, of ?t] c lim by auto
  let ?b = "b\<lparr>depth := Some (ucast (of_nat D :: u64)), hash_mask := Some (of_nat i)\<rparr>"
  have b: "bin_ok k ?b" "contents (view ?b) = []"
    using bin_frame [where k = k and b = b and s = "els_start b"] view_frame [where b = b and s = "els_start b"] n(2,4) by simp_all
  have u: "unat (ucast (of_nat D :: u64) :: u16) = D" "unat (of_nat i :: u64) = i"
    using D i pow by (simp_all add: unsigned_ucast_eq unat_of_nat_less take_bit_eq_mod)
  have num: "unat (bins_num t) = i" using c by blast
  have rw: "read_el bs' i = Some b" "write_el bs' i ?b = Some (bs'[i := Some ?b])"
    using n(7,9) num by (simp_all add: write_el_def)
  let ?t' = "?t\<lparr>bins_num := bins_num t + 1, bins_capacity := cap, bins := bs'[i := Some ?b]\<rparr>"
  have "ix_create_bins ops (of_nat D) bs (i # is) t = ix_create_bins ops (of_nat D) bs is ?t'"
    using ds n(1) rw num by simp
  moreover have "read_el bs' j = read_el (bins t) j" if "j < i" for j using n(9) c that by simp
  then have "created k D (Suc i) ?t'"
    unfolding created_def using c n(3-8) b u i
    by (auto simp: ds_def head_def read_el_def nth_list_update less_Suc_eq)
  ultimately show ?thesis by blast
qed

lemma created_all:
  assumes "1 \<le> k" "k \<le> 12" "D \<le> 17" "bin_cells (ucast bs) = 4 * 2 ^ k" and "i \<le> 2 ^ D" "created k D i t"
  shows "\<exists>t'. ix_create_bins ops (of_nat D) bs [i..<2 ^ D] t = Some t' \<and> created k D (2 ^ D) t'"
  using assms(5,6)
proof (induction "2 ^ D - i" arbitrary: i t)
  case 0
  then show ?case by simp
next
  case (Suc n)
  then have i: "i < 2 ^ D" "n = 2 ^ D - Suc i" by simp_all
  obtain t' where t': "ix_create_bins ops (of_nat D) bs (i # [Suc i..<2 ^ D]) t = ix_create_bins ops (of_nat D) bs [Suc i..<2 ^ D] t'"
      "created k D (Suc i) t'"
    using created_step [OF assms(1-3) i(1) Suc.prems(2) assms(4)] by blast
  then show ?case using Suc.hyps(1) [OF i(2) _ t'(2)] i(1) by (simp add: upt_conv_Cons)
qed

lemma created_inv:
  assumes "D \<le> 17" "created k D (2 ^ D) t"
  shows "tab_inv t \<and> tab_abs t = []"
proof -
  note c = assms(2) [unfolded created_def]
  have pow: "(2 :: nat) ^ D \<le> 2 ^ 17" by (rule power_increasing) (use assms(1) in simp_all)
  have "ix_contents view t j = []" if "j < 2 ^ D" for j using c that by (auto simp: ix_contents_def)
  then have abs: "tab_abs t = []" using c by (simp add: ix_abs_def)
  have "ix_good hash view bin_ok t i" if i: "i < 2 ^ D" for i
  proof -
    obtain b d m where b: "read_el (bins t) i = Some b" "bin_ok k b" "head b = (Some d, Some m, 0)"
        "unat d = D" "unat m = i" "contents (view b) = []"
      using c i by blast
    have "read_el (dir t) j = Some (of_nat i) \<longleftrightarrow> j = i" if "j < 2 ^ D" for j
    proof -
      have "(of_nat j :: u32) = of_nat i \<longleftrightarrow> j = i"
        unfolding word_unat_eq_iff using that i pow by (simp add: unat_of_nat_less)
      then show ?thesis using c that by simp
    qed
    then show ?thesis unfolding ix_good_def using b c i by auto
  qed
  then show ?thesis using c abs assms(1) unfolding ix_inv_def by auto
qed

lemma bin_cells_pow2:
  assumes "p \<le> 14"
  shows "bin_cells (2 ^ p) = 4 * 2 ^ max 1 (p - 2)"
proof -
  have "unat (2 ^ p :: u32) = 2 ^ p" by (rule unat_pow2) (use assms in simp)
  moreover have "(2 :: nat) ^ p < 2 ^ 3 \<longleftrightarrow> p < 3" by (rule power_strict_increasing_iff) simp
  ultimately have less: "(2 ^ p :: u32) < IXHT_GROUP_SIZE \<longleftrightarrow> p < 3"
    unfolding word_less_nat_alt by (simp add: IXHT_GROUP_SIZE_def)
  show ?thesis
  proof (cases "p < 3")
    case True
    then have "max 1 (p - 2) = 1" by simp
    then show ?thesis unfolding bin_cells_def less using True by (simp add: IXHT_GROUP_SIZE_def)
  next
    case False
    then have "p = 2 + max 1 (p - 2)" by simp
    then have "(2 :: u32) ^ p = 2 ^ 2 * 2 ^ max 1 (p - 2)" by (metis power_add)
    then show ?thesis unfolding bin_cells_def less using False by simp
  qed
qed

lemma create_ok:
  assumes "min_size \<le> 2 ^ 31"
  shows "\<exists>t. ix_create ops min_size = Some t \<and> tab_inv t \<and> tab_abs t = [] \<and>
    unat (bins_num t) = 2 ^ unat (max_depth t) \<and>
    (min_size \<le> 2 ^ 14 \<longrightarrow> max_depth t = 0)"
proof -
  obtain j where j: "1 \<le> j" "j \<le> 31" "ix_create_size min_size (2 ^ 1) = Some (2 ^ j)" "j = 1 \<or> 2 ^ (j - 1) < min_size"
    using ix_create_size_ends [OF assms, of 1] by auto
  define D where "D = j - 14"
  define k where "k = max 1 (min j 14 - 2)"
  have k: "1 \<le> k" "k \<le> 12" and D: "D \<le> 17" using j(2) by (simp_all add: k_def D_def)
  let ?sz = "2 ^ min j 14 :: u64"
  have "(ucast ?sz :: u32) = 2 ^ min j 14" by (rule word_unat_eq_iff [THEN iffD2]) (simp add: unsigned_ucast_eq)
  then have sz: "bin_cells (ucast ?sz) = 4 * 2 ^ k" using bin_cells_pow2 [of "min j 14"] by (simp add: k_def)
  have "(ucast (2 ^ j :: u32) :: u64) = 2 ^ j" using j(2) by (simp add: word_unat_eq_iff unsigned_ucast_eq)
  then have params: "ix_get_params (ucast (2 ^ j :: u32)) = (2 ^ D, of_nat D, ?sz)"
    using ix_get_params_pow2 [OF j(2)] by (simp add: D_def)
  have u: "unat (2 ^ D :: u64) = 2 ^ D" "unat (of_nat D :: u64) = D" "unat (ucast (of_nat D :: u64) :: u16) = D"
    "unat (ucast (2 ^ D :: u64) :: u32) = 2 ^ D"
    using D power_increasing [OF D, of "2 :: nat"] by (simp_all add: unsigned_ucast_eq unat_of_nat_less take_bit_eq_mod)
  define t :: "('e, 'm) ebin_scheme ix_table" where "t = \<lparr>els_num = 0, max_depth = ucast (of_nat D :: u64), bin_mask = 2 ^ D - 1,
    dir = replicate (2 ^ D) None, dir_capacity = ucast (2 ^ D :: u64), bins = [], bins_num = 0, bins_capacity = 0\<rparr>"
  have "created k D 0 t" using u by (simp add: created_def t_def)
  then obtain t' where t': "ix_create_bins ops (of_nat D) ?sz [0..<2 ^ D] t = Some t'" "created k D (2 ^ D) t'"
    using created_all [OF k D sz, of 0 t] by auto
  have "max_depth t' = 0" if small: "min_size \<le> 2 ^ 14"
  proof -
    have "D = 0" using ix_create_small [OF j(2,4) small] by (simp add: D_def)
    then show ?thesis using t'(2) by (simp add: created_def word_unat_eq_iff)
  qed
  moreover have "unat (bins_num t') = 2 ^ unat (max_depth t')" using t'(2) by (simp add: created_def)
  moreover have "ix_create ops min_size = ix_create_bins ops (of_nat D) ?sz [0..<2 ^ D] t"
    using j(3) params u by (simp add: ix_create_def t_def push_bit_eq_mult)
  ultimately show ?thesis using created_inv [OF D] t' by simp
qed

end

lemma ix_create_diverges: "2 ^ 31 < min_size \<Longrightarrow> ix_create ops min_size = None"
  using ix_create_size_diverges [of min_size] by (simp add: ix_create_def)

end
