(* ===== verification/Ix_Dir.thy ===== *)
theory Ix_Dir
  imports Ix_Create
begin

text \<open>
  The directory of an extendible table when a bin splits: the bits of hashes and bin masks, doubling
  the directory, and the invariant after the entries of one bin are divided between two.
\<close>

section \<open>Hash bits\<close>

lemma unat_mod_Suc: "unat (h :: u64) mod 2 ^ Suc d = unat h mod 2 ^ d + (if h AND 2 ^ d = 0 then 0 else 2 ^ d)"
proof -
  have "take_bit (Suc d) (unat h) = take_bit d (unat h) + (if bit (unat h) d then 2 ^ d else 0)"
    using take_bit_Suc_from_most [of d "unat h"] by simp
  then show ?thesis by (simp add: take_bit_eq_mod and_exp_eq_0_iff_not_bit bit_unsigned_iff del: power_Suc)
qed

lemma unat_or_pow2:
  assumes "unat (m :: u64) < 2 ^ d" "d < 64"
  shows "unat (m OR 2 ^ d) = unat m + 2 ^ d"
proof -
  have "take_bit d (unat m) = unat m" using assms(1) by (rule take_bit_nat_eq_self)
  then have "\<not> bit (unat m) d" by (metis bit_take_bit_iff less_irrefl)
  then have "m AND 2 ^ d = 0" using assms(2) by (simp add: and_exp_eq_0_iff_not_bit bit_unsigned_iff)
  then have "m OR 2 ^ d = m + 2 ^ d" by (simp add: disjunctive_add_eq_or)
  moreover have "2 ^ d + (2 ^ d :: nat) \<le> 2 ^ 64"
    using power_increasing [of "Suc d" 64 "2 :: nat"] assms(2) by simp
  ultimately show ?thesis using assms by (simp add: unat_add_less)
qed

section \<open>Doubling\<close>

lemma copy_dir:
  assumes "a \<le> L" "length ds = 2 * L" "2 * L < 2 ^ 32" "\<forall>j < L. \<exists>x. read_el ds j = Some x"
  shows "\<exists>ds'. ix_copy_dir (of_nat L) [a..<L] ds = Some ds' \<and> length ds' = 2 * L \<and>
    (\<forall>j < 2 * L. read_el ds' j = read_el ds (if L + a \<le> j then j - L else j))"
  using assms(1,2,4)
proof (induction "L - a" arbitrary: a ds)
  case 0
  then show ?case by simp
next
  case (Suc n)
  then have a: "a < L" "n = L - Suc a" by simp_all
  obtain x where x: "read_el ds a = Some x" using Suc.prems(3) a(1) by blast
  have ind: "unat (of_nat a + of_nat L :: u32) = a + L"
    using assms(3) a(1) by (simp add: unat_add_less unat_of_nat_less)
  let ?ds = "ds[a + L := Some x]"
  have read: "read_el ?ds j = (if j = a + L then Some x else read_el ds j)" if "j < 2 * L" for j
    using that Suc.prems(2) by (simp add: read_el_def nth_list_update)
  have "\<forall>j < L. \<exists>x. read_el ?ds j = Some x" using Suc.prems(3) read by simp
  from Suc.hyps(1) [OF a(2) _ _ this] obtain ds' where ds':
      "ix_copy_dir (of_nat L) [Suc a..<L] ?ds = Some ds'" "length ds' = 2 * L"
      "\<forall>j < 2 * L. read_el ds' j = read_el ?ds (if L + Suc a \<le> j then j - L else j)"
    using a(1) Suc.prems(2) by auto
  have "read_el ds' j = read_el ds (if L + a \<le> j then j - L else j)" if "j < 2 * L" for j
    using ds'(3) that read x a(1) by (cases "j = L + a") (auto simp: add.commute)
  moreover have "ix_copy_dir (of_nat L) [a..<L] ds = Some ds'"
    using ds'(1) x ind Suc.prems(2) a(1) by (simp add: upt_conv_Cons write_el_def)
  ultimately show ?case using ds'(2) by blast
qed

lemma grow_dir:
  fixes t :: "'b ix_table"
  assumes dims: "bin_mask t = 2 ^ D - 1" "unat (dir_capacity t) = 2 ^ D" "length (dir t) = 2 ^ D"
    and D: "unat (max_depth t) = D" and d: "unat d \<le> Suc D" "D \<le> 31" "unat d \<le> 31"
    and all: "\<forall>j < 2 ^ D. \<exists>x. read_el (dir t) j = Some x" and E: "E = max D (unat d)"
  shows "\<exists>ds. ix_grow_dir d t = Some (t\<lparr>max_depth := of_nat E, bin_mask := 2 ^ E - 1, dir := ds, dir_capacity := 2 ^ E\<rparr>) \<and>
    length ds = 2 ^ E \<and> (\<forall>j < 2 ^ E. read_el ds j = read_el (dir t) (j mod 2 ^ D))"
proof (cases "unat d \<le> D")
  case True
  have "dir_capacity t = 2 ^ D" using dims(2) d(2) by (simp add: word_unat_eq_iff)
  moreover have "max_depth t = of_nat D" using D by auto
  ultimately have "t\<lparr>max_depth := of_nat E, bin_mask := 2 ^ E - 1, dir := dir t, dir_capacity := 2 ^ E\<rparr> = t"
    using dims(1) True by (simp add: E)
  moreover have "ix_grow_dir d t = Some t" using D True by (simp add: ix_grow_dir_def word_less_nat_alt)
  ultimately show ?thesis using dims(3) True by (intro exI [of _ "dir t"]) (simp add: E)
next
  case False
  then have Suc: "unat d = Suc D" "E = Suc D" "of_nat E = d" using d E by auto
  have pow: "2 * 2 ^ D < (2 :: nat) ^ 32"
    using power_strict_increasing [of "Suc D" 32 "2 :: nat"] Suc d(3) by simp
  have len: "of_nat (2 ^ D) = dir_capacity t" using dims(2) d(2) by (simp add: word_unat_eq_iff)
  have cap: "2 * dir_capacity t = 2 ^ Suc D" "unat (2 * dir_capacity t) = 2 * 2 ^ D"
    using len [symmetric] dims(2) pow by (simp_all add: unat_mult_less)
  let ?ds = "realloc_els (dir t) (2 * 2 ^ D)"
  have read: "read_el ?ds j = read_el (dir t) j" if "j < 2 ^ D" for j using that by (simp add: read_realloc_els)
  obtain ds where ds: "ix_copy_dir (of_nat (2 ^ D)) [0..<2 ^ D] ?ds = Some ds" "length ds = 2 * 2 ^ D"
      "\<forall>j < 2 * 2 ^ D. read_el ds j = read_el ?ds (if 2 ^ D + 0 \<le> j then j - 2 ^ D else j)"
    using copy_dir [of 0 "2 ^ D" ?ds] pow all read by auto
  have "read_el ds j = read_el (dir t) (j mod 2 ^ D)" if "j < 2 ^ Suc D" for j
    using ds(3) that read by (cases "2 ^ D \<le> j") (simp_all add: mod_if)
  moreover have "max_depth t < d" using D Suc by (simp add: word_less_nat_alt)
  then have "ix_grow_dir d t = Some (t\<lparr>max_depth := d, bin_mask := 2 ^ E - 1, dir := ds, dir_capacity := 2 ^ E\<rparr>)"
    using ds(1) len cap dims(2) d(3) by (simp add: ix_grow_dir_def mask_eq_exp_minus_1 Suc(1,2) Let_def del: power_Suc)
  ultimately show ?thesis using ds(2) Suc by (intro exI [of _ ds]) simp
qed

section \<open>Dividing a bin\<close>

text \<open>Residues modulo a power of two are apart when their lower bits are.\<close>

lemma mod_two_cases:
  assumes "(j :: nat) < 2 ^ Suc d" "m < 2 ^ d"
  shows "j mod 2 ^ d = m \<longleftrightarrow> j = m \<or> j = m + 2 ^ d"
  using assms by (cases "j < 2 ^ d") (auto simp: mod_if)

context ix_bins
begin

text \<open>
  The table \<open>t'\<close> is \<open>t\<close> after its bin \<open>b\<close> at position \<open>i\<close>, of depth \<open>d\<close> and mask \<open>m\<close>, was divided by bit \<open>d\<close> of the
  hash into \<open>b1\<close> at the same position and a new bin \<open>b2\<close>, to which a single directory entry refers.
\<close>

definition split_of :: "('e, 'm) ebin_scheme ix_table \<Rightarrow> nat \<Rightarrow> ('e, 'm) ebin_scheme \<Rightarrow> nat \<Rightarrow> nat \<Rightarrow> nat \<Rightarrow>
    ('e, 'm) ebin_scheme ix_table \<Rightarrow> ('e, 'm) ebin_scheme \<Rightarrow> ('e, 'm) ebin_scheme \<Rightarrow> bool" where
  "split_of t i b k d m t' b1 b2 \<longleftrightarrow>
     (let n = unat (bins_num t); D = unat (max_depth t); E = max D (Suc d) in
      unat (bins_num t') = Suc n \<and> length (bins t') = unat (bins_capacity t') \<and> Suc n \<le> unat (bins_capacity t') \<and>
      els_num t' = els_num t \<and> unat (max_depth t') = E \<and> bin_mask t' = 2 ^ E - 1 \<and> unat (dir_capacity t') = 2 ^ E \<and>
      length (dir t') = 2 ^ E \<and>
      (\<forall>j < 2 ^ E. read_el (dir t') j = (if j = m + 2 ^ d then Some (of_nat n) else read_el (dir t) (j mod 2 ^ D))) \<and>
      (\<forall>j. read_el (bins t') j = (if j = i then Some b1 else if j = n then Some b2 else read_el (bins t) j)) \<and>
      packed k b1 (filter (\<lambda>e. hash e AND 2 ^ d = 0) (contents (view b))) \<and>
      packed k b2 (filter (\<lambda>e. hash e AND 2 ^ d \<noteq> 0) (contents (view b))) \<and>
      head b1 = (Some (of_nat (Suc d)), Some (of_nat m), 0) \<and>
      head b2 = (Some (of_nat (Suc d)), Some (of_nat (m + 2 ^ d)), 0))"

lemma split_ofD:
  assumes "split_of t i b k d m t' b1 b2" and "unat (max_depth t) \<le> Suc d"
  shows "unat (bins_num t') = Suc (unat (bins_num t))" "length (bins t') = unat (bins_capacity t')"
    "Suc (unat (bins_num t)) \<le> unat (bins_capacity t')" "els_num t' = els_num t" "unat (max_depth t') = Suc d"
    "bin_mask t' = 2 ^ Suc d - 1" "unat (dir_capacity t') = 2 ^ Suc d" "length (dir t') = 2 ^ Suc d"
    "j < 2 ^ Suc d \<Longrightarrow> read_el (dir t') j =
       (if j = m + 2 ^ d then Some (of_nat (unat (bins_num t))) else read_el (dir t) (j mod 2 ^ unat (max_depth t)))"
    "read_el (bins t') l = (if l = i then Some b1 else if l = unat (bins_num t) then Some b2 else read_el (bins t) l)"
    "packed k b1 (filter (\<lambda>e. hash e AND 2 ^ d = 0) (contents (view b)))"
    "packed k b2 (filter (\<lambda>e. hash e AND 2 ^ d \<noteq> 0) (contents (view b)))"
    "head b1 = (Some (of_nat (Suc d)), Some (of_nat m), 0)"
    "head b2 = (Some (of_nat (Suc d)), Some (of_nat (m + 2 ^ d)), 0)"
proof -
  have "max (unat (max_depth t)) (Suc d) = Suc d" using assms(2) by simp
  note s = assms(1) [unfolded split_of_def Let_def this]
  from s show "unat (bins_num t') = Suc (unat (bins_num t))" "length (bins t') = unat (bins_capacity t')"
    "Suc (unat (bins_num t)) \<le> unat (bins_capacity t')" "els_num t' = els_num t" "unat (max_depth t') = Suc d"
    "bin_mask t' = 2 ^ Suc d - 1" "unat (dir_capacity t') = 2 ^ Suc d" "length (dir t') = 2 ^ Suc d"
    "j < 2 ^ Suc d \<Longrightarrow> read_el (dir t') j =
       (if j = m + 2 ^ d then Some (of_nat (unat (bins_num t))) else read_el (dir t) (j mod 2 ^ unat (max_depth t)))"
    "read_el (bins t') l = (if l = i then Some b1 else if l = unat (bins_num t) then Some b2 else read_el (bins t) l)"
    "packed k b1 (filter (\<lambda>e. hash e AND 2 ^ d = 0) (contents (view b)))"
    "packed k b2 (filter (\<lambda>e. hash e AND 2 ^ d \<noteq> 0) (contents (view b)))"
    "head b1 = (Some (of_nat (Suc d)), Some (of_nat m), 0)"
    "head b2 = (Some (of_nat (Suc d)), Some (of_nat (m + 2 ^ d)), 0)"
    by (elim conjE; blast)+
qed

lemma split_dir:
  assumes inv: "tab_inv t" and s: "split_of t i b k d m t' b1 b2" and D: "unat (max_depth t) \<le> Suc d"
    and b: "i < unat (bins_num t)" "m < 2 ^ d" "d \<le> unat (max_depth t)"
      "\<forall>j < 2 ^ unat (max_depth t). read_el (dir t) j = Some (of_nat i) \<longleftrightarrow> j mod 2 ^ d = m"
    and j: "j < 2 ^ Suc d"
  shows "l < unat (bins_num t) \<Longrightarrow> l \<noteq> i \<Longrightarrow>
      read_el (dir t') j = Some (of_nat l) \<longleftrightarrow> read_el (dir t) (j mod 2 ^ unat (max_depth t)) = Some (of_nat l)"
    and "read_el (dir t') j = Some (of_nat i) \<longleftrightarrow> j = m"
    and "read_el (dir t') j = Some (of_nat (unat (bins_num t))) \<longleftrightarrow> j = m + 2 ^ d"
proof -
  let ?n = "unat (bins_num t)" and ?D = "unat (max_depth t)"
  note r = split_ofD(9) [OF s D j]
  have ne: "(of_nat l :: u32) \<noteq> of_nat l'" if "l < ?n" "l' \<le> ?n" "l \<noteq> l'" for l l'
    using that unat_bin_ind [of l "bins_num t"] unat_bin_ind [of l' "bins_num t"]
    by (cases "l' = ?n") (auto simp: word_unat_eq_iff)
  have mod: "read_el (dir t) (j mod 2 ^ ?D) = Some (of_nat i) \<longleftrightarrow> j = m \<or> j = m + 2 ^ d"
    using b(4) mod_low [OF b(3), of j] mod_two_cases [OF j b(2)] by simp
  show "read_el (dir t') j = Some (of_nat l) \<longleftrightarrow> read_el (dir t) (j mod 2 ^ ?D) = Some (of_nat l)"
    if l: "l < ?n" "l \<noteq> i"
  proof (cases "j = m + 2 ^ d")
    case True
    then have "read_el (dir t) (j mod 2 ^ ?D) = Some (of_nat i)" using mod by blast
    then show ?thesis using r True ne [OF l(1), of ?n] ne [OF l(1), of i] l b(1) by auto
  qed (use r in simp)
  show "read_el (dir t') j = Some (of_nat i) \<longleftrightarrow> j = m"
    using r mod ne [OF b(1), of ?n] b(1) by auto
  have "read_el (dir t) (j mod 2 ^ ?D) \<noteq> Some (of_nat ?n)"
    using ix_invD(7) [OF inv, of "j mod 2 ^ ?D"] ne [of _ ?n] by fastforce
  then show "read_el (dir t') j = Some (of_nat ?n) \<longleftrightarrow> j = m + 2 ^ d" using r by auto
qed

lemma split_good:
  assumes inv: "tab_inv t" and s: "split_of t i b k d m t' b1 b2" and D: "unat (max_depth t) \<le> Suc d" "d < 31"
    and b: "i < unat (bins_num t)" "m < 2 ^ d" "d \<le> unat (max_depth t)"
      "\<forall>j < 2 ^ unat (max_depth t). read_el (dir t) j = Some (of_nat i) \<longleftrightarrow> j mod 2 ^ d = m"
      "\<forall>x \<in> set (contents (view b)). unat (hash x) mod 2 ^ d = m"
    and l: "l < Suc (unat (bins_num t))"
  shows "ix_good hash view bin_ok t' l"
proof -
  let ?n = "unat (bins_num t)" and ?D = "unat (max_depth t)"
  note r = split_ofD [OF s D(1)] and dirs = split_dir [OF inv s D(1) b(1-4)]
  have pow: "(2 :: nat) ^ Suc d < 2 ^ 32" by (rule power_strict_increasing) (use D(2) in simp_all)
  have u: "unat (of_nat (Suc d) :: u16) = Suc d" "unat (of_nat m :: u64) = m" "unat (of_nat (m + 2 ^ d) :: u64) = m + 2 ^ d"
    using D(2) b(2) pow by (simp_all add: unat_of_nat_less del: of_nat_add of_nat_Suc)
  have ok: "bin_ok k b1" "bin_ok k b2" "contents (view b1) = filter (\<lambda>e. hash e AND 2 ^ d = 0) (contents (view b))"
      "contents (view b2) = filter (\<lambda>e. hash e AND 2 ^ d \<noteq> 0) (contents (view b))"
    using r(11,12) by (simp_all add: packed_def)
  consider "l = i" | "l = ?n" | "l < ?n" "l \<noteq> i" using l by linarith
  then show ?thesis
  proof cases
    case 1
    have "unat (hash x) mod 2 ^ Suc d = m" if "x \<in> set (contents (view b1))" for x
      using that b(5) unfolding ok(3) unat_mod_Suc by simp
    then show ?thesis
      unfolding ix_good_def r(5,10) using 1 ok(1) r(13) u(1,2) b(2) dirs(2)
      by (intro exI [of _ b1] exI [of _ k] exI [of _ "of_nat (Suc d)"] exI [of _ "of_nat m"]) (simp del: of_nat_Suc)
  next
    case 2
    have "unat (hash x) mod 2 ^ Suc d = m + 2 ^ d" if "x \<in> set (contents (view b2))" for x
      using that b(5) unfolding ok(4) unat_mod_Suc by simp
    then show ?thesis
      unfolding ix_good_def r(5,10) using 2 b(1) ok(2) r(14) u(1,3) b(2) dirs(3)
      by (intro exI [of _ b2] exI [of _ k] exI [of _ "of_nat (Suc d)"] exI [of _ "of_nat (m + 2 ^ d)"])
        (simp del: of_nat_Suc of_nat_add)
  next
    case 3
    obtain c k' e and q :: u64 where c: "read_el (bins t) l = Some c" "bin_ok k' c" "head c = (Some e, Some q, 0)"
        "unat e \<le> ?D" "unat q < 2 ^ unat e"
        "\<forall>j < 2 ^ ?D. read_el (dir t) j = Some (of_nat l) \<longleftrightarrow> j mod 2 ^ unat e = unat q"
        "\<forall>x \<in> set (contents (view c)). unat (hash x) mod 2 ^ unat e = unat q"
      using good_bin [OF inv 3(1)] by blast
    have "read_el (dir t') j = Some (of_nat l) \<longleftrightarrow> j mod 2 ^ unat e = unat q" if "j < 2 ^ Suc d" for j
      using dirs(1) [OF that 3] c(6) mod_low [OF c(4), of j] by simp
    then show ?thesis
      unfolding ix_good_def r(5,10) using 3 c le_trans [OF c(4) D(1)]
      by (intro exI [of _ c] exI [of _ k'] exI [of _ e] exI [of _ q]) simp
  qed
qed

lemma split_bag:
  assumes s: "split_of t i b k d m t' b1 b2" and D: "unat (max_depth t) \<le> Suc d"
    and b: "i < unat (bins_num t)" "read_el (bins t) i = Some b"
  shows "mset (tab_abs t') = mset (tab_abs t)"
proof -
  let ?n = "unat (bins_num t)"
  note r = split_ofD [OF s D]
  have con: "ix_contents view t' l = (if l = i then contents (view b1) else if l = ?n then contents (view b2) else ix_contents view t l)" for l
    by (simp add: ix_contents_def r(10))
  have "tab_abs t' = concat (map (ix_contents view t') [0..<?n]) @ contents (view b2)"
    using b(1) by (simp add: ix_abs_def r(1) con)
  moreover have "mset (contents (view b1)) + mset (contents (view b2)) = mset (contents (view b))"
    using r(11,12) by (simp add: packed_def mset_filter multiset_partition [symmetric])
  moreover have "(\<Sum>l \<in> {..<?n} - {i}. mset (ix_contents view t' l)) = (\<Sum>l \<in> {..<?n} - {i}. mset (ix_contents view t l))"
    by (rule sum.cong) (auto simp: con)
  ultimately show ?thesis
    using mset_concat_upt [OF b(1), of "ix_contents view t'"] mset_concat_upt [OF b(1), of "ix_contents view t"] b
    by (simp add: ix_abs_def con ix_contents_def [of view t i] union_ac)
qed

lemma split_inv:
  assumes inv: "tab_inv t" and s: "split_of t i b k (unat d) (unat m) t' b1 b2"
    and D: "unat (max_depth t) \<le> Suc (unat d)" "unat d < 31"
    and b: "i < unat (bins_num t)" "read_el (bins t) i = Some b" "head b = (Some d, Some m, 0)"
  shows "tab_inv t'"
proof -
  let ?n = "unat (bins_num t)"
  note r = split_ofD [OF s D(1)]
  have g: "unat m < 2 ^ unat d" "unat d \<le> unat (max_depth t)"
      "\<forall>j < 2 ^ unat (max_depth t). read_el (dir t) j = Some (of_nat i) \<longleftrightarrow> j mod 2 ^ unat d = unat m"
      "\<forall>x \<in> set (contents (view b)). unat (hash x) mod 2 ^ unat d = unat m"
    using good_bin [OF inv b(1)] b(2,3) by auto
  have "\<exists>l < Suc ?n. read_el (dir t') j = Some (of_nat l)" if "j < 2 ^ Suc (unat d)" for j
    using r(9) [OF that] ix_invD(7) [OF inv, of "j mod 2 ^ unat (max_depth t)"] less_Suc_eq by auto
  moreover have "\<forall>l < Suc ?n. ix_good hash view bin_ok t' l"
    using split_good [OF inv s D b(1) g] by blast
  moreover have "unat (els_num t') = length (tab_abs t')"
    using mset_eq_length [OF split_bag [OF s D(1) b(1,2)]] ix_invD(9) [OF inv] r(4) by simp
  ultimately show ?thesis unfolding ix_inv_def r(1,5) using r(2,3,6-8) D(2) by simp
qed

end

end
