(* ===== verification/Ix_Insert.thy ===== *)
theory Ix_Insert
  imports Ix_Correct
begin

text \<open>
  Insertion into an extendible table over the interface \<open>ix_bins\<close>, with the client's store through the
  returned pointer, and the refinement of the list specification that follows.
\<close>

lemma map_bag:
  assumes "mset ys = mset xs + R" "\<forall>x \<in># R. \<not> Eq x e"
  shows "mset (map (\<lambda>x. if Eq x e then e else x) ys) = mset (map (\<lambda>x. if Eq x e then e else x) xs) + R"
proof -
  have "image_mset (\<lambda>x. if Eq x e then e else x) R = image_mset (\<lambda>x. x) R"
    using assms(2) by (intro image_mset_cong) auto
  then show ?thesis using assms(1) by simp
qed

context ix_bins
begin

text \<open>The table \<open>t'\<close> has room for \<open>e\<close> in its bin \<open>b'\<close>, and the same elements as \<open>t\<close>.\<close>

definition room :: "('e, 'm) ebin_scheme ix_table \<Rightarrow> 'e \<Rightarrow> ('e, 'm) ebin_scheme ix_table \<Rightarrow> nat \<Rightarrow>
    ('e, 'm) ebin_scheme \<Rightarrow> nat \<Rightarrow> bool" where
  "room t e t' i' b' k' \<longleftrightarrow>
     (\<exists>i b k. at_bin t e i b k \<and> ix_make_room ops t (hash e) (of_nat i) = Some (of_nat i', t')) \<and>
     tab_inv t' \<and> at_bin t' e i' b' k' \<and> unat (els_bound b') < 4 * 2 ^ k' \<and> mset (tab_abs t') = mset (tab_abs t)"

lemma roomD:
  assumes "room t e t' i' b' k'"
  shows "tab_inv t'" "at_bin t' e i' b' k'" "unat (els_bound b') < 4 * 2 ^ k'" "mset (tab_abs t') = mset (tab_abs t)"
  using assms by (simp_all add: room_def)

lemma perform_room:
  assumes "tab_inv t" "room t e t' i' b' k'"
  shows "ix_perform ops t e INSERT = do {
    (found, res, num, b) \<leftarrow> bin_do_1 ops (els_num t') b' (hash e) e INSERT;
    Some (found, map_option (Pair i') res, with_bin t' num i' b)
  }"
proof -
  obtain i b k where "at_bin t e i b k" "ix_make_room ops t (hash e) (of_nat i) = Some (of_nat i', t')"
    using assms(2) by (auto simp: room_def)
  then show ?thesis
    using perform_at [OF assms(1) _ _ roomD(1,2) [OF assms(2)], of i b k INSERT] by (simp add: less_eq_action_def)
qed

lemma store_with_bin:
  assumes inv: "tab_inv t" and i: "i < unat (bins_num t)" and "write_el (els b) r e = Some xs"
  shows "ix_store (with_bin t num i b) (Some (i, r)) e = Some (with_bin t num i (b\<lparr>els := xs\<rparr>))"
proof -
  have "i < length (bins t)" using ix_invD(5,6) [OF inv] i by simp
  then show ?thesis using assms(3) read_with_bin [OF inv i, where num = num and b = b and j = i] by (simp add: ix_store_def write_el_def)
qed

lemma insert_present:
  assumes hk: "keys_ok" and inv: "tab_inv t" and room: "room t e t' i b k" and m: "member Eq (tab_abs t) e"
  shows "\<exists>p t2. ix_perform ops t e INSERT = Some (True, Some p, t') \<and> ix_store t' (Some p) e = Some t2 \<and>
    tab_inv t2 \<and> mset (tab_abs t2) = mset (map (\<lambda>x. if Eq x e then e else x) (tab_abs t)) \<and> same_dir t' t2"
proof -
  note r = roomD [OF room] and d = at_binD [OF roomD(2) [OF room]] and v = bin_view [OF at_binD(4) [OF roomD(2) [OF room]]]
  have "member Eq (tab_abs t') e" using m mset_eq_setD [OF r(4)] by (simp add: member_def)
  then obtain y where "y \<in> set (contents (view b))" "Eq y e"
    using member_at_bin [OF hk r(1,2)] unfolding member_def by blast
  from do_1_present [OF hk d(4) this, of "els_num t'"] obtain j x where j:
      "live (view b) j" "elem (view b) j = Some x" "Eq x e"
      "bin_do_1 ops (els_num t') b (hash e) e INSERT = Some (True, Some j, els_num t', b)"
    by (metis action.distinct(5))
  define xs where "xs = (els b)[j := Some e]"
  have xs: "write_el (els b) j e = Some xs"
    using j(2) v by (simp add: xs_def write_el_def read_el_def split: if_splits)
  let ?b = "b\<lparr>els := xs\<rparr>"
  have b: "bin_ok k ?b" "view ?b = view_set j e (view b)" using set_el [OF hk d(4) j(1-3) xs] by simp_all
  have con: "contents (view ?b) = map (\<lambda>x. if Eq x e then e else x) (contents (view b))"
    unfolding b(2) using v by (intro contents_set [OF hash_key_ix [OF hk] _ j(1-3)]) simp
  have "ix_store t' (Some (i, j)) e = Some (with_bin t' (els_num t') i ?b)"
    using store_with_bin [OF r(1) d(1) xs, of "els_num t'"] with_same_bin [OF r(2)] by simp
  moreover have "tab_inv (with_bin t' (els_num t') i ?b)"
  proof (rule inv_with_bin [OF hk r(1,2) b(1)])
    show "x \<in> set (contents (view b)) \<or> Eq x e" if "x \<in> set (contents (view ?b))" for x
      using that hash_key.eq_refl [OF hk] unfolding con by (auto split: if_splits)
  qed (simp_all add: con)
  moreover obtain R where R: "mset (tab_abs t') = mset (contents (view b)) + R"
      "\<forall>num b'. mset (tab_abs (with_bin t' num i b')) = mset (contents (view b')) + R" "\<forall>x \<in># R. \<not> Eq x e"
    using abs_with_bin [OF hk r(1,2)] by blast
  have bag: "mset (tab_abs t) = mset (contents (view b)) + R" using R(1) r(4) by simp
  have "mset (tab_abs (with_bin t' (els_num t') i ?b)) = mset (map (\<lambda>x. if Eq x e then e else x) (tab_abs t))"
    unfolding map_bag [where Eq = Eq and e = e, OF bag R(3)] using R(2) [THEN spec, of "els_num t'", THEN spec, of ?b] con by (simp only:)
  moreover have "ix_perform ops t e INSERT = Some (True, Some (i, j), t')"
    using perform_room [OF inv room] j(4) with_same_bin [OF r(2)] by simp
  ultimately show ?thesis using same_dir_with_bin [of t' t'] same_dir_refl by blast
qed

lemma insert_absent:
  assumes hk: "keys_ok" and inv: "tab_inv t" and room: "room t e t' i b k" and m: "\<not> member Eq (tab_abs t) e"
    and small: "length (tab_abs t) < 2 ^ 31"
  shows "\<exists>p t1 t2. ix_perform ops t e INSERT = Some (False, Some p, t1) \<and> ix_store t1 (Some p) e = Some t2 \<and>
    tab_inv t2 \<and> mset (tab_abs t2) = add_mset e (mset (tab_abs t)) \<and> same_dir t' t2"
proof -
  note r = roomD [OF room] and d = at_binD [OF roomD(2) [OF room]]
  have "\<not> member Eq (tab_abs t') e" using m mset_eq_setD [OF r(4)] by (simp add: member_def)
  then have "\<forall>x \<in> set (contents (view b)). \<not> Eq x e"
    using member_at_bin [OF hk r(1,2)] unfolding member_def by blast
  from do_1_insert [OF hk d(4) this r(3), of "els_num t'"] obtain c where c:
      "bin_do_1 ops (els_num t') b (hash e) e INSERT = Some (False, Some (unat (els_bound b)), els_num t' + 1, c)"
      "head c = head b" "els c = els b"
      "\<forall>zs. write_el (els b) (unat (els_bound b)) e = Some zs \<longrightarrow> bin_ok k (c\<lparr>els := zs\<rparr>) \<and>
        contents (view (c\<lparr>els := zs\<rparr>)) = contents (view b) @ [e]"
    by blast
  define xs where "xs = (els b)[unat (els_bound b) := Some e]"
  have xs: "write_el (els b) (unat (els_bound b)) e = Some xs"
    using bin_size [OF d(4)] r(3) by (simp add: write_el_def xs_def)
  let ?b = "c\<lparr>els := xs\<rparr>" and ?num = "els_num t' + 1"
  have b: "bin_ok k ?b" "contents (view ?b) = contents (view b) @ [e]" "head ?b = head b" using c(2,4) xs by simp_all
  have "ix_store (with_bin t' ?num i c) (Some (i, unat (els_bound b))) e = Some (with_bin t' ?num i ?b)"
    using store_with_bin [OF r(1) d(1), where b = c and r = "unat (els_bound b)" and num = ?num] xs c(3) by simp
  moreover have "unat (els_num t') < 2 ^ 31" using ix_invD(9) [OF r(1)] mset_eq_length [OF r(4)] small by simp
  then have num: "unat ?num = Suc (unat (els_num t'))" by (simp add: unat_add_less)
  have "tab_inv (with_bin t' ?num i ?b)"
  proof (rule inv_with_bin [OF hk r(1,2) b(1,3)])
    show "x \<in> set (contents (view b)) \<or> Eq x e" if "x \<in> set (contents (view ?b))" for x
      using that hash_key.eq_refl [OF hk] unfolding b(2) by auto
  qed (simp add: b(2) num)
  moreover obtain R where R: "mset (tab_abs t') = mset (contents (view b)) + R"
      "\<forall>num b'. mset (tab_abs (with_bin t' num i b')) = mset (contents (view b')) + R"
    using abs_with_bin [OF hk r(1,2)] by blast
  have "mset (tab_abs (with_bin t' ?num i ?b)) = add_mset e (mset (tab_abs t))"
    using R r(4) b(2) by simp
  moreover have "ix_perform ops t e INSERT = Some (False, Some (i, unat (els_bound b)), with_bin t' ?num i c)"
    using perform_room [OF inv room] c(1) by simp
  ultimately show ?thesis using same_dir_with_bin [of t' t'] same_dir_refl by blast
qed

lemma same_dir_trans: "same_dir t1 t2 \<Longrightarrow> same_dir t2 t3 \<Longrightarrow> same_dir t1 t3"
  by (simp add: same_dir_def)

text \<open>An operation of a client, given room for an insertion. Only making room may change the directory.\<close>

lemma step_room:
  assumes hk: "keys_ok" and inv: "tab_inv t" and small: "length (tab_abs t) < 2 ^ 31"
    and room: "\<And>e. c = Insert e \<or> c = Replace e \<Longrightarrow> \<exists>t' i b k. room t e t' i b k \<and> (kept \<longrightarrow> same_dir t t')"
  shows "\<exists>t'. ix_step ops t c = Some (fst (spec_step Eq (tab_abs t) c), t') \<and> tab_inv t' \<and>
    mset (tab_abs t') = mset (snd (spec_step Eq (tab_abs t) c)) \<and> (kept \<longrightarrow> same_dir t t')"
proof -
  have ins: "\<exists>t1 p t2. ix_perform ops t e INSERT = Some (member Eq (tab_abs t) e, Some p, t1) \<and>
      ix_store t1 (Some p) e = Some t2 \<and> tab_inv t2 \<and>
      mset (tab_abs t2) = mset (snd (spec_step Eq (tab_abs t) (Replace e))) \<and> (kept \<longrightarrow> same_dir t t2) \<and>
      (member Eq (tab_abs t) e \<longrightarrow> tab_inv t1 \<and> mset (tab_abs t1) = mset (tab_abs t) \<and> (kept \<longrightarrow> same_dir t t1))"
    if "c = Insert e \<or> c = Replace e" for e
  proof -
    from room [OF that] obtain t' i b k where r: "room t e t' i b k" "kept \<longrightarrow> same_dir t t'" by blast
    show ?thesis
      using insert_present [OF hk inv r(1)] insert_absent [OF hk inv r(1) _ small] roomD(1,4) [OF r(1)] r(2)
        same_dir_trans [of t t']
      by (cases "member Eq (tab_abs t) e") fastforce+
  qed
  show ?thesis
  proof (cases c)
    case (Insert e)
    then show ?thesis
      using ins [of e] inv by (cases "member Eq (tab_abs t) e") (auto simp: ix_step_def client_insert_def)
  next
    case (Replace e)
    then show ?thesis using ins [of e] by (auto simp: ix_step_def client_replace_def)
  next
    case (Remove e)
    then show ?thesis using perform_delete [OF hk inv, of e] by (auto simp: ix_step_def client_remove_def)
  next
    case (Find e)
    then show ?thesis
      using perform_find [OF hk inv, of e] inv find_None_iff [of "\<lambda>x. Eq x e" "tab_abs t"]
      by (cases "member Eq (tab_abs t) e") (auto simp: ix_step_def client_find_def member_def)
  qed
qed

text \<open>With fewer elements than the largest bin has cells no bin splits.\<close>

lemma room_small:
  assumes hk: "keys_ok" and inv: "tab_inv t" and small: "length (tab_abs t) < 2 ^ 14"
  shows "\<exists>t' i b k. room t e t' i b k \<and> same_dir t t'"
proof -
  obtain i b k where at: "at_bin t e i b k" using at_bin_exists [OF inv] by blast
  have "\<not> splits t b k" using small by (auto simp: splits_def)
  from make_room_rebuild [OF hk inv at _ this] small show ?thesis using at unfolding room_def by fastforce
qed

text \<open>The states a table with the directory of \<open>t0\<close> goes through.\<close>

abbreviation dir_inv :: "('e, 'm) ebin_scheme ix_table \<Rightarrow> ('e, 'm) ebin_scheme ix_table \<Rightarrow> bool" where
  "dir_inv t0 t \<equiv> keys_ok \<and> tab_inv t \<and> same_dir t0 t"

lemma step_small:
  assumes "dir_inv t0 t" "length (tab_abs t) < 2 ^ 14"
  shows "\<exists>t'. ix_step ops t c = Some (fst (spec_step Eq (tab_abs t) c), t') \<and> dir_inv t0 t' \<and>
    mset (tab_abs t') = mset (snd (spec_step Eq (tab_abs t) c))"
proof -
  have "\<exists>t'. ix_step ops t c = Some (fst (spec_step Eq (tab_abs t) c), t') \<and> tab_inv t' \<and>
      mset (tab_abs t') = mset (snd (spec_step Eq (tab_abs t) c)) \<and> (True \<longrightarrow> same_dir t t')"
    using step_room [of t c True] room_small [of t] assms by simp
  then show ?thesis using assms(1) same_dir_trans by blast
qed

end

text \<open>A table with few elements is a dictionary without an order of its own.\<close>

sublocale ix_bins \<subseteq> dict: bag_dictionary Eq "ix_step ops" "dir_inv t0" tab_abs "2 ^ 14" for t0
  by unfold_locales (use unique_abs step_small in blast)+

end
