(* ===== verification/Ix_Split.thy ===== *)
theory Ix_Split
  imports Ix_Dir Ix_Insert
begin

text \<open>
  Splitting a bin: one round of the loop divides the elements between the old and the new bin, and if
  both get some the loop ends.
\<close>

lemma del_bits_none:
  assumes "\<And>i. \<not> del_bit ds i"
  shows "ds = replicate (length ds) 0"
proof (rule nth_equalityI)
  fix i assume "i < length ds"
  have "\<not> bit (ds ! i) n" if "n < 8" for n
    using assms [of "8 * i + n"] that \<open>i < length ds\<close> by (simp add: del_bit_def)
  then have "ds ! i = 0" by (intro bit_eqI) (auto dest: bit_imp_le_length)
  then show "ds ! i = replicate (length ds) 0 ! i" using \<open>i < length ds\<close> by simp
qed simp

text \<open>
  Every bin that is full at the largest size in a table with enough elements to split it has at least the
  largest depth but one, and elements that differ in the bit the split looks at.
\<close>

definition ix_splittable :: "('e \<Rightarrow> u64) \<Rightarrow> (('e, 'm) ebin_scheme \<Rightarrow> 'e view) \<Rightarrow> ('e, 'm) ebin_scheme ix_table \<Rightarrow> bool" where
  "ix_splittable hash view t \<longleftrightarrow> 2 ^ 14 \<le> length (ix_abs view t) \<longrightarrow>
     (\<forall>i < unat (bins_num t). \<forall>b d. read_el (bins t) i = Some b \<longrightarrow> depth b = Some d \<longrightarrow> unat (els_bound b) = 2 ^ 14 \<longrightarrow>
       unat (max_depth t) \<le> Suc (unat d) \<and> unat d < 31 \<and>
       (\<exists>e \<in> set (contents (view b)). hash e AND 2 ^ unat d = 0) \<and>
       (\<exists>e \<in> set (contents (view b)). hash e AND 2 ^ unat d \<noteq> 0))"

context ix_bins
begin

lemma packed_no_dels:
  assumes "packed k b xs"
  shows "deleted b = no_dels k"
proof -
  have ok: "bin_ok k b" "contents (view b) = xs" "unat (els_bound b) = length xs" using assms by (simp_all add: packed_def)
  note v = bin_view [OF ok(1)]
  have "length (filter (\<lambda>i. \<not> dead (view b) i) [0..<bound (view b)]) = bound (view b)"
    using arg_cong [OF ok(2), of length] ok(3) v by (simp add: contents_def)
  then have "filter (\<lambda>i. \<not> dead (view b) i) [0..<bound (view b)] = [0..<bound (view b)]"
    by (metis filter_id_conv length_filter_less length_upt minus_nat.diff_0 order_less_irrefl)
  then have "\<not> dead (view b) i" for i
    using view_inv_dead [of hash Eq "view b" i] v by (cases "i < bound (view b)") (auto simp: filter_id_conv)
  then have "deleted b = replicate (length (deleted b)) 0" using v by (intro del_bits_none) simp
  then show ?thesis using bin_size [OF ok(1)] by simp
qed

lemma undelete_ok:
  assumes "read_el (bins t) (unat i) = Some b" "groups_mask b = 2 ^ k - 1" "k \<le> 12" "length (deleted b) = (4 * 2 ^ k + 7) div 8"
  shows "ix_undelete t i = Some (t\<lparr>bins := (bins t)[unat i := Some (b\<lparr>deleted := no_dels k\<rparr>)]\<rparr>)"
proof -
  have "unat i < length (bins t)" using assms(1) by (simp add: read_el_def split: if_splits)
  then show ?thesis
    using assms ix_sizes [of k] by (simp add: ix_undelete_def write_el_def Let_def)
qed

text \<open>The loop over the elements of a bin whose tags are cleared divides them between it and an empty bin.\<close>

abbreviation zeros :: "nat \<Rightarrow> ('e, 'm) ebin_scheme \<Rightarrow> 'e list" where
  "zeros d b \<equiv> filter (\<lambda>e. hash e AND 2 ^ d = 0) (contents (view b))"

abbreviation ones :: "nat \<Rightarrow> ('e, 'm) ebin_scheme \<Rightarrow> 'e list" where
  "ones d b \<equiv> filter (\<lambda>e. hash e AND 2 ^ d \<noteq> 0) (contents (view b))"

lemma divide_ok:
  assumes hk: "keys_ok" and b: "bin_ok k b"
    and c: "els c = els b" "deleted c = deleted b" "bin_ok k (c\<lparr>els_bound := 0, deleted := no_dels k\<rparr>)"
      "contents (view (c\<lparr>els_bound := 0, deleted := no_dels k\<rparr>)) = []"
    and nb: "packed k nb []" and b1: "b1 = c\<lparr>depth := d', els_start := 0, els_bound := 0\<rparr>" and nb1: "nb1 = nb\<lparr>depth := d', hash_mask := m'\<rparr>"
  shows "\<exists>b' nb'. ix_split_els ops (2 ^ d) [0..<unat (els_bound b)] False False num b1 nb1 =
        Some (\<exists>e \<in> set (contents (view b)). hash e AND 2 ^ d = 0, \<exists>e \<in> set (contents (view b)). hash e AND 2 ^ d \<noteq> 0, b', nb') \<and>
      packed k (b'\<lparr>deleted := no_dels k\<rparr>) (zeros d b) \<and> packed k nb' (ones d b) \<and>
      deleted b' = deleted b \<and> head b' = head b1 \<and> head nb' = head nb1"
proof -
  let ?f = "\<lambda>i. the (read_el (els b) i)"
  have eq: "b1\<lparr>deleted := no_dels k\<rparr> =
      c\<lparr>els_bound := 0, deleted := no_dels k, depth := d', hash_mask := hash_mask c, els_start := 0\<rparr>"
    by (simp add: b1)
  have start: "packed k (b1\<lparr>deleted := no_dels k\<rparr>) []"
    unfolding eq packed_head using c(3,4) by (simp add: packed_def)
  have "packed k (nb\<lparr>depth := d', hash_mask := m', els_start := els_start nb\<rparr>) []" unfolding packed_head by (rule nb)
  then have nstart: "packed k nb1 []" by (simp add: nb1)
  have con: "moved (deleted b) ?f [0..<unat (els_bound b)] = contents (view b)" by (rule moved_contents [OF b])
  have len: "length (contents (view b)) \<le> 4 * 2 ^ k"
    using length_contents_bound [OF b] bin_size [OF b] le_trans by blast
  have "ahead (deleted b) ?f [0..<unat (els_bound b)] (els b1) (length [])"
    using ahead_contents [OF b refl] c(1) by (simp add: b1)
  from split_packed [OF hk start nstart _ this, of "2 ^ d" False False num] show ?thesis
    unfolding con using c(2) distinct_contents [OF b] len by (auto simp: b1)
qed

lemma split_round_ok:
  assumes hk: "keys_ok" and b: "bin_ok k b" "head b = (Some d, Some m, 0)" "unat m < 2 ^ unat d" "unat d < 31" "unat d \<le> D"
    and nb: "packed k nb []" "els_start nb = 0"
    and bins: "read_el (bins t) (unat i) = Some b" "read_el (bins t) (unat n) = Some nb" "unat i \<noteq> unat n"
    and dims: "bin_mask t = 2 ^ D - 1" "unat (dir_capacity t) = 2 ^ D" "length (dir t) = 2 ^ D" "unat (max_depth t) = D" "D \<le> 31"
    and all: "\<forall>j < 2 ^ D. \<exists>x. read_el (dir t) j = Some x" and E: "E = max D (Suc (unat d))"
  shows "\<exists>ds b' nb'. ix_split_round ops t i n = Some (\<exists>e \<in> set (contents (view b)). hash e AND 2 ^ unat d = 0,
        \<exists>e \<in> set (contents (view b)). hash e AND 2 ^ unat d \<noteq> 0,
        t\<lparr>max_depth := of_nat E, bin_mask := 2 ^ E - 1, dir_capacity := 2 ^ E, dir := ds,
          bins := (bins t)[unat i := Some b', unat n := Some nb']\<rparr>) \<and>
      length ds = 2 ^ E \<and>
      (\<forall>j < 2 ^ E. read_el ds j = (if j = unat m + 2 ^ unat d then Some n else read_el (dir t) (j mod 2 ^ D))) \<and>
      packed k (b'\<lparr>deleted := no_dels k\<rparr>) (filter (\<lambda>e. hash e AND 2 ^ unat d = 0) (contents (view b))) \<and>
      packed k nb' (filter (\<lambda>e. hash e AND 2 ^ unat d \<noteq> 0) (contents (view b))) \<and> length (deleted b') = length (deleted b) \<and>
      head b' = (Some (d + 1), Some m, 0) \<and> head nb' = (Some (d + 1), Some (m OR 2 ^ unat d), 0)"
proof -
  have d1: "unat (d + 1) = Suc (unat d)" using b(4) by (simp add: unat_add_less)
  obtain c where c: "bin_clear ops b = Some c" "head c = head b" "els_bound c = els_bound b" "els c = els b"
      "deleted c = deleted b" "bin_ok k (c\<lparr>els_bound := 0, deleted := no_dels k\<rparr>)"
      "contents (view (c\<lparr>els_bound := 0, deleted := no_dels k\<rparr>)) = []"
    using clear_ok [OF b(1)] by blast
  have ch: "depth c = Some d" "hash_mask c = Some m" "els_start c = 0" using c(2) b(2) by (simp_all add: head_def)
  obtain ds where ds: "ix_grow_dir (d + 1) t =
        Some (t\<lparr>max_depth := of_nat E, bin_mask := 2 ^ E - 1, dir := ds, dir_capacity := 2 ^ E\<rparr>)"
      "length ds = 2 ^ E" "\<forall>j < 2 ^ E. read_el ds j = read_el (dir t) (j mod 2 ^ D)"
    using grow_dir [OF dims(1-4) _ dims(5) _ all, of "d + 1" E] d1 b(4,5) E by auto
  have "2 ^ Suc (unat d) \<le> (2 :: nat) ^ E" unfolding E by (rule power_increasing) simp_all
  then have less: "unat m + 2 ^ unat d < 2 ^ E" using b(3) by simp
  have m: "unat (m OR 2 ^ unat d) = unat m + 2 ^ unat d" using unat_or_pow2 [OF b(3)] b(4) by simp
  let ?ds = "ds[unat m + 2 ^ unat d := Some n]"
  let ?b = "c\<lparr>depth := Some (d + 1), els_start := 0, els_bound := 0\<rparr>"
  let ?nb = "nb\<lparr>depth := Some (d + 1), hash_mask := Some (m OR 2 ^ unat d)\<rparr>"
  obtain b' nb' where b':
      "ix_split_els ops (2 ^ unat d) [0..<unat (els_bound b)] False False (els_num t) ?b ?nb =
        Some (\<exists>e \<in> set (contents (view b)). hash e AND 2 ^ unat d = 0, \<exists>e \<in> set (contents (view b)). hash e AND 2 ^ unat d \<noteq> 0, b', nb')"
      "packed k (b'\<lparr>deleted := no_dels k\<rparr>) (zeros (unat d) b)" "packed k nb' (ones (unat d) b)"
      "deleted b' = deleted b" "head b' = head ?b" "head nb' = head ?nb"
    using divide_ok [OF hk b(1) c(4-7) nb(1) refl refl] by blast
  have lens: "unat i < length (bins t)" "unat n < length (bins t)"
    using bins by (simp_all add: read_el_def split: if_splits)
  have "ix_split_round ops t i n = Some (\<exists>e \<in> set (contents (view b)). hash e AND 2 ^ unat d = 0,
      \<exists>e \<in> set (contents (view b)). hash e AND 2 ^ unat d \<noteq> 0,
      t\<lparr>max_depth := of_nat E, bin_mask := 2 ^ E - 1, dir_capacity := 2 ^ E, dir := ?ds,
        bins := (bins t)[unat i := Some b', unat n := Some nb']\<rparr>)"
    using bins c(1,3) ch ds(1,2) b'(1) lens less m b(4) by (simp add: ix_split_round_def write_el_def push_bit_eq_mult)
  moreover have "read_el ?ds j = (if j = unat m + 2 ^ unat d then Some n else read_el (dir t) (j mod 2 ^ D))" if "j < 2 ^ E" for j
    using ds that by (simp add: read_el_def nth_list_update)
  ultimately show ?thesis
    using ds(2) b'(2-6) ch nb(2)
    by (intro exI [of _ ?ds] exI [of _ b'] exI [of _ nb']) (simp add: head_def)
qed

text \<open>The bin has elements with bit \<open>d\<close> of the hash clear, and elements with the bit set.\<close>

definition divides :: "('e, 'm) ebin_scheme \<Rightarrow> nat \<Rightarrow> bool" where
  "divides b d \<longleftrightarrow> (\<exists>e \<in> set (contents (view b)). hash e AND 2 ^ d = 0) \<and> (\<exists>e \<in> set (contents (view b)). hash e AND 2 ^ d \<noteq> 0)"

lemma bin_cells_full:
  assumes "bin_ok k b"
  shows "bin_cells (4 * 2 ^ k) = 4 * 2 ^ k" "(groups_mask b + 1) * IXHT_GROUP_SIZE div 2 = 4 * 2 ^ k"
proof -
  note z = bin_size [OF assms]
  have k: "k \<le> 13" "k \<le> 12" "1 \<le> k" using z by simp_all
  have "bin_cells (2 ^ (2 + k)) = 4 * 2 ^ max 1 (2 + k - 2)" by (rule bin_cells_pow2) (use k in simp)
  moreover have "max 1 (2 + k - 2) = k" using k(3) by simp
  ultimately show "bin_cells (4 * 2 ^ k) = 4 * 2 ^ k" by (simp add: power_add)
  show "(groups_mask b + 1) * IXHT_GROUP_SIZE div 2 = 4 * 2 ^ k" using z ix_sizes(3,5) [OF k(1)] by simp
qed

lemma undelete_both:
  assumes b: "packed k (b\<lparr>deleted := no_dels k\<rparr>) xs" "length (deleted b) = (4 * 2 ^ k + 7) div 8" and nb: "packed k nb ys"
    and i: "unat i < length bs" "unat n < length bs" "unat i \<noteq> unat n"
  shows "do { t \<leftarrow> ix_undelete (t\<lparr>bins := bs[unat i := Some b, unat n := Some nb]\<rparr>) i; ix_undelete t n } =
    Some (t\<lparr>bins := bs[unat i := Some (b\<lparr>deleted := no_dels k\<rparr>), unat n := Some nb]\<rparr>)"
proof -
  let ?b = "b\<lparr>deleted := no_dels k\<rparr>"
  let ?bs = "bs[unat i := Some ?b, unat n := Some nb]"
  have size: "groups_mask b = 2 ^ k - 1" "groups_mask nb = 2 ^ k - 1" "length (deleted nb) = (4 * 2 ^ k + 7) div 8" "k \<le> 12"
    using b(1) nb bin_size [of k ?b] bin_size [of k nb] by (simp_all add: packed_def)
  have upd: "bs[unat i := Some b, unat n := Some nb, unat i := Some ?b] = ?bs"
    unfolding list_update_swap [OF i(3)] by simp
  have "ix_undelete (t\<lparr>bins := bs[unat i := Some b, unat n := Some nb]\<rparr>) i = Some (t\<lparr>bins := ?bs\<rparr>)"
    using undelete_ok [OF _ size(1,4) b(2), of "t\<lparr>bins := bs[unat i := Some b, unat n := Some nb]\<rparr>" i] i upd
    by (simp add: read_el_def)
  moreover have "nb\<lparr>deleted := no_dels k\<rparr> = nb" using packed_no_dels [OF nb] by simp
  then have "ix_undelete (t\<lparr>bins := ?bs\<rparr>) n = Some (t\<lparr>bins := ?bs\<rparr>)"
    using undelete_ok [OF _ size(2,4,3), of "t\<lparr>bins := ?bs\<rparr>" n] i by (simp add: read_el_def)
  ultimately show ?thesis by simp
qed

text \<open>The table after creating the new bin and one round that gives elements to both.\<close>

lemma split_of_intro:
  assumes t': "t' = t\<lparr>bins_num := bins_num t + 1, bins_capacity := c, max_depth := of_nat E, bin_mask := 2 ^ E - 1,
        dir_capacity := 2 ^ E, dir := ds, bins := bs[i := Some b1, unat (bins_num t) := Some b2]\<rparr>"
    and E: "E = max (unat (max_depth t)) (Suc (unat d))" "E \<le> 31"
    and bs: "unat (bins_num t + 1) = Suc (unat (bins_num t))" "unat c = length bs" "Suc (unat (bins_num t)) \<le> length bs"
      "i < unat (bins_num t)" "\<forall>j. j \<noteq> unat (bins_num t) \<longrightarrow> read_el bs j = read_el (bins t) j"
    and m: "unat m < 2 ^ unat d" "unat d < 31" and ds: "length ds = 2 ^ E"
      "\<forall>j < 2 ^ E. read_el ds j = (if j = unat m + 2 ^ unat d then Some (bins_num t) else read_el (dir t) (j mod 2 ^ unat (max_depth t)))"
    and b: "packed k b1 (zeros (unat d) b)" "packed k b2 (ones (unat d) b)"
      "head b1 = (Some (d + 1), Some m, 0)" "head b2 = (Some (d + 1), Some (m OR 2 ^ unat d), 0)"
  shows "split_of t i b k (unat d) (unat m) t' b1 b2"
proof -
  have u: "unat (of_nat E :: u16) = E" "unat (2 ^ E :: u32) = 2 ^ E" using E(2) by (simp_all add: unat_of_nat_less)
  have w: "of_nat (unat m + 2 ^ unat d) = m OR 2 ^ unat d" "of_nat (Suc (unat d)) = d + 1" "of_nat (unat (bins_num t)) = bins_num t"
      "of_nat (unat m) = m"
    by (subst unat_or_pow2 [OF m(1), symmetric]) (use m(2) in simp_all)
  have "read_el (bins t') j = (if j = i then Some b1 else if j = unat (bins_num t) then Some b2 else read_el bs j)" for j
    using bs(3,4) by (auto simp: t' read_el_def nth_list_update)
  then have "read_el (bins t') j = (if j = i then Some b1 else if j = unat (bins_num t) then Some b2 else read_el (bins t) j)" for j
    using bs(5) by simp
  then show ?thesis unfolding split_of_def Let_def E(1) [symmetric] w using bs(1-3) u ds b by (simp add: t')
qed

lemma split_bin_ok:
  assumes hk: "keys_ok" and inv: "tab_inv t" and i: "i < unat (bins_num t)" "read_el (bins t) i = Some b"
    and b: "bin_ok k b" "head b = (Some d, Some m, 0)" "unat d < 31" "divides b (unat d)"
    and cap: "unat (bins_num t) < 2 ^ 31"
  shows "\<exists>t' b1 b2. ix_split_bin ops t (of_nat i) = Some t' \<and> split_of t i b k (unat d) (unat m) t' b1 b2"
proof -
  let ?n = "unat (bins_num t)" and ?D = "unat (max_depth t)"
  note dims = ix_invD [OF inv] and z = bin_size [OF b(1)] and sz = bin_cells_full [OF b(1)]
  define E where "E = max ?D (Suc (unat d))"
  have g: "unat m < 2 ^ unat d" "unat d \<le> ?D" using good_bin [OF inv i(1)] i(2) b(2) by auto
  have k: "1 \<le> k" "k \<le> 12" using z by simp_all
  have ind: "unat (of_nat i :: u32) = i" by (rule unat_bin_ind [OF i(1)])
  obtain nb bs c where t1: "ix_create_bin ops t (4 * 2 ^ k) =
        Some (bins_num t, t\<lparr>bins_num := bins_num t + 1, bins := bs, bins_capacity := c\<rparr>)"
      "bin_ok k nb" "els_start nb = 0" "unat (bins_num t + 1) = Suc ?n" "unat c = length bs" "Suc ?n \<le> length bs"
      "\<forall>j. read_el bs j = (if j = ?n then Some nb else read_el (bins t) j)" "els_bound nb = 0" "contents (view nb) = []"
    using create_bin_ok [OF k sz(1), of t] dims(5,6) cap by auto
  have nb: "packed k nb []" using t1(2,8,9) by (simp add: packed_def)
  let ?t1 = "t\<lparr>bins_num := bins_num t + 1, bins := bs, bins_capacity := c\<rparr>"
  have bins: "read_el (bins ?t1) (unat (of_nat i :: u32)) = Some b" "read_el (bins ?t1) ?n = Some nb" "unat (of_nat i :: u32) \<noteq> ?n"
    using i ind t1(7) by simp_all
  have dims1: "bin_mask ?t1 = 2 ^ ?D - 1" "unat (dir_capacity ?t1) = 2 ^ ?D" "length (dir ?t1) = 2 ^ ?D" "unat (max_depth ?t1) = ?D"
      "\<forall>j < 2 ^ ?D. \<exists>x. read_el (dir ?t1) j = Some x"
    using dims(2-4,7) by fastforce+
  from split_round_ok [OF hk b(1,2) g(1) b(3) g(2) nb t1(3) bins dims1(1-4) dims(1) dims1(5) E_def]
  obtain ds b' nb' where r: "ix_split_round ops ?t1 (of_nat i) (bins_num t) = Some (True, True,
        ?t1\<lparr>max_depth := of_nat E, bin_mask := 2 ^ E - 1, dir_capacity := 2 ^ E, dir := ds, bins := bs[i := Some b', ?n := Some nb']\<rparr>)"
      "length ds = 2 ^ E"
      "\<forall>j < 2 ^ E. read_el ds j = (if j = unat m + 2 ^ unat d then Some (bins_num t) else read_el (dir t) (j mod 2 ^ ?D))"
      "packed k (b'\<lparr>deleted := no_dels k\<rparr>) (zeros (unat d) b)" "packed k nb' (ones (unat d) b)" "length (deleted b') = length (deleted b)"
      "head b' = (Some (d + 1), Some m, 0)" "head nb' = (Some (d + 1), Some (m OR 2 ^ unat d), 0)"
    using b(4) ind unfolding divides_def by auto
  let ?t2 = "?t1\<lparr>max_depth := of_nat E, bin_mask := 2 ^ E - 1, dir_capacity := 2 ^ E, dir := ds\<rparr>"
  let ?t' = "?t2\<lparr>bins := bs[i := Some (b'\<lparr>deleted := no_dels k\<rparr>), ?n := Some nb']\<rparr>"
  have "ix_split_loop ops ?t1 (of_nat i) (bins_num t) = Some (of_nat i, bins_num t, ?t2\<lparr>bins := bs[i := Some b', ?n := Some nb']\<rparr>)"
    using r(1) by (subst ix_split_loop.simps) simp
  then have "ix_split_bin ops t (of_nat i) = Some ?t'"
    using undelete_both [OF r(4) _ r(5), where t = ?t2 and i = "of_nat i" and n = "bins_num t" and bs = bs] r(6) z ind i t1(1,6) sz(2)
    by (simp add: ix_split_bin_def Let_def)
  moreover have "split_of t i b k (unat d) (unat m) ?t' (b'\<lparr>deleted := no_dels k\<rparr>) nb'"
    by (rule split_of_intro [OF _ E_def _ t1(4-6) i(1) _ g(1) b(3) r(2,3,4,5) _ r(8)])
      (use dims(1) b(3) r(7) t1(7) in \<open>simp_all add: E_def\<close>)
  ultimately show ?thesis by blast
qed

text \<open>
  A bin whose depth is the largest or one less may be split: then the invariant and the elements are
  kept, and both halves have room.
\<close>

lemma split_keeps:
  assumes hk: "keys_ok" and inv: "tab_inv t" and n: "unat (bins_num t) < 2 ^ 31"
    and i: "i < unat (bins_num t)" "read_el (bins t) i = Some b" "depth b = Some d" "unat d < 31"
    and D: "unat (max_depth t) \<le> Suc (unat d)"
    and b: "\<exists>e \<in> set (contents (view b)). hash e AND 2 ^ unat d = 0" "\<exists>e \<in> set (contents (view b)). hash e AND 2 ^ unat d \<noteq> 0"
  shows "\<exists>t'. ix_split_bin ops t (of_nat i) = Some t' \<and> tab_inv t' \<and> mset (tab_abs t') = mset (tab_abs t) \<and>
    unat (bins_num t') = Suc (unat (bins_num t))"
proof -
  obtain k m where k: "bin_ok k b" "head b = (Some d, Some m, 0)" using good_bin [OF inv i(1)] i(2,3) by (auto simp: head_def)
  have "divides b (unat d)" using b unfolding divides_def by blast
  from split_bin_ok [OF hk inv i(1,2) k i(4) this n] obtain t' b1 b2 where
    "ix_split_bin ops t (of_nat i) = Some t'" "split_of t i b k (unat d) (unat m) t' b1 b2" by blast
  then show ?thesis using split_inv [OF inv _ D i(4,1,2) k(2)] split_bag [OF _ D i(1,2)] split_ofD(1) [OF _ D] by blast
qed

lemma split_at:
  assumes inv: "tab_inv t" and at: "at_bin t e i b k" and s: "split_of t i b k (unat d) (unat m) t' b1 b2"
    and D: "unat (max_depth t) \<le> Suc (unat d)" and b: "head b = (Some d, Some m, 0)" and at': "at_bin t' e j c k'"
  shows "c = b1 \<or> c = b2"
proof -
  note a = at_binD [OF at] and a' = at_binD [OF at'] and r = split_ofD [OF s D]
  have g: "unat m < 2 ^ unat d" "unat d \<le> unat (max_depth t)"
      "\<forall>j < 2 ^ unat (max_depth t). read_el (dir t) j = Some (of_nat i) \<longleftrightarrow> j mod 2 ^ unat d = unat m"
    using good_bin [OF inv a(1)] a(3) b by auto
  have "entry t e mod 2 ^ unat d = unat m" using g(3) entry_less a(2) by blast
  then have "entry t' e mod 2 ^ unat d = unat m" unfolding r(5) using mod_low [OF g(2)] mod_low [of "unat d" "Suc (unat d)"] by simp
  moreover have less: "entry t' e < 2 ^ Suc (unat d)" using entry_less [of e t'] unfolding r(5) .
  ultimately have "entry t' e = unat m \<or> entry t' e = unat m + 2 ^ unat d" using mod_two_cases [OF _ g(1)] by blast
  then have "read_el (dir t') (entry t' e) = Some (of_nat i) \<or> read_el (dir t') (entry t' e) = Some (of_nat (unat (bins_num t)))"
    using split_dir(2,3) [OF inv s D a(1) g(1,2,3) less] by blast
  then have "(of_nat j :: u32) = of_nat i \<or> (of_nat j :: u32) = of_nat (unat (bins_num t))"
    unfolding a'(2) option.inject .
  then have "unat (of_nat j :: u32) = unat (of_nat i :: u32) \<or> unat (of_nat j :: u32) = unat (bins_num t)"
    by (elim disjE) simp_all
  then have "j = i \<or> j = unat (bins_num t)" unfolding a'(5) a(5) .
  then show ?thesis using a'(3) r(10) [of j] by (cases "j = i") simp_all
qed

lemma split_less:
  assumes s: "split_of t i b k d m t' b1 b2" and D: "unat (max_depth t) \<le> Suc d" and b: "bin_ok k b" "divides b d"
    and c: "bin_ok k' c" "c = b1 \<or> c = b2"
  shows "unat (els_bound c) < 4 * 2 ^ k'"
proof -
  note p = split_ofD(11,12) [OF s D]
  have "bin_ok k c" using c(2) p by (auto simp: packed_def)
  then have "length (els c) = 4 * 2 ^ k" "length (els c) = 4 * 2 ^ k'" using bin_size c(1) by blast+
  moreover have "length (contents (view b)) \<le> 4 * 2 ^ k"
    using length_contents_bound [OF b(1)] bin_size [OF b(1)] le_trans by blast
  moreover have "unat (els_bound c) < length (contents (view b))"
    using c(2) p b(2) by (auto simp: packed_def divides_def intro!: length_filter_less)
  ultimately show ?thesis by simp
qed

lemma split_room:
  assumes hk: "keys_ok" and inv: "tab_inv t" and at: "at_bin t e i b k" and s: "splits t b k"
    and small: "length (tab_abs t) < 2 ^ 31" "unat (bins_num t) < 2 ^ 31"
    and b: "head b = (Some d, Some m, 0)" "unat d < 31" "divides b (unat d)" "unat (max_depth t) \<le> Suc (unat d)"
  shows "\<exists>t' i' b' k'. room t e t' i' b' k'"
proof -
  note d = at_binD [OF at]
  obtain t' b1 b2 where t': "ix_split_bin ops t (of_nat i) = Some t'" "split_of t i b k (unat d) (unat m) t' b1 b2"
    using split_bin_ok [OF hk inv d(1,3,4) b(1-3) small(2)] by blast
  have inv': "tab_inv t'" by (rule split_inv [OF inv t'(2) b(4,2) d(1,3) b(1)])
  obtain i' c k' where at': "at_bin t' e i' c k'" using at_bin_exists [OF inv'] by blast
  note d' = at_binD [OF at']
  have "ix_make_room ops t (hash e) (of_nat i) = Some (of_nat i', t')"
    using make_room_eq [OF inv at small(1) refl] s t'(1) d'(2) entry_eq [OF inv', of e] by (auto simp: splits_def)
  moreover have "c = b1 \<or> c = b2" by (rule split_at [OF inv at t'(2) b(4,1) at'])
  then have "unat (els_bound c) < 4 * 2 ^ k'" using split_less [OF t'(2) b(4) d(4) b(3) d'(4)] by blast
  ultimately show ?thesis
    unfolding room_def using at inv' at' split_bag [OF t'(2) b(4) d(1,3)] by blast
qed

text \<open>A client's operation on a table each of whose full bins may be split.\<close>

lemma step_splittable:
  assumes hk: "keys_ok" and inv: "tab_inv t" and small: "length (tab_abs t) < 2 ^ 31" "unat (bins_num t) < 2 ^ 31"
    and ok: "ix_splittable hash view t"
  shows "\<exists>t'. ix_step ops t c = Some (fst (spec_step Eq (tab_abs t) c), t') \<and> tab_inv t' \<and>
    mset (tab_abs t') = mset (snd (spec_step Eq (tab_abs t) c))"
proof -
  have "\<exists>t' i b k. room t e t' i b k" for e
  proof -
    obtain i b k where at: "at_bin t e i b k" using at_bin_exists [OF inv] by blast
    note d = at_binD [OF at]
    show ?thesis
    proof (cases "splits t b k")
      case False
      then show ?thesis using make_room_rebuild [OF hk inv at small(1)] at unfolding room_def by fastforce
    next
      case True
      obtain dp m where m: "head b = (Some dp, Some m, 0)" using good_bin [OF inv d(1)] d(3) by auto
      have "unat (max_depth t) \<le> Suc (unat dp) \<and> unat dp < 31 \<and> divides b (unat dp)"
        using ok d(1,3) m True unfolding ix_splittable_def divides_def splits_def by (auto simp: head_def)
      then show ?thesis using split_room [OF hk inv at True small m] by blast
    qed
  qed
  then show ?thesis using step_room [OF hk inv small(1), of c False] by simp
qed

text \<open>Bin \<open>i\<close> has the depth \<open>d\<close>, the mask \<open>m\<close> and the elements \<open>xs\<close>.\<close>

definition holds :: "('e, 'm) ebin_scheme ix_table \<Rightarrow> nat \<Rightarrow> nat \<Rightarrow> nat \<Rightarrow> 'e list \<Rightarrow> bool" where
  "holds t i d m xs \<longleftrightarrow> i < unat (bins_num t) \<and> m < 2 ^ d \<and> (\<exists>b k. read_el (bins t) i = Some b \<and> bin_ok k b \<and>
     head b = (Some (of_nat d), Some (of_nat m), 0) \<and> contents (view b) = xs)"

lemma holds_lone:
  assumes inv: "tab_inv t" and "max_depth t = 0" "unat (bins_num t) = 1"
  shows "holds t 0 0 0 (tab_abs t)"
proof -
  obtain b k d m where b: "read_el (bins t) 0 = Some b" "bin_ok k b" "head b = (Some d, Some m, 0)" "unat d = 0" "unat m < 2 ^ unat d"
    using good_bin [OF inv, of 0] assms(2,3) by auto
  then have "d = 0" "m = 0" by (simp_all add: word_unat_eq_iff)
  then show ?thesis using b assms(3) by (auto simp: holds_def ix_abs_def ix_contents_def)
qed

lemma split_holds:
  assumes hk: "keys_ok" and inv: "tab_inv t" and i: "holds t i d m xs" and d: "d < 31" and n: "unat (bins_num t) < 2 ^ 31"
    and xs: "filter (\<lambda>e. hash e AND 2 ^ d = 0) xs \<noteq> []" "filter (\<lambda>e. hash e AND 2 ^ d \<noteq> 0) xs \<noteq> []"
  shows "\<exists>t' b k b1 b2. ix_split_bin ops t (of_nat i) = Some t' \<and> split_of t i b k d m t' b1 b2 \<and>
    read_el (bins t) i = Some b \<and> head b = (Some (of_nat d), Some (of_nat m), 0) \<and> contents (view b) = xs"
proof -
  obtain b k where b: "i < unat (bins_num t)" "read_el (bins t) i = Some b" "bin_ok k b" "m < 2 ^ d"
      "head b = (Some (of_nat d), Some (of_nat m), 0)" "contents (view b) = xs"
    using i by (auto simp: holds_def)
  have u: "unat (of_nat d :: u16) = d" using d by (simp add: unat_of_nat_less)
  have "m < 2 ^ 31" using b(4) power_strict_increasing [OF d, of "2 :: nat"] by (metis one_less_numeral_iff order_less_trans semiring_norm(76))
  then have um: "unat (of_nat m :: u64) = m" by (intro unat_of_nat_less) simp
  have "divides b (unat (of_nat d :: u16))" using xs b(6) u by (auto simp: divides_def filter_empty_conv)
  from split_bin_ok [OF hk inv b(1,2,3,5) _ this n] show ?thesis using d u um b by auto
qed

lemma split_frame:
  assumes inv: "tab_inv t" and i: "holds t i d m xs" and s: "split_of t i b k d m t' b1 b2"
    and b: "contents (view b) = xs" and D: "unat (max_depth t) \<le> Suc d"
  shows "holds t' i (Suc d) m (filter (\<lambda>e. hash e AND 2 ^ d = 0) xs)"
    "holds t' (unat (bins_num t)) (Suc d) (m + 2 ^ d) (filter (\<lambda>e. hash e AND 2 ^ d \<noteq> 0) xs)"
    "j \<noteq> i \<Longrightarrow> holds t j d' m' ys \<Longrightarrow> holds t' j d' m' ys"
  using split_ofD [OF s D] i b by (auto simp: holds_def packed_def)

lemma split_next:
  assumes hk: "keys_ok" and inv: "tab_inv t" and i: "holds t i d m xs" and d: "d < 31" and n: "unat (bins_num t) < 2 ^ 31"
    and D: "unat (max_depth t) \<le> Suc d"
    and xs: "\<exists>e \<in> set xs. hash e AND 2 ^ d = 0" "\<exists>e \<in> set xs. hash e AND 2 ^ d \<noteq> 0"
  shows "\<exists>t'. ix_split_bin ops t (of_nat i) = Some t' \<and> tab_inv t' \<and> unat (max_depth t') = Suc d \<and>
    unat (bins_num t') = Suc (unat (bins_num t)) \<and>
    holds t' i (Suc d) m (filter (\<lambda>e. hash e AND 2 ^ d = 0) xs) \<and>
    holds t' (unat (bins_num t)) (Suc d) (m + 2 ^ d) (filter (\<lambda>e. hash e AND 2 ^ d \<noteq> 0) xs) \<and>
    (\<forall>j d' m' ys. j \<noteq> i \<longrightarrow> holds t j d' m' ys \<longrightarrow> holds t' j d' m' ys)"
proof -
  have "filter (\<lambda>e. hash e AND 2 ^ d = 0) xs \<noteq> []" "filter (\<lambda>e. hash e AND 2 ^ d \<noteq> 0) xs \<noteq> []"
    using xs by (auto simp: filter_empty_conv)
  from split_holds [OF hk inv i d n this] obtain t' b k b1 b2 where s: "ix_split_bin ops t (of_nat i) = Some t'"
      "split_of t i b k d m t' b1 b2" "read_el (bins t) i = Some b" "head b = (Some (of_nat d), Some (of_nat m), 0)" "contents (view b) = xs"
    by blast
  have m: "i < unat (bins_num t)" "m < 2 ^ d" using i by (simp_all add: holds_def)
  have u: "unat (of_nat d :: u16) = d" using d by (simp add: unat_of_nat_less)
  have "m < 2 ^ 31" using less_le_trans [OF m(2) power_increasing [of d 31 2]] d by simp
  then have um: "unat (of_nat m :: u64) = m" by (intro unat_of_nat_less) simp
  have "tab_inv t'" using split_inv [OF inv _ _ _ m(1) s(3,4)] s(2) D d u um by simp
  then show ?thesis using s(1) split_frame [OF inv i s(2,5) D] split_ofD(1,5) [OF s(2) D] by blast
qed

section \<open>Where a split fails\<close>

text \<open>
  The rounds of a split go on until both bins have got an element. If the bin has no live element they
  never do, and the call does not return: each round doubles the directory.
\<close>

definition all_dead :: "('e, 'm) ebin_scheme \<Rightarrow> bool" where
  "all_dead b \<longleftrightarrow> (\<forall>i \<in> {unat (els_start b)..<unat (els_bound b)}. del_test (deleted b) i = Some True)"

lemma split_els_dead:
  assumes "\<forall>i \<in> set is. del_test (deleted b) i = Some True"
  shows "ix_split_els ops sm is oa na num b nb = Some (oa, na, b, nb)"
  using assms by (induction "is") simp_all

lemma split_round_dead:
  assumes r: "ix_split_round ops t i n = Some (oa, na, t')"
    and dead: "\<And>b. read_el (bins t) (unat i) = Some b \<Longrightarrow> all_dead b" "\<And>b. read_el (bins t) (unat n) = Some b \<Longrightarrow> all_dead b"
  shows "\<not> oa" "read_el (bins t') (unat i) = Some b \<Longrightarrow> all_dead b" "read_el (bins t') (unat n) = Some b \<Longrightarrow> all_dead b"
proof -
  obtain nb b0 c d where b: "read_el (bins t) (unat n) = Some nb" "read_el (bins t) (unat i) = Some b0"
      "bin_clear ops b0 = Some c" "depth c = Some d"
    using r by (auto simp: ix_split_round_def split: bind_splits)
  have c: "all_dead c" "all_dead nb" using dead b clear_frame [OF b(3)] by (simp_all add: all_dead_def)
  let ?b = "c\<lparr>depth := Some (d + 1), els_start := 0, els_bound := 0\<rparr>"
  have els: "ix_split_els ops sm [unat (els_start c)..<unat (els_bound c)] False False num ?b nb' = Some (False, False, ?b, nb')" for sm num nb'
    by (rule split_els_dead) (use c(1) in \<open>simp add: all_dead_def\<close>)
  have "\<not> oa \<and> (\<exists>bs m sm. write_el (bins t) (unat i) ?b = Some bs \<and>
      write_el bs (unat n) (nb\<lparr>depth := Some (d + 1), hash_mask := Some (m OR sm)\<rparr>) = Some (bins t'))"
    using r b by (fastforce simp: ix_split_round_def els Let_def ix_grow_dir_def split: bind_splits if_splits)
  then obtain bs m sm where w: "\<not> oa" "write_el (bins t) (unat i) ?b = Some bs"
      "write_el bs (unat n) (nb\<lparr>depth := Some (d + 1), hash_mask := Some (m OR sm)\<rparr>) = Some (bins t')"
    by blast
  show "\<not> oa" by (rule w(1))
  have "all_dead ?b" "all_dead (nb\<lparr>depth := Some (d + 1), hash_mask := Some (m OR sm)\<rparr>)"
    using c(2) by (simp_all add: all_dead_def)
  then show "read_el (bins t') (unat i) = Some b \<Longrightarrow> all_dead b" "read_el (bins t') (unat n) = Some b \<Longrightarrow> all_dead b"
    using read_write_el [OF w(3)] read_write_el [OF w(2)] by (auto split: if_splits)
qed

abbreviation dead_at :: "('e, 'm) ebin_scheme ix_table \<Rightarrow> u32 \<Rightarrow> bool" where
  "dead_at t i \<equiv> \<forall>b. read_el (bins t) (unat i) = Some b \<longrightarrow> all_dead b"

lemma split_loop_dead:
  assumes "dead_at t i" "dead_at t n"
  shows "ix_split_loop ops t i n = None"
proof -
  have "ops' = ops \<longrightarrow> dead_at t i \<longrightarrow> dead_at t n \<longrightarrow> False" if ret: "ix_split_loop ops' t i n = Some r" for ops' t i n r
  proof (rule ix_split_loop.raw_induct [where P = "\<lambda>ops' t i n r. ops' = ops \<longrightarrow> dead_at t i \<longrightarrow> dead_at t n \<longrightarrow> False", OF _ ret], intro impI)
    fix loop and ops' :: "('e, 'm) ix_ops" and t i n r
    assume IH: "\<And>ops' t i n r. loop ops' t i n = Some r \<Longrightarrow> ops' = ops \<longrightarrow> dead_at t i \<longrightarrow> dead_at t n \<longrightarrow> False"
      and body: "ix_split_round ops' t i n \<bind> (\<lambda>(old_added, new_added, t).
        if \<not> old_added then loop ops' t n i
        else if new_added then Some (i, n, t) else loop ops' t i n) = Some r"
      and dead: "ops' = ops" "dead_at t i" "dead_at t n"
    obtain oa na t' where r: "ix_split_round ops t i n = Some (oa, na, t')"
      using body dead(1) by (cases "ix_split_round ops t i n") auto
    note d = split_round_dead [OF r dead(2,3) [rule_format]]
    have "loop ops' t' n i = Some r" using body dead(1) r d(1) by simp
    from IH [OF this] show False using d(2,3) dead(1) by blast
  qed
  then show ?thesis using assms by (metis option.exhaust)
qed

lemma split_bin_dead:
  assumes "\<And>b. read_el (bins t) (unat i) = Some b \<Longrightarrow> all_dead b"
  shows "ix_split_bin ops t i = None"
proof -
  have "dead_at t' i \<and> dead_at t' n" if made: "ix_create_bin ops t sz = Some (n, t')" for sz n t'
  proof -
    define cap where "cap = (if bins_capacity t \<noteq> 0 then bins_capacity t * 2 else 4)"
    obtain nb bs where nb: "n = bins_num t" "bin_init ops (if sz < IXHT_GROUP_SIZE then IXHT_GROUP_SIZE else sz) = Some nb"
        "write_el (if bins_num t = bins_capacity t then realloc_els (bins t) (unat cap) else bins t) (unat n) nb = Some bs" "bins t' = bs"
      using made by (auto simp: ix_create_bin_def Let_def cap_def split: bind_splits if_splits)
    have "all_dead nb" using init_empty [OF nb(2)] by (simp add: all_dead_def)
    then show ?thesis
      using assms read_write_el [OF nb(3)] nb(4) by (auto simp: read_realloc_els split: if_splits)
  qed
  then have loop: "ix_split_loop ops t' i n = None" if "ix_create_bin ops t sz = Some (n, t')" for sz n t'
    using split_loop_dead that by blast
  show ?thesis
  proof (cases "read_el (bins t) (unat i)")
    case (Some b)
    then show ?thesis
      using loop by (cases "ix_create_bin ops t ((groups_mask b + 1) * IXHT_GROUP_SIZE div 2)")
        (auto simp: ix_split_bin_def Let_def)
  qed (simp add: ix_split_bin_def)
qed

lemma empty_dead:
  assumes b: "bin_ok k b" "contents (view b) = []" and j: "j < unat (els_bound b)"
  shows "del_test (deleted b) j = Some True"
proof -
  have "del_bit (deleted b) j" using b(2) bin_view [OF b(1)] j by (auto simp: contents_def filter_empty_conv)
  moreover have "j div 8 < length (deleted b)"
    using del_bytes_cover [OF less_le_trans [OF j]] bin_size [OF b(1)] by metis
  ultimately show ?thesis by (simp add: del_test_eq)
qed

text \<open>Then an insertion into an emptied bin of the largest size does not return while the others are well filled.\<close>

lemma insert_dead:
  assumes inv: "tab_inv t" and at: "at_bin t e i b k" and s: "splits t b k" and small: "length (tab_abs t) < 2 ^ 31"
    and empty: "contents (view b) = []"
  shows "ix_perform ops t e INSERT = None"
proof -
  note d = at_binD [OF at]
  have "all_dead b" using empty_dead [OF d(4) empty] by (simp add: all_dead_def)
  then have "ix_split_bin ops t (of_nat i) = None" using d(3,5) by (intro split_bin_dead) simp
  then have "ix_make_room ops t (hash e) (of_nat i) = None"
    using make_room_eq [OF inv at small refl] s by (auto simp: splits_def)
  then show ?thesis using entry_eq [OF inv] d(2) by (simp add: ix_perform_def less_eq_action_def Let_def)
qed

text \<open>
  A split enters the new bin at one place of the directory only. If more entries refer to the old bin,
  elements that moved are no longer found.
\<close>

lemma split_loss:
  assumes hk: "keys_ok" and inv: "tab_inv t" and s: "split_of t i b k (unat d) (unat m) t' b1 b2"
    and b: "i < unat (bins_num t)" "read_el (bins t) i = Some b" "head b = (Some d, Some m, 0)" "Suc (unat d) < unat (max_depth t)"
    and x: "x \<in> set (contents (view b))" "hash x AND 2 ^ unat d \<noteq> 0" "entry t x \<noteq> unat m + 2 ^ unat d"
  shows "ix_perform ops t' x FIND = Some (False, None, t')"
proof -
  let ?D = "unat (max_depth t)"
  have "max ?D (Suc (unat d)) = ?D" using b(4) by simp
  note r = s [unfolded split_of_def Let_def this]
  have depth: "unat (max_depth t') = ?D" "bin_mask t' = 2 ^ ?D - 1" using r by blast+
  have ent: "unat (hash x AND bin_mask t') = entry t x" unfolding depth by (rule unat_and_pow2_mask)
  have "read_el (dir t) (entry t x) = Some (of_nat i)"
    using stored_at [OF inv b(1)] x(1) b(2) by (simp add: ix_contents_def)
  then have dir: "read_el (dir t') (entry t x) = Some (of_nat i)" using r x(3) by auto
  have bin: "read_el (bins t') i = Some b1" "unat (of_nat i :: u32) = i" using r unat_bin_ind [OF b(1)] by auto
  have ok: "bin_ok k b1" "contents (view b1) = filter (\<lambda>e. hash e AND 2 ^ unat d = 0) (contents (view b))"
    using r by (auto simp: packed_def)
  have "\<forall>y \<in> set (contents (view b1)). \<not> Eq y x"
    using x(2) hash_key.hash_cong [OF hash_key_ix [OF hk]] unfolding ok(2) by fastforce
  from do_1_absent [OF hk ok(1) this, of FIND "els_num t'"]
  have do_1: "bin_do_1 ops (els_num t') b1 (hash x) x FIND = Some (False, None, els_num t', b1)" by (simp add: less_action_def)
  have "i < length (bins t')" "bins t' ! i = Some b1" using bin(1) by (auto simp: read_el_def split: if_splits)
  then have "write_el (bins t') i b1 = Some (bins t')" by (simp add: write_el_def) (metis list_update_id)
  then show ?thesis using ent dir bin do_1 by (simp add: ix_perform_def less_eq_action_def Let_def)
qed

lemma split_loses:
  assumes hk: "keys_ok" and inv: "tab_inv t" and n: "unat (bins_num t) < 2 ^ 31"
    and b: "i < unat (bins_num t)" "read_el (bins t) i = Some b" "depth b = Some d" "hash_mask b = Some m"
      "unat d < 31" "Suc (unat d) < unat (max_depth t)" "\<exists>e \<in> set (contents (view b)). hash e AND 2 ^ unat d = 0"
    and x: "x \<in> set (contents (view b))" "hash x AND 2 ^ unat d \<noteq> 0" "entry t x \<noteq> unat m + 2 ^ unat d"
  shows "\<exists>t'. ix_split_bin ops t (of_nat i) = Some t' \<and> x \<in> set (tab_abs t') \<and> ix_perform ops t' x FIND = Some (False, None, t')"
proof -
  obtain k where k: "bin_ok k b" "head b = (Some d, Some m, 0)" using good_bin [OF inv b(1)] b(2-4) by (auto simp: head_def)
  have "divides b (unat d)" using b(7) x(1,2) unfolding divides_def by blast
  from split_bin_ok [OF hk inv b(1,2) k b(5) this n] obtain t' b1 b2 where
    t': "ix_split_bin ops t (of_nat i) = Some t'" "split_of t i b k (unat d) (unat m) t' b1 b2" by blast
  have "unat (bins_num t') = Suc (unat (bins_num t))" "read_el (bins t') (unat (bins_num t)) = Some b2"
      "contents (view b2) = filter (\<lambda>e. hash e AND 2 ^ unat d \<noteq> 0) (contents (view b))"
    using t'(2) b(1) by (auto simp: split_of_def Let_def packed_def)
  then have "x \<in> set (tab_abs t')" using x(1,2) by (simp add: ix_abs_def ix_contents_def)
  then show ?thesis using t'(1) split_loss [OF hk inv t'(2) b(1,2) k(2) b(6) x] by blast
qed

end

end
