(* ===== verification/Ix_Iter.thy ===== *)
theory Ix_Iter
  imports Ix_Correct
begin

text \<open>
  Iteration over an extendible table: the iterator visits the live elements of the bins, bin after
  bin, and ends.
\<close>

context ix_bins
begin

abbreviation bin_at :: "('e, 'm) ebin_scheme ix_table \<Rightarrow> nat \<Rightarrow> ('e, 'm) ebin_scheme" where
  "bin_at t i \<equiv> the (read_el (bins t) i)"

text \<open>The positions an iterator that stands at index \<open>j\<close> of bin \<open>i\<close> has still to visit.\<close>

definition live_from :: "('e, 'm) ebin_scheme ix_table \<Rightarrow> nat \<Rightarrow> nat \<Rightarrow> el_ptr list" where
  "live_from t i j = map (Pair i) (filter (\<lambda>j. \<not> del_bit (deleted (bin_at t i)) j) [j..<unat (els_bound (bin_at t i))])"

definition to_visit :: "('e, 'm) ebin_scheme ix_table \<Rightarrow> nat \<Rightarrow> nat \<Rightarrow> el_ptr list" where
  "to_visit t i j = (if i < unat (bins_num t)
     then live_from t i j @ concat (map (\<lambda>i. live_from t i 0) [Suc i..<unat (bins_num t)]) else [])"

definition element :: "('e, 'm) ebin_scheme ix_table \<Rightarrow> el_ptr \<Rightarrow> 'e" where
  "element t p = the (read_el (els (bin_at t (fst p))) (snd p))"

lemma bin_atD:
  assumes "tab_inv t" "i < unat (bins_num t)"
  shows "\<exists>b k. read_el (bins t) i = Some b \<and> bin_ok k b \<and> els_start b = 0"
  using good_bin [OF assms] by (auto simp: head_def)

lemma del_test_bin:
  assumes "bin_ok k b" "j < unat (els_bound b)"
  shows "del_test (deleted b) j = Some (del_bit (deleted b) j)"
proof -
  have "j div 8 < length (deleted b)"
    using del_bytes_cover [OF less_le_trans [OF assms(2)]] bin_size [OF assms(1)] by metis
  then show ?thesis by (simp add: del_test_eq)
qed

lemma to_visit_step:
  assumes "i < unat (bins_num t)" "j < unat (els_bound (bin_at t i))"
  shows "to_visit t i j = (if del_bit (deleted (bin_at t i)) j then to_visit t i (Suc j) else (i, j) # to_visit t i (Suc j))"
  using assms by (simp add: to_visit_def live_from_def upt_conv_Cons)

lemma to_visit_bin:
  assumes "i < unat (bins_num t)" "unat (els_bound (bin_at t i)) \<le> j"
  shows "to_visit t i j = to_visit t (Suc i) 0"
  using assms by (auto simp: to_visit_def live_from_def upt_conv_Cons)

lemma map_element:
  assumes "tab_inv t"
  shows "map (element t) (to_visit t 0 0) = tab_abs t"
proof -
  have "map (element t) (live_from t i 0) = ix_contents view t i" if "i < unat (bins_num t)" for i
    using bin_atD [OF assms that] moved_contents
    by (auto simp: live_from_def element_def ix_contents_def moved_def comp_def)
  then have "map (\<lambda>i. map (element t) (live_from t i 0)) [0..<unat (bins_num t)] = map (ix_contents view t) [0..<unat (bins_num t)]"
    by (intro map_cong) simp_all
  moreover have "to_visit t 0 0 = concat (map (\<lambda>i. live_from t i 0) [0..<unat (bins_num t)])"
    by (cases "unat (bins_num t)") (simp_all add: to_visit_def upt_conv_Cons del: upt_Suc)
  ultimately show ?thesis by (simp only: ix_abs_def map_concat map_map comp_def)
qed

text \<open>The iterator stands before the positions \<open>ps\<close>.\<close>

definition stands :: "('e, 'm) ebin_scheme ix_table \<Rightarrow> el_ptr list \<Rightarrow> ix_iter \<Rightarrow> bool" where
  "stands t ps it \<longleftrightarrow> (case ps of [] \<Rightarrow> ptr it = None
   | p # qs \<Rightarrow> ptr it = Some p \<and> p = (unat (bin_idx it), unat (el_idx it)) \<and> fst p < unat (bins_num t) \<and>
       snd p < unat (els_bound (bin_at t (fst p))) \<and> \<not> del_bit (deleted (bin_at t (fst p))) (snd p) \<and>
       qs = to_visit t (fst p) (Suc (snd p)))"

lemma advance_stands:
  assumes "tab_inv t"
  shows "\<exists>it'. ix_iter_advance t it = Some it' \<and> stands t (to_visit t (unat (bin_idx it)) (unat (el_idx it))) it'"
  using assms
proof (induction t it rule: ix_iter_advance.induct)
  case (1 t it)
  let ?i = "unat (bin_idx it)" and ?j = "unat (el_idx it)"
  show ?case
  proof (cases "bin_idx it < bins_num t")
    case False
    then show ?thesis
      by (subst ix_iter_advance.simps) (simp add: stands_def to_visit_def word_less_nat_alt)
  next
    case True
    then have i: "?i < unat (bins_num t)" by (simp add: word_less_nat_alt)
    obtain b k where b: "read_el (bins t) ?i = Some b" "bin_ok k b" using bin_atD [OF 1(3) i] by blast
    note visit = to_visit_step [OF i, unfolded b(1) option.sel] to_visit_bin [OF i, unfolded b(1) option.sel]
    show ?thesis
    proof (cases "el_idx it < els_bound b")
      case less: True
      then have j: "?j < unat (els_bound b)" by (simp add: word_less_nat_alt)
      have suc: "unat (el_idx it + 1) = Suc ?j" using unat_succ_less [OF less] by simp
      note d = del_test_bin [OF b(2) j]
      show ?thesis
      proof (cases "del_bit (deleted b) ?j")
        case del: True
        have "ix_iter_advance t it = ix_iter_advance t (it\<lparr>el_idx := el_idx it + 1\<rparr>)"
          by (subst ix_iter_advance.simps) (use True less b(1) d del in simp)
        then show ?thesis
          using 1(1) [OF True b(1) less d _ 1(3)] del suc visit(1) [OF j] by simp
      next
        case False
        then show ?thesis
          using True less b(1) d i j visit(1) [OF j]
          by (subst ix_iter_advance.simps) (simp add: stands_def)
      qed
    next
      case ge: False
      define start where "start = (if bin_idx it + 1 < bins_num t then 0 else el_idx it)"
      have suc: "unat (bin_idx it + 1) = Suc ?i" using unat_succ_less [OF True] by simp
      have start: "(if bin_idx it + 1 < bins_num t
          then map_option els_start (read_el (bins t) (unat (bin_idx it + 1))) else Some (el_idx it)) = Some start"
        using bin_atD [OF 1(3), of "Suc ?i"] suc by (auto simp: start_def word_less_nat_alt)
      have "ix_iter_advance t it = ix_iter_advance t (it\<lparr>bin_idx := bin_idx it + 1, el_idx := start\<rparr>)"
        by (subst ix_iter_advance.simps) (use True ge b(1) start in simp)
      moreover have "to_visit t ?i ?j = to_visit t (Suc ?i) 0"
        using visit(2) ge by (simp add: word_less_nat_alt)
      moreover have "to_visit t (Suc ?i) (unat start) = to_visit t (Suc ?i) 0"
        using suc by (simp add: start_def to_visit_def word_less_nat_alt)
      ultimately show ?thesis using 1(2) [OF True b(1) ge start 1(3)] suc by simp
    qed
  qed
qed

lemma begin_stands:
  assumes "tab_inv t"
  shows "\<exists>it. ix_iter_begin t = Some it \<and> stands t (to_visit t 0 0) it"
proof -
  have start: "(if bins_num t > 0 then map_option els_start (read_el (bins t) 0) else Some 0) = Some 0"
    using bin_atD [OF assms, of 0] by (auto simp: word_less_nat_alt)
  show ?thesis
    unfolding ix_iter_begin_def start
    using advance_stands [OF assms, of "\<lparr>bin_idx = 0, el_idx = 0, ptr = None\<rparr>"] by simp
qed

lemma next_stands:
  assumes inv: "tab_inv t" and "stands t (p # ps) it"
  shows "\<exists>it'. ix_iter_next t it = Some it' \<and> stands t ps it'"
proof -
  note s = assms(2) [unfolded stands_def list.case]
  have "unat (el_idx it + 1) = Suc (snd p)"
    using unat_succ_less [of "el_idx it" "els_bound (bin_at t (fst p))"] s by (auto simp: word_less_nat_alt)
  then show ?thesis
    using advance_stands [OF inv, of "it\<lparr>el_idx := el_idx it + 1\<rparr>"] s by (simp add: ix_iter_next_def)
qed

lemma load_stands:
  assumes inv: "tab_inv t" and "stands t (p # ps) it"
  shows "ix_iter_valid it \<and> ix_load t (ptr it) = Some (element t p)"
proof -
  note s = assms(2) [unfolded stands_def list.case]
  obtain b k where b: "read_el (bins t) (fst p) = Some b" "bin_ok k b"
    using bin_atD [OF inv, of "fst p"] s by blast
  have "live (view b) (snd p)" using s bin_view [OF b(2)] unfolding b(1) live_def by auto
  then obtain e where "read_el (els b) (snd p) = Some e"
    using live_elem [of hash Eq "view b" "snd p"] bin_view [OF b(2)] by metis
  then show ?thesis using b(1) s by (cases p) (simp add: ix_iter_valid_def ix_load_def element_def)
qed

lemma iterate_collects:
  assumes inv: "tab_inv t"
  shows "ix_iterate t = Some (tab_abs t)"
proof -
  obtain it where it: "ix_iter_begin t = Some it" "stands t (to_visit t 0 0) it"
    using begin_stands [OF inv] by blast
  have "client_iterate ix_iter_valid (\<lambda>it. ix_load t (ptr it)) (ix_iter_next t) it = Some (map (element t) (to_visit t 0 0))"
  proof (rule client_iterate_collects [where at = "stands t", OF it(2)])
    show "\<not> ix_iter_valid it" if "stands t [] it" for it using that by (simp add: stands_def ix_iter_valid_def)
  qed (use load_stands [OF inv] next_stands [OF inv] in blast)
  then show ?thesis using it(1) map_element [OF inv] by (simp add: ix_iterate_def)
qed

text \<open>Destruction visits the bins in use only.\<close>

lemma destroy_bins_ok:
  assumes "distinct is" "\<forall>i \<in> set is. \<exists>b. read_el bs i = Some b"
  shows "\<exists>bs'. ix_destroy_bins f is bs = Some bs'"
  using assms
proof (induction "is" arbitrary: bs)
  case (Cons i "is")
  obtain b where b: "read_el bs i = Some b" using Cons.prems by auto
  then have "write_el bs i (f b) = Some (bs[i := Some (f b)])" by (simp add: read_el_def write_el_def split: if_splits)
  moreover have "\<forall>j \<in> set is. \<exists>c. read_el (bs[i := Some (f b)]) j = Some c"
  proof
    fix j assume "j \<in> set is"
    then obtain c where "j \<noteq> i" "read_el bs j = Some c" using Cons.prems by auto
    then show "\<exists>c. read_el (bs[i := Some (f b)]) j = Some c" by (simp add: read_el_def split: if_splits)
  qed
  ultimately show ?case using Cons.IH [of "bs[i := Some (f b)]"] Cons.prems(1) b by auto
qed simp

lemma destroy_ok: "tab_inv t \<Longrightarrow> ix_destroy f t = Some (t\<lparr>bins := [], dir := []\<rparr>)"
  using destroy_bins_ok [of "[0..<unat (bins_num t)]" "bins t" f] bin_atD [of t] by (force simp: ix_destroy_def)

end

end
