(* ===== verification/Ix_Forward.thy ===== *)
theory Ix_Forward
  imports Ix_Iter
begin

text \<open>
  The forward iterator of the C++ classes \<open>ixhtab\<close> of \<open>ixhtab.hpp\<close> and \<open>ixhtab-v0.hpp\<close>, which is the same in
  both files, and that a range-based \<open>for\<close> visits the elements of the table bin after bin.
\<close>

section \<open>The iterator\<close>

text \<open>
  The table an iterator belongs to, by its address, the position \<open>bin_idx\<close> of a bin, here \<open>bin_pos\<close>, and
  the index \<open>el_idx\<close> of an element in it, here \<open>el_pos\<close>. The table at that address is the argument \<open>t\<close> of the
  operations.
\<close>

record ix_iterator =
  tab :: nat
  bin_pos :: u32
  el_pos :: u32

function ix_advance :: "('e, 'm) ebin_scheme ix_table \<Rightarrow> ix_iterator \<Rightarrow> ix_iterator option" where
  "ix_advance t it =
     (if bin_pos it < bins_num t then do {
        b \<leftarrow> read_el (bins t) (unat (bin_pos it));
        if el_pos it < els_bound b then do {
          d \<leftarrow> del_test (deleted b) (unat (el_pos it));
          if \<not> d then Some it else ix_advance t (it\<lparr>el_pos := el_pos it + 1\<rparr>)
        }
        else do {
          start \<leftarrow> (if bin_pos it + 1 < bins_num t
                    then map_option els_start (read_el (bins t) (unat (bin_pos it + 1))) else Some 0);
          ix_advance t (it\<lparr>bin_pos := bin_pos it + 1, el_pos := start\<rparr>)
        }
      }
      else Some it)"
  by pat_completeness auto
termination
proof (relation "measures [\<lambda>(t, it). unat (bins_num t) - unat (bin_pos it),
    \<lambda>(t, it). unat (els_bound (the (read_el (bins t) (unat (bin_pos it))))) - unat (el_pos it)]", goal_cases)
  case (2 t it b d)
  then have "unat (el_pos it + 1) = unat (el_pos it) + 1" by (intro unat_succ_less)
  then show ?case using 2 by (simp add: word_less_nat_alt)
next
  case (3 t it b start)
  then have "unat (bin_pos it + 1) = unat (bin_pos it) + 1" by (intro unat_succ_less)
  then show ?case using 3 by (simp add: word_less_nat_alt)
qed simp

declare ix_advance.simps [simp del]

text \<open>The operators \<open>*\<close> and \<open>->\<close>, \<open>++it\<close>, \<open>it++\<close> (the old and the new iterator), \<open>==\<close> and \<open>!=\<close>.\<close>

definition ix_deref :: "('e, 'm) ebin_scheme ix_table \<Rightarrow> ix_iterator \<Rightarrow> 'e option" where
  "ix_deref t it = do { b \<leftarrow> read_el (bins t) (unat (bin_pos it)); read_el (els b) (unat (el_pos it)) }"

definition ix_incr :: "('e, 'm) ebin_scheme ix_table \<Rightarrow> ix_iterator \<Rightarrow> ix_iterator option" where
  "ix_incr t it = ix_advance t (it\<lparr>el_pos := el_pos it + 1\<rparr>)"

definition ix_post_incr :: "('e, 'm) ebin_scheme ix_table \<Rightarrow> ix_iterator \<Rightarrow> (ix_iterator \<times> ix_iterator) option" where
  "ix_post_incr t it = do { it' \<leftarrow> ix_incr t it; Some (it, it') }"

definition ix_iter_eq :: "ix_iterator \<Rightarrow> ix_iterator \<Rightarrow> bool" where
  "ix_iter_eq it o' \<longleftrightarrow> tab it = tab o' \<and> bin_pos it = bin_pos o' \<and> el_pos it = el_pos o'"

definition ix_iter_neq :: "ix_iterator \<Rightarrow> ix_iterator \<Rightarrow> bool" where
  "ix_iter_neq it o' \<longleftrightarrow> \<not> ix_iter_eq it o'"

definition ix_begin :: "nat \<Rightarrow> ('e, 'm) ebin_scheme ix_table \<Rightarrow> ix_iterator option" where
  "ix_begin this t =
     do {
       start \<leftarrow> (if bins_num t > 0 then map_option els_start (read_el (bins t) 0) else Some 0);
       ix_advance t \<lparr>tab = this, bin_pos = 0, el_pos = start\<rparr>
     }"

definition ix_end :: "nat \<Rightarrow> 'b ix_table \<Rightarrow> ix_iterator" where
  "ix_end this t = \<lparr>tab = this, bin_pos = bins_num t, el_pos = 0\<rparr>"

text \<open>The client's loop \<open>for (auto &e : t)\<close>.\<close>

definition ix_range_for :: "nat \<Rightarrow> ('e, 'm) ebin_scheme ix_table \<Rightarrow> 'e list option" where
  "ix_range_for this t =
     do {
       it \<leftarrow> ix_begin this t;
       client_iterate (\<lambda>it. ix_iter_neq it (ix_end this t)) (ix_deref t) (ix_incr t) it
     }"

section \<open>The range-based loop\<close>

context ix_bins
begin

text \<open>The iterator stands before the positions \<open>ps\<close>.\<close>

definition before :: "nat \<Rightarrow> ('e, 'm) ebin_scheme ix_table \<Rightarrow> el_ptr list \<Rightarrow> ix_iterator \<Rightarrow> bool" where
  "before this t ps it \<longleftrightarrow> tab it = this \<and> (case ps of [] \<Rightarrow> bin_pos it = bins_num t \<and> el_pos it = 0
   | p # qs \<Rightarrow> p = (unat (bin_pos it), unat (el_pos it)) \<and> fst p < unat (bins_num t) \<and>
       snd p < unat (els_bound (bin_at t (fst p))) \<and> \<not> del_bit (deleted (bin_at t (fst p))) (snd p) \<and>
       qs = to_visit t (fst p) (Suc (snd p)))"

lemma advance_before:
  assumes "tab_inv t" "unat (bin_pos it) \<le> unat (bins_num t)" "bin_pos it = bins_num t \<Longrightarrow> el_pos it = 0" "tab it = this"
  shows "\<exists>it'. ix_advance t it = Some it' \<and> before this t (to_visit t (unat (bin_pos it)) (unat (el_pos it))) it'"
  using assms
proof (induction t it rule: ix_advance.induct)
  case (1 t it)
  let ?i = "unat (bin_pos it)" and ?j = "unat (el_pos it)"
  show ?case
  proof (cases "bin_pos it < bins_num t")
    case False
    then have "bin_pos it = bins_num t" using 1(4) by (simp add: word_less_nat_alt word_unat_eq_iff)
    then show ?thesis
      using 1(5,6) by (subst ix_advance.simps) (simp add: before_def to_visit_def)
  next
    case True
    then have i: "?i < unat (bins_num t)" "bin_pos it \<noteq> bins_num t" by (auto simp: word_less_nat_alt)
    obtain b k where b: "read_el (bins t) ?i = Some b" "bin_ok k b" using bin_atD [OF 1(3) i(1)] by blast
    note visit = to_visit_step [OF i(1), unfolded b(1) option.sel] to_visit_bin [OF i(1), unfolded b(1) option.sel]
    show ?thesis
    proof (cases "el_pos it < els_bound b")
      case less: True
      then have j: "?j < unat (els_bound b)" by (simp add: word_less_nat_alt)
      have suc: "unat (el_pos it + 1) = Suc ?j" using unat_succ_less [OF less] by simp
      note d = del_test_bin [OF b(2) j]
      show ?thesis
      proof (cases "del_bit (deleted b) ?j")
        case del: True
        have "ix_advance t it = ix_advance t (it\<lparr>el_pos := el_pos it + 1\<rparr>)"
          by (subst ix_advance.simps) (use True less b(1) d del in simp)
        then show ?thesis
          using 1(1) [OF True b(1) less d _ 1(3)] 1(6) i del suc visit(1) [OF j] by simp
      next
        case False
        then show ?thesis
          using True less b(1) d i(1) j visit(1) [OF j] 1(6)
          by (subst ix_advance.simps) (simp add: before_def)
      qed
    next
      case ge: False
      have suc: "unat (bin_pos it + 1) = Suc ?i" using unat_succ_less [OF True] by simp
      have start: "(if bin_pos it + 1 < bins_num t
          then map_option els_start (read_el (bins t) (unat (bin_pos it + 1))) else Some 0) = Some 0"
        using bin_atD [OF 1(3), of "Suc ?i"] suc by (auto simp: word_less_nat_alt)
      have "ix_advance t it = ix_advance t (it\<lparr>bin_pos := bin_pos it + 1, el_pos := 0\<rparr>)"
        by (subst ix_advance.simps) (use True ge b(1) start in simp)
      moreover have "to_visit t ?i ?j = to_visit t (Suc ?i) 0" using visit(2) ge by (simp add: word_less_nat_alt)
      ultimately show ?thesis using 1(2) [OF True b(1) ge start 1(3)] 1(6) i(1) suc by simp
    qed
  qed
qed

lemma deref_before:
  assumes inv: "tab_inv t" and "before this t (p # ps) it"
  shows "ix_iter_neq it (ix_end this t) \<and> ix_deref t it = Some (element t p) \<and>
    (\<exists>it'. ix_incr t it = Some it' \<and> before this t ps it')"
proof -
  note s = assms(2) [unfolded before_def list.case]
  have p: "fst p = unat (bin_pos it)" "snd p = unat (el_pos it)" using s by simp_all
  obtain b k where b: "read_el (bins t) (fst p) = Some b" "bin_ok k b"
    using bin_atD [OF inv, of "fst p"] s by blast
  have "live (view b) (snd p)" using s bin_view [OF b(2)] unfolding b(1) live_def by auto
  then obtain e where e: "read_el (els b) (snd p) = Some e"
    using live_elem [of hash Eq "view b" "snd p"] bin_view [OF b(2)] by metis
  have suc: "unat (el_pos it + 1) = Suc (snd p)"
    using unat_succ_less [of "el_pos it" "els_bound b"] s b(1) by (auto simp: word_less_nat_alt)
  have ne: "bin_pos it \<noteq> bins_num t" "unat (bin_pos it) \<le> unat (bins_num t)" using s by auto
  have "\<exists>it'. ix_incr t it = Some it' \<and> before this t ps it'"
    using advance_before [OF inv, of "it\<lparr>el_pos := el_pos it + 1\<rparr>" this] s suc ne by (simp add: ix_incr_def)
  then show ?thesis
    using b(1) e ne p by (simp add: ix_iter_neq_def ix_iter_eq_def ix_end_def ix_deref_def element_def)
qed

lemma range_for_collects:
  assumes inv: "tab_inv t"
  shows "ix_range_for this t = Some (tab_abs t)"
proof -
  have start: "(if bins_num t > 0 then map_option els_start (read_el (bins t) 0) else Some 0) = Some 0"
    using bin_atD [OF inv, of 0] by (auto simp: word_less_nat_alt)
  obtain it where it: "ix_begin this t = Some it" "before this t (to_visit t 0 0) it"
    unfolding ix_begin_def start using advance_before [OF inv, of "\<lparr>tab = this, bin_pos = 0, el_pos = 0\<rparr>" this] by auto
  have "client_iterate (\<lambda>it. ix_iter_neq it (ix_end this t)) (ix_deref t) (ix_incr t) it = Some (map (element t) (to_visit t 0 0))"
  proof (rule client_iterate_collects [where at = "before this t", OF it(2)])
    show "\<not> ix_iter_neq it (ix_end this t)" if "before this t [] it" for it
      using that by (simp add: before_def ix_iter_neq_def ix_iter_eq_def ix_end_def)
  qed (rule deref_before [OF inv])
  then show ?thesis using it(1) map_element [OF inv] by (simp add: ix_range_for_def)
qed

end

end
