(* ===== verification/Ixhtab.thy ===== *)
theory Ixhtab
  imports Ix_Table
begin

text \<open>
  The C11 extendible table of \<open>ixhtab.h\<close>, as \<open>DEFINE_IXHT (El, Hash, Eq)\<close> expands it for one element
  type: its group scans and its bins, whose groups hold eight tags followed by eight 16-bit indices,
  and the instance of the directory code of \<open>Ix_Table\<close>.
\<close>

section \<open>Constants and group scans\<close>

definition IXHT_GROUP_BYTES :: u64 where "IXHT_GROUP_BYTES = IXHT_GROUP_SIZE * (1 + 2)"

definition IXHT_EMPTY_H7 :: u8 where "IXHT_EMPTY_H7 = 0xc0"

definition IXHT_DELETED_H7 :: u8 where "IXHT_DELETED_H7 = 0x80"

definition IXHT_MASK_SCALE :: "platform \<Rightarrow> bool" where
  "IXHT_MASK_SCALE P \<longleftrightarrow> P = SWAR"

definition ixht_group_load :: "platform \<Rightarrow> cells \<Rightarrow> nat \<Rightarrow> group_t option" where
  "ixht_group_load P m p = map_option (\<lambda>g.
     case P of
       X86_SSE2 \<Rightarrow> SSE2_group (mm_cvtsi64_si128 g)
     | AARCH64_NEON \<Rightarrow> NEON_group g
     | SWAR \<Rightarrow> SWAR_group g) (load_word m p)"

text \<open>The masks, an \<open>unsigned int\<close> or \<open>uint64_t\<close> in the code, as \<open>do_1\<close> converts them to \<open>uint64_t\<close>.\<close>

fun ixht_match_mask :: "group_t \<Rightarrow> u8 \<Rightarrow> u64" where
  "ixht_match_mask (SSE2_group g) h7_val =
     (let h7_vec = mm_set1_epi8 h7_val
      in ucast (ucast (mm_movemask_epi8 (mm_cmpeq_epi8 g h7_vec)) AND (0xff :: u32)))"
| "ixht_match_mask (NEON_group g) h7_val =
     (let group = vcreate_u8 g;
          match_eq = vceq_u8 group (vdup_n_u8 h7_val)
      in ucast (ucast (vaddv_u8 (vand_u8 match_eq [1, 2, 4, 8, 16, 32, 64, 128])) :: u32))"
| "ixht_match_mask (SWAR_group g) h7_val =
     (let cmp = g XOR (SWAR_LSB * ucast h7_val)
      in (cmp - SWAR_LSB) AND NOT cmp AND SWAR_MSB)"

fun ixht_match_empty :: "group_t \<Rightarrow> u64" where
  "ixht_match_empty (SSE2_group g) =
     ucast (ucast (mm_movemask_epi8 (mm_and_si128 g (mm_slli_epi64 g 1))) AND (0xff :: u32))"
| "ixht_match_empty (NEON_group g) = ixht_match_mask (NEON_group g) IXHT_EMPTY_H7"
| "ixht_match_empty (SWAR_group g) = (g AND SWAR_MSB) AND push_bit 1 g"

section \<open>State\<close>

record 'e ebin_ixht = "'e ebin" +
  groups :: cells

type_synonym 'e ixht = "'e ebin_ixht ix_table"
type_synonym ixht_iter = ix_iter

definition ixht_destroy_bin :: "'e ebin_ixht \<Rightarrow> 'e ebin_ixht" where
  "ixht_destroy_bin b = b\<lparr>els := [], deleted := [], groups := []\<rparr>"

section \<open>One bin\<close>

definition ixht_base :: "nat \<Rightarrow> nat" where
  "ixht_base group_ind = unat (of_nat group_ind * IXHT_GROUP_BYTES)"

text \<open>
  The allocation of the arrays of a new bin, the \<open>memset\<close> of its tags before a split, and the
  reallocation of its groups.
\<close>

definition ixht_init_bin :: "u32 \<Rightarrow> 'e ebin_ixht option" where
  "ixht_init_bin els_size =
     do {
       let del_bytes = (els_size + 7) div 8;
       let indexes_size = 2 * els_size;
       let num_groups = indexes_size div IXHT_GROUP_SIZE;
       gs \<leftarrow> memset_each ixht_base 8 IXHT_EMPTY_H7 [0..<unat num_groups]
         (replicate (unat (ucast num_groups * IXHT_GROUP_BYTES)) None);
       Some \<lparr>depth = None, hash_mask = None, els_start = 0, els_bound = 0, els = replicate (unat els_size) None,
         deleted = replicate (unat del_bytes) 0, groups_mask = num_groups - 1, groups = gs\<rparr>
     }"

definition ixht_clear_groups :: "'e ebin_ixht \<Rightarrow> 'e ebin_ixht option" where
  "ixht_clear_groups b =
     do {
       let num_groups = groups_mask b + 1;
       gs \<leftarrow> memset_each ixht_base 8 IXHT_EMPTY_H7 [0..<unat num_groups] (groups b);
       Some (b\<lparr>groups := gs\<rparr>)
     }"

definition ixht_regroup :: "u32 \<Rightarrow> 'e ebin_ixht \<Rightarrow> 'e ebin_ixht option" where
  "ixht_regroup indexes_size b =
     do {
       let num_groups = indexes_size div IXHT_GROUP_SIZE;
       gs \<leftarrow> memset_each ixht_base 8 IXHT_EMPTY_H7 [0..<unat num_groups]
         (realloc_els (groups b) (unat (ucast num_groups * IXHT_GROUP_BYTES)));
       Some (b\<lparr>groups := gs, groups_mask := num_groups - 1\<rparr>)
     }"

text \<open>
  The inner \<open>while (mmask)\<close> loop over the arrays of groups and elements: the first slot of the mask
  whose element is equal to \<open>*el\<close>, with its element index.
\<close>

function ixht_scan :: "platform \<Rightarrow> ('e \<Rightarrow> 'e \<Rightarrow> bool) \<Rightarrow> cells \<Rightarrow> 'e option list \<Rightarrow> nat \<Rightarrow> 'e \<Rightarrow> u64 \<Rightarrow>
    (nat \<times> u16) option option" where
  "ixht_scan P Eq gs xs group_base el mmask =
     (if mmask = 0 then Some None
      else do {
        let slot_bit = first_slot (IXHT_MASK_SCALE P) mmask;
        el_ind \<leftarrow> load_word gs (group_base + 8 + 2 * slot_bit);
        e \<leftarrow> read_el xs (unat el_ind);
        if Eq e el then Some (Some (slot_bit, el_ind))
        else ixht_scan P Eq gs xs group_base el (mmask AND (mmask - 1))
      })"
  by pat_completeness auto
termination
  by (relation "measure (\<lambda>(P, Eq, gs, xs, group_base, el, mmask). unat mmask)") (auto intro: and_pred_less)

declare ixht_scan.simps [simp del]

text \<open>
  One round of the outer \<open>for (;;)\<close> loop, up to its returns or the next \<open>group_ind\<close>, over the fields
  of the bin it reads: the groups, the elements and the group mask.
\<close>

definition ixht_probe_step :: "platform \<Rightarrow> ('e \<Rightarrow> 'e \<Rightarrow> bool) \<Rightarrow> cells \<times> 'e option list \<times> u32 \<Rightarrow> u8 \<Rightarrow> 'e \<Rightarrow> u32 \<Rightarrow>
    (u32 + outcome) option" where
  "ixht_probe_step P Eq arrays h7_val el group_ind =
     do {
       let (gs, xs, gmask) = arrays;
       let group_base = ixht_base (unat group_ind);
       group \<leftarrow> ixht_group_load P gs group_base;
       found \<leftarrow> ixht_scan P Eq gs xs group_base el (ixht_match_mask group h7_val);
       case found of
         Some (slot_bit, el_ind) \<Rightarrow> Some (Inr (Matched (unat group_ind) slot_bit (unat el_ind)))
       | None \<Rightarrow>
           (let emask = ixht_match_empty group
            in if emask \<noteq> 0
               then Some (Inr (Vacant (unat group_ind) (first_slot (IXHT_MASK_SCALE P) emask)))
               else Some (Inl ((group_ind + 1) AND gmask)))
     }"

partial_function (option) ixht_probe :: "platform \<Rightarrow> ('e \<Rightarrow> 'e \<Rightarrow> bool) \<Rightarrow> cells \<times> 'e option list \<times> u32 \<Rightarrow> u8 \<Rightarrow> 'e \<Rightarrow>
    u32 \<Rightarrow> outcome option" where
  "ixht_probe P Eq arrays h7_val el group_ind =
     (case ixht_probe_step P Eq arrays h7_val el group_ind of
        None \<Rightarrow> None
      | Some (Inl group_ind') \<Rightarrow> ixht_probe P Eq arrays h7_val el group_ind'
      | Some (Inr r) \<Rightarrow> Some r)"

definition ixht_do_1 :: "platform \<Rightarrow> ('e \<Rightarrow> 'e \<Rightarrow> bool) \<Rightarrow> u32 \<Rightarrow> 'e ebin_ixht \<Rightarrow> u64 \<Rightarrow> 'e \<Rightarrow> action \<Rightarrow>
    (bool \<times> nat option \<times> u32 \<times> 'e ebin_ixht) option" where
  "ixht_do_1 P Eq num b hash el action =
     do {
       let h7_val = h7_of hash;
       r \<leftarrow> ixht_probe P Eq (groups b, els b, groups_mask b) h7_val el
         (ucast (hash div IXHT_GROUP_SIZE) AND groups_mask b);
       case r of
         Matched group_ind slot_bit el_ind \<Rightarrow>
           if action \<noteq> IXHT_DELETE then Some (True, Some el_ind, num, b)
           else do {
             d \<leftarrow> del_set (deleted b) el_ind;
             gs \<leftarrow> store_bytes (groups b) (ixht_base group_ind + slot_bit) [IXHT_DELETED_H7];
             Some (True, None, num - 1, b\<lparr>deleted := d, groups := gs\<rparr>)
           }
       | Vacant group_ind slot_bit \<Rightarrow>
           if action \<ge> IXHT_INSERT then do {
             gs \<leftarrow> store_bytes (groups b) (ixht_base group_ind + slot_bit) [h7_val];
             gs \<leftarrow> store_word gs (ixht_base group_ind + 8 + 2 * slot_bit) (ucast (els_bound b) :: u16);
             Some (False, Some (unat (els_bound b)), num + 1, b\<lparr>groups := gs, els_bound := els_bound b + 1\<rparr>)
           }
           else Some (False, None, num, b)
     }"

section \<open>The table\<close>

text \<open>The directory code of \<open>Ix_Table\<close> over these bins.\<close>

definition ixht_ops :: "platform \<Rightarrow> ('e \<Rightarrow> u64) \<Rightarrow> ('e \<Rightarrow> 'e \<Rightarrow> bool) \<Rightarrow> ('e, \<lparr>groups :: cells\<rparr>) ix_ops" where
  "ixht_ops P Hash Eq = \<lparr>key_hash = Hash, bin_do_1 = ixht_do_1 P Eq, bin_init = ixht_init_bin,
     bin_clear = ixht_clear_groups, bin_regroup = ixht_regroup\<rparr>"

definition ixht_get_params :: "u64 \<Rightarrow> u64 \<times> u64 \<times> u64" where
  "ixht_get_params = ix_get_params"

definition ixht_create_bin :: "platform \<Rightarrow> ('e \<Rightarrow> u64) \<Rightarrow> ('e \<Rightarrow> 'e \<Rightarrow> bool) \<Rightarrow> 'e ixht \<Rightarrow> u32 \<Rightarrow> (u32 \<times> 'e ixht) option" where
  "ixht_create_bin P Hash Eq = ix_create_bin (ixht_ops P Hash Eq)"

definition ixht_split_bin :: "platform \<Rightarrow> ('e \<Rightarrow> u64) \<Rightarrow> ('e \<Rightarrow> 'e \<Rightarrow> bool) \<Rightarrow> 'e ixht \<Rightarrow> u32 \<Rightarrow> 'e ixht option" where
  "ixht_split_bin P Hash Eq = ix_split_bin (ixht_ops P Hash Eq)"

definition ixht_create :: "platform \<Rightarrow> ('e \<Rightarrow> u64) \<Rightarrow> ('e \<Rightarrow> 'e \<Rightarrow> bool) \<Rightarrow> u32 \<Rightarrow> 'e ixht option" where
  "ixht_create P Hash Eq = ix_create (ixht_ops P Hash Eq)"

definition ixht_destroy :: "'e ixht \<Rightarrow> 'e ixht option" where
  "ixht_destroy = ix_destroy ixht_destroy_bin"

definition ixht_perform :: "platform \<Rightarrow> ('e \<Rightarrow> u64) \<Rightarrow> ('e \<Rightarrow> 'e \<Rightarrow> bool) \<Rightarrow> 'e ixht \<Rightarrow> 'e \<Rightarrow> action \<Rightarrow>
    (bool \<times> el_ptr option \<times> 'e ixht) option" where
  "ixht_perform P Hash Eq = ix_perform (ixht_ops P Hash Eq)"

definition ixht_els_count :: "'e ixht \<Rightarrow> u32" where
  "ixht_els_count = ix_els_count"

definition ixht_iter_advance :: "'e ixht \<Rightarrow> ix_iter \<Rightarrow> ix_iter option" where
  "ixht_iter_advance = ix_iter_advance"

definition ixht_iter_begin :: "'e ixht \<Rightarrow> ix_iter option" where
  "ixht_iter_begin = ix_iter_begin"

definition ixht_iter_valid :: "ix_iter \<Rightarrow> bool" where
  "ixht_iter_valid = ix_iter_valid"

definition ixht_iter_next :: "'e ixht \<Rightarrow> ix_iter \<Rightarrow> ix_iter option" where
  "ixht_iter_next = ix_iter_next"

section \<open>Client code\<close>

text \<open>The calls of the tests, and their loop over an iterator.\<close>

definition ixht_step :: "platform \<Rightarrow> ('e \<Rightarrow> u64) \<Rightarrow> ('e \<Rightarrow> 'e \<Rightarrow> bool) \<Rightarrow> 'e ixht \<Rightarrow> 'e cmd \<Rightarrow> ('e reply \<times> 'e ixht) option" where
  "ixht_step P Hash Eq = client_step (\<lambda>t e. ixht_perform P Hash Eq t e IXHT_FIND)
     (\<lambda>t e. ixht_perform P Hash Eq t e IXHT_DELETE) (\<lambda>t e. ixht_perform P Hash Eq t e IXHT_INSERT) ix_store ix_load"

definition ixht_iterate :: "'e ixht \<Rightarrow> 'e list option" where
  "ixht_iterate t =
     do {
       it \<leftarrow> ixht_iter_begin t;
       client_iterate ixht_iter_valid (\<lambda>it. ix_load t (ptr it)) (ixht_iter_next t) it
     }"

end
