(* ===== verification/Ixhtab_Correct.thy ===== *)
theory Ixhtab_Correct
  imports Ihtab_Correct Ix_Split Ix_Forward Ixhtab
begin

text \<open>
  Correctness of the bins of \<open>ixhtab.h\<close>, which scan groups as \<open>ihtab.h\<close> does and differ in the width of
  the element indices: their operations satisfy the interface \<open>ix_bins\<close> of an extendible table.
\<close>

section \<open>Group scans\<close>

lemma ixht_match_mask_eq: "ixht_match_mask g h = iht_match_mask g h"
  by (cases g) (simp_all only: ixht_match_mask.simps iht_match_mask.simps ucast_low_byte ucast_byte_twice ucast_id Let_def)

lemma ixht_match_empty_eq: "ixht_match_empty g = iht_match_empty g"
  by (cases g) (simp_all only: ixht_match_empty.simps iht_match_empty.simps ixht_match_mask_eq ucast_low_byte ucast_id
      IXHT_EMPTY_H7_def IHT_EMPTY_H7_def)

lemma ixht_group_load_eq: "ixht_group_load P m p = map_option (iht_group P) (load_word m p)"
  by (simp add: ixht_group_load_def iht_group_def [abs_def])

lemmas ixht_scan_eqs = ixht_match_mask_eq ixht_match_empty_eq ixht_group_load_eq IXHT_MASK_SCALE_def IHT_MASK_SCALE_def

section \<open>Bins\<close>

definition ixht_sized :: "nat \<Rightarrow> 'e ebin_ixht \<Rightarrow> bool" where
  "ixht_sized k b \<longleftrightarrow> 1 \<le> k \<and> k \<le> 12 \<and> groups_mask b = 2 ^ k - 1 \<and> il_wf TYPE(16) (2 ^ k) (groups b) \<and>
     length (els b) = 4 * 2 ^ k \<and> length (deleted b) = (4 * 2 ^ k + 7) div 8"

definition ixht_view :: "'e ebin_ixht \<Rightarrow> 'e view" where
  "ixht_view b = \<lparr>ngroups = Suc (unat (groups_mask b)),
     slot = il_slots TYPE(16) (Suc (unat (groups_mask b))) (groups b),
     elem = read_el (els b), dead = del_bit (deleted b), bound = unat (els_bound b)\<rparr>"

definition ixht_bin_inv :: "('e \<Rightarrow> u64) \<Rightarrow> ('e \<Rightarrow> 'e \<Rightarrow> bool) \<Rightarrow> nat \<Rightarrow> 'e ebin_ixht \<Rightarrow> bool" where
  "ixht_bin_inv Hash Eq k b \<longleftrightarrow> ixht_sized k b \<and> view_inv (ix_hash Hash) Eq (ixht_view b) \<and>
     unat (els_bound b) \<le> 4 * 2 ^ k"

lemma ixht_view_sel [view_simps]:
  assumes "ixht_sized k b"
  shows "ngroups (ixht_view b) = 2 ^ k" "slot (ixht_view b) = il_slots TYPE(16) (2 ^ k) (groups b)"
    and "elem (ixht_view b) = read_el (els b)" "dead (ixht_view b) = del_bit (deleted b)"
    and "bound (ixht_view b) = unat (els_bound b)"
  using assms by (simp_all add: ixht_view_def ixht_sized_def unat_bin_mask)

lemma ixht_base_eq: "g < 2 ^ 30 \<Longrightarrow> ixht_base g = il_base TYPE(16) g"
  by (simp add: ixht_base_def IXHT_GROUP_BYTES_def IXHT_GROUP_SIZE_def il_base_def il_width_def
      unat_of_nat_less unat_mult_less)

lemma ixht_base_bin: "k \<le> 12 \<Longrightarrow> g < 2 ^ k \<Longrightarrow> ixht_base g = il_base TYPE(16) g"
  using pow2_le_12 [of k] by (intro ixht_base_eq) simp

section \<open>Probing\<close>

interpretation ixht_mask: mask_loop "\<lambda>(Eq, gs, xs, base, el). ixht_scan P Eq gs xs base el" "IXHT_MASK_SCALE P"
    "\<lambda>(Eq, gs, xs, base, el) s. do {
       i \<leftarrow> load_word gs (base + 8 + 2 * s);
       e \<leftarrow> read_el xs (unat i);
       Some (i, Eq e el)
     }" for P
proof (unfold_locales, goal_cases)
  case (1 c m)
  obtain Eq gs xs base el where c: "c = (Eq, gs, xs, base, el)" by (cases c)
  show ?case
    unfolding c prod.case by (subst ixht_scan.simps) (simp add: Let_def split: Option.bind_splits)
qed

abbreviation arrays :: "'e ebin_ixht \<Rightarrow> cells \<times> 'e option list \<times> u32" where
  "arrays b \<equiv> (groups b, els b, groups_mask b)"

lemma ixht_probe_step_scans:
  assumes b: "ixht_sized k b" "view_inv Hash Eq (ixht_view b)" and h: "\<not> bit h 7"
    and g: "unat g < ngroups (ixht_view b)"
  shows "\<exists>r. ixht_probe_step P Eq (arrays b) h el g = Some r \<and>
    scan_ok (ixht_view b) h (\<lambda>e. Eq e el) (unat g) (map_sum unat id r)"
proof -
  let ?v = "ixht_view b" and ?T = "TYPE(16)"
  note v = ixht_view_sel [OF b(1)]
  have k: "k \<le> 12" "groups_mask b = 2 ^ k - 1" using b(1) by (simp_all add: ixht_sized_def)
  have wf: "il_wf ?T (2 ^ k) (groups b)" "unat g < 2 ^ k" using b(1) g v by (simp_all add: ixht_sized_def)
  have base: "ixht_base (unat g) = il_base ?T (unat g)" by (rule ixht_base_bin [OF k(1) wf(2)])
  obtain w where w: "load_word (groups b) (il_base ?T (unat g)) = Some (w :: u64)"
    using il_group_load [OF wf] by blast
  let ?M = "\<lambda>e. Eq e el" and ?f = "\<lambda>s. the (il_index ?T (groups b) (unat g) s)"
  let ?found = "List.find (il_eq ?T (groups b) ?v ?M (unat g)) (iht_hits P w h)"
  note il = il_scan [OF iht_scan.group_engine_axioms [of P] wf v(1,2) b(2) w h]
  have get: "load_word (groups b) (ixht_base (unat g) + 8 + 2 * s) \<bind>
      (\<lambda>i. read_el (els b) (unat i) \<bind> (\<lambda>e. Some (i, ?M e))) =
      Some (?f s, il_eq ?T (groups b) ?v ?M (unat g) s)"
    if s: "s \<in> set (iht_hits P w h)" for s
    using il(1) [OF s] by (auto simp: il_eq_def base v il_index_def il_width_def)
  have "ixht_scan P Eq (groups b) (els b) (ixht_base (unat g)) el (iht_match_mask (iht_group P w) h) =
      Some (map_option (\<lambda>s. (s, ?f s)) ?found)"
    using ixht_mask.scan_find [of P "iht_match_mask (iht_group P w) h" "(Eq, groups b, els b, ixht_base (unat g), el)" ?f
        "il_eq ?T (groups b) ?v ?M (unat g)"] get
    unfolding prod.case iht_hits_def IXHT_MASK_SCALE_def IHT_MASK_SCALE_def by blast
  then have step: "ixht_probe_step P Eq (arrays b) h el g = (case ?found of
      Some s \<Rightarrow> Some (Inr (Matched (unat g) s (unat (?f s))))
    | None \<Rightarrow> (case iht_empties P w of [] \<Rightarrow> Some (Inl ((g + 1) AND groups_mask b))
        | s # _ \<Rightarrow> Some (Inr (Vacant (unat g) s))))"
    using w mask_slots_Cons [of "iht_match_empty (iht_group P w)" "IHT_MASK_SCALE P"]
    by (auto simp: ixht_probe_step_def base ixht_scan_eqs Let_def iht_empties_def split: option.splits)
  show ?thesis
  proof (cases ?found)
    case (Some s)
    then show ?thesis using step il(2) by simp
  next
    case None
    then show ?thesis
      using step il(3,4) [OF None] bin_next_group [OF k(1) wf(2)] k(2) by (cases "iht_empties P w") simp_all
  qed
qed

interpretation ixht_loop: probing "\<lambda>(k, Hash, Eq, b, h, el). ixht_probe_step P Eq (arrays b) h el"
    "\<lambda>(k, Hash, Eq, b, h, el). ixht_probe P Eq (arrays b) h el"
    "\<lambda>(k, Hash, Eq, b, h, el). ixht_sized k b \<and> view_inv Hash Eq (ixht_view b) \<and> \<not> bit h 7"
    "\<lambda>(k, Hash, Eq, b, h, el). ixht_view b" "\<lambda>(k, Hash, Eq, b, h, el). h"
    "\<lambda>(k, Hash, Eq, b, h, el) e. Eq e el" unat id "\<lambda>_ _. True" "\<lambda>_ _. True" for P
proof (unfold_locales, goal_cases)
  case (1 c s)
  obtain k Hash Eq b h el where c: "c = (k, Hash, Eq, b, h, el)" by (cases c)
  show ?case unfolding c prod.case by (rule ixht_probe.simps)
next
  case (2 c s)
  obtain k Hash Eq b h el where c: "c = (k, Hash, Eq, b, h, el)" by (cases c)
  show ?case
    using 2 ixht_probe_step_scans [of k b Hash Eq h s P el] unfolding c prod.case by (auto split: sum.split)
qed

section \<open>One bin\<close>

lemma ixht_bin_invD:
  assumes "ixht_bin_inv Hash Eq k b"
  shows "ixht_sized k b" "view_inv (ix_hash Hash) Eq (ixht_view b)" "unat (els_bound b) < 8 * 2 ^ k"
    "unat (els_bound b) \<le> 4 * 2 ^ k" "k \<le> 12" "groups_mask b = 2 ^ k - 1" "1 \<le> k"
  using assms by (auto simp: ixht_bin_inv_def ixht_sized_def intro: le_less_trans)

abbreviation ixht_probe_bin :: "platform \<Rightarrow> ('e \<Rightarrow> u64) \<Rightarrow> ('e \<Rightarrow> 'e \<Rightarrow> bool) \<Rightarrow> 'e ebin_ixht \<Rightarrow> 'e \<Rightarrow> outcome option" where
  "ixht_probe_bin P Hash Eq b el \<equiv> ixht_probe P Eq (arrays b) (h7_of (ix_hash Hash el)) el
     (ucast (ix_hash Hash el div IXHT_GROUP_SIZE) AND groups_mask b)"

lemma ixht_probe_cases:
  assumes hk: "hash_key Hash Eq" and inv: "ixht_bin_inv Hash Eq k b"
  shows "(\<exists>g s t i x. g < 2 ^ k \<and> s < 8 \<and> slot (ixht_view b) g s = Full t i \<and> live (ixht_view b) i \<and>
      elem (ixht_view b) i = Some x \<and> Eq x el \<and> ixht_probe_bin P Hash Eq b el = Some (Matched g s i)) \<or>
    (\<forall>x \<in> set (contents (ixht_view b)). \<not> Eq x el) \<and>
    (\<exists>g s. g < 2 ^ k \<and> s < 8 \<and> slot (ixht_view b) g s = Empty \<and>
      clear_path (ixht_view b) (home (2 ^ k) (ix_hash Hash el)) g \<and> ixht_probe_bin P Hash Eq b el = Some (Vacant g s))"
proof -
  note d = ixht_bin_invD [OF inv]
  note v = ixht_view_sel [OF d(1)]
  have start: "unat (ucast (ix_hash Hash el div IXHT_GROUP_SIZE) AND groups_mask b) = home (2 ^ k) (ix_hash Hash el)"
    unfolding d(6) by (rule bin_home [OF d(5)])
  obtain r where r: "ixht_probe_bin P Hash Eq b el = Some r" "probe_ok (ix_hash Hash) Eq (ixht_view b) el r"
    using ixht_loop.probe_correct [OF hash_key_ix [OF hk], of "(k, ix_hash Hash, Eq, b, h7_of (ix_hash Hash el), el)" el
      "ucast (ix_hash Hash el div IXHT_GROUP_SIZE) AND groups_mask b" P] d(1-3) start
    by (auto simp: h7_of_top_clear v)
  show ?thesis
  proof (cases r)
    case (Matched g s i)
    then show ?thesis
      using r view_inv_full [OF d(2), of g s _ i] v(1) unfolding Matched probe_ok.simps by metis
  next
    case (Vacant g s)
    then show ?thesis
      using r v(1) in_contents_iff [OF d(2)] unfolding Vacant probe_ok.simps by metis
  qed
qed

lemma ixht_view_eqI:
  assumes "ixht_sized k b'"
    and "slot w = il_slots TYPE(16) (2 ^ k) (groups b')" "ngroups w = 2 ^ k"
    and "elem w = read_el (els b')" "dead w = del_bit (deleted b')" "bound w = unat (els_bound b')"
  shows "ixht_view b' = w"
  using assms by (intro view.equality) (simp_all add: ixht_view_sel [OF assms(1)])

lemma ixht_do_1_present:
  assumes hk: "hash_key Hash Eq" and inv: "ixht_bin_inv Hash Eq k b"
    and y: "y \<in> set (contents (ixht_view b))" "Eq y el"
  shows "\<exists>i x. live (ixht_view b) i \<and> elem (ixht_view b) i = Some x \<and> Eq x el \<and>
    (\<forall>a. a \<noteq> DELETE \<longrightarrow> ixht_do_1 P Eq num b (ix_hash Hash el) el a = Some (True, Some i, num, b)) \<and>
    (\<exists>b'. ixht_do_1 P Eq num b (ix_hash Hash el) el DELETE = Some (True, None, num - 1, b') \<and>
      ixht_bin_inv Hash Eq k b' \<and> head b' = head b \<and>
      contents (ixht_view b') = filter (\<lambda>x. \<not> Eq x el) (contents (ixht_view b)))"
proof -
  note d = ixht_bin_invD [OF inv]
  note v = ixht_view_sel [OF d(1)]
  obtain g s t i x where r: "g < 2 ^ k" "s < 8" "slot (ixht_view b) g s = Full t i" "live (ixht_view b) i"
      "elem (ixht_view b) i = Some x" "Eq x el" "ixht_probe_bin P Hash Eq b el = Some (Matched g s i)"
    using ixht_probe_cases [OF hk inv, of el P] y by blast
  let ?w = "view_kill g s i (ixht_view b)"
  have "i < 4 * 2 ^ k" using r(4) d(4) by (simp add: live_def v)
  from del_bytes_cover [OF this] have "i div 8 < length (deleted b)" using d(1) by (simp add: ixht_sized_def)
  then obtain ds where ds: "del_set (deleted b) i = Some ds" by (simp add: del_set_def)
  obtain m where m: "il_kill TYPE(16) (groups b) g s = Some m" "il_wf TYPE(16) (2 ^ k) m"
      "il_slots TYPE(16) (2 ^ k) m = slot ?w"
    using il16.kill_view [OF _ r(1-3)] d(1) v(1,2) unfolding il_slots_def ixht_sized_def by blast
  let ?b = "b\<lparr>deleted := ds, groups := m\<rparr>"
  have sized: "ixht_sized k ?b" using d(1) m(2) del_set_props(1) [OF ds] by (simp add: ixht_sized_def)
  have view: "ixht_view ?b = ?w"
    by (rule ixht_view_eqI [OF sized]) (auto simp: m v view_simps fun_eq_iff del_set_props(2) [OF ds])
  have base: "ixht_base g = il_base TYPE(16) g" by (rule ixht_base_bin [OF d(5) r(1)])
  have "ixht_do_1 P Eq num b (ix_hash Hash el) el DELETE = Some (True, None, num - 1, ?b)"
    using r(7) ds m(1) by (simp add: ixht_do_1_def Let_def il_kill_def base IXHT_DELETED_H7_def)
  moreover have "ixht_bin_inv Hash Eq k ?b"
    using view_kill_inv [OF d(2) _ r(2,3)] r(1) v(1) sized view d(4) by (simp add: ixht_bin_inv_def)
  moreover have "contents (ixht_view ?b) = filter (\<lambda>x. \<not> Eq x el) (contents (ixht_view b))"
    unfolding view by (rule contents_kill [OF hash_key_ix [OF hk] d(2) r(4-6)])
  moreover have "ixht_do_1 P Eq num b (ix_hash Hash el) el a = Some (True, Some i, num, b)" if "a \<noteq> DELETE" for a
    using r(7) that by (simp add: ixht_do_1_def Let_def)
  moreover have "head ?b = head b" by (simp add: head_def)
  ultimately show ?thesis using r(4-6) by blast
qed

lemma ixht_put_bin:
  assumes inv: "ixht_bin_inv Hash Eq k b" and at: "g < 2 ^ k" "s < 8" and h: "\<not> bit h 7"
    and room: "unat (els_bound b) < 4 * 2 ^ k"
  shows "\<exists>m0 m. store_bytes (groups b) (ixht_base g + s) [h] = Some m0 \<and>
    store_word m0 (ixht_base g + 8 + 2 * s) (ucast (els_bound b) :: u16) = Some m \<and>
    unat (els_bound b + 1) = Suc (unat (els_bound b)) \<and>
    (\<forall>xs. write_el (els b) (unat (els_bound b)) e = Some xs \<longrightarrow>
      ixht_sized k (b\<lparr>groups := m, els_bound := els_bound b + 1, els := xs\<rparr>) \<and>
      ixht_view (b\<lparr>groups := m, els_bound := els_bound b + 1, els := xs\<rparr>) = view_put g s h e (ixht_view b))"
proof -
  note d = ixht_bin_invD [OF inv]
  note v = ixht_view_sel [OF d(1)]
  let ?w = "view_put g s h e (ixht_view b)"
  have small: "unat (els_bound b) < 2 ^ 16" using room pow2_le_12 [OF d(5)] by simp
  obtain m where m: "il_fill TYPE(16) (groups b) g s h (bound (ixht_view b)) = Some m"
      "il_wf TYPE(16) (2 ^ k) m" "il_slots TYPE(16) (2 ^ k) m = slot ?w"
    using il16.fill_view [OF _ at h, of "groups b" "ixht_view b" e] d(1) v small
    unfolding il_slots_def ixht_sized_def by auto
  have bound: "unat (els_bound b + 1) = Suc (unat (els_bound b))"
    using small by (subst unat_add_less) simp_all
  have view: "ixht_sized k (b\<lparr>groups := m, els_bound := els_bound b + 1, els := xs\<rparr>) \<and>
      ixht_view (b\<lparr>groups := m, els_bound := els_bound b + 1, els := xs\<rparr>) = ?w"
    if xs: "write_el (els b) (unat (els_bound b)) e = Some xs" for xs
  proof
    show sized: "ixht_sized k (b\<lparr>groups := m, els_bound := els_bound b + 1, els := xs\<rparr>)"
      using d(1) m(2) length_write_el [OF xs] by (simp add: ixht_sized_def)
    show "ixht_view (b\<lparr>groups := m, els_bound := els_bound b + 1, els := xs\<rparr>) = ?w"
      by (rule ixht_view_eqI [OF sized]) (auto simp: m v view_simps fun_eq_iff bound read_write_el [OF xs])
  qed
  have base: "ixht_base g = il_base TYPE(16) g" by (rule ixht_base_bin [OF d(5) at(1)])
  have "(of_nat (unat (els_bound b)) :: u16) = ucast (els_bound b)" by simp
  then show ?thesis
    using m(1) bound view by (auto simp: il_fill_def base il_width_def v split: Option.bind_splits)
qed

lemma ixht_do_1_absent:
  assumes hk: "hash_key Hash Eq" and inv: "ixht_bin_inv Hash Eq k b"
    and absent: "\<forall>x \<in> set (contents (ixht_view b)). \<not> Eq x el"
  shows "a < INSERT \<Longrightarrow> ixht_do_1 P Eq num b (ix_hash Hash el) el a = Some (False, None, num, b)"
    and "unat (els_bound b) < 4 * 2 ^ k \<Longrightarrow>
      \<exists>b'. ixht_do_1 P Eq num b (ix_hash Hash el) el INSERT = Some (False, Some (unat (els_bound b)), num + 1, b') \<and>
        head b' = head b \<and> els b' = els b \<and> deleted b' = deleted b \<and> unat (els_bound b') = Suc (unat (els_bound b)) \<and>
        (\<forall>xs. write_el (els b) (unat (els_bound b)) el = Some xs \<longrightarrow> ixht_bin_inv Hash Eq k (b'\<lparr>els := xs\<rparr>) \<and>
          contents (ixht_view (b'\<lparr>els := xs\<rparr>)) = contents (ixht_view b) @ [el])"
proof -
  note d = ixht_bin_invD [OF inv]
  note v = ixht_view_sel [OF d(1)]
  obtain g s where r: "g < 2 ^ k" "s < 8" "slot (ixht_view b) g s = Empty"
      "clear_path (ixht_view b) (home (2 ^ k) (ix_hash Hash el)) g" "ixht_probe_bin P Hash Eq b el = Some (Vacant g s)"
    using ixht_probe_cases [OF hk inv, of el P] absent in_contents_iff [OF d(2)] by blast
  show "ixht_do_1 P Eq num b (ix_hash Hash el) el a = Some (False, None, num, b)" if "a < INSERT"
    using r(5) that by (simp add: ixht_do_1_def Let_def flip: not_less)
  assume room: "unat (els_bound b) < 4 * 2 ^ k"
  let ?w = "view_put g s (h7_of (ix_hash Hash el)) el (ixht_view b)"
  obtain m0 m where p: "store_bytes (groups b) (ixht_base g + s) [h7_of (ix_hash Hash el)] = Some m0"
      "store_word m0 (ixht_base g + 8 + 2 * s) (ucast (els_bound b) :: u16) = Some m"
      "unat (els_bound b + 1) = Suc (unat (els_bound b))"
      "\<forall>xs. write_el (els b) (unat (els_bound b)) el = Some xs \<longrightarrow>
        ixht_sized k (b\<lparr>groups := m, els_bound := els_bound b + 1, els := xs\<rparr>) \<and>
        ixht_view (b\<lparr>groups := m, els_bound := els_bound b + 1, els := xs\<rparr>) = ?w"
    using ixht_put_bin [OF inv r(1,2) h7_of_top_clear room] by blast
  have "view_inv (ix_hash Hash) Eq ?w"
  proof (rule view_put_inv [OF hash_key_ix [OF hk] d(2)])
    show "\<not> Eq x el" if "live (ixht_view b) i" "elem (ixht_view b) i = Some x" for i x
      using absent in_contents_iff [OF d(2)] that by blast
  qed (use r v in auto)
  moreover have "contents ?w = contents (ixht_view b) @ [el]"
    using view_inv_dead [OF d(2)] by (intro contents_put) simp
  moreover have "ixht_do_1 P Eq num b (ix_hash Hash el) el INSERT = Some (False, Some (unat (els_bound b)), num + 1,
      b\<lparr>groups := m, els_bound := els_bound b + 1\<rparr>)"
    using r(5) p(1,2) by (simp add: ixht_do_1_def Let_def)
  ultimately show "\<exists>b'. ixht_do_1 P Eq num b (ix_hash Hash el) el INSERT = Some (False, Some (unat (els_bound b)), num + 1, b') \<and>
      head b' = head b \<and> els b' = els b \<and> deleted b' = deleted b \<and> unat (els_bound b') = Suc (unat (els_bound b)) \<and>
      (\<forall>xs. write_el (els b) (unat (els_bound b)) el = Some xs \<longrightarrow> ixht_bin_inv Hash Eq k (b'\<lparr>els := xs\<rparr>) \<and>
        contents (ixht_view (b'\<lparr>els := xs\<rparr>)) = contents (ixht_view b) @ [el])"
    using p(3,4) room by (intro exI [of _ "b\<lparr>groups := m, els_bound := els_bound b + 1\<rparr>"])
      (simp add: ixht_bin_inv_def head_def)
qed

lemma ixht_set_el:
  assumes hk: "hash_key Hash Eq" and inv: "ixht_bin_inv Hash Eq k b"
    and i: "live (ixht_view b) i" "elem (ixht_view b) i = Some x" "Eq x e" and xs: "write_el (els b) i e = Some xs"
  shows "ixht_bin_inv Hash Eq k (b\<lparr>els := xs\<rparr>) \<and> ixht_view (b\<lparr>els := xs\<rparr>) = view_set i e (ixht_view b)"
proof -
  note d = ixht_bin_invD [OF inv]
  note v = ixht_view_sel [OF d(1)]
  have sized: "ixht_sized k (b\<lparr>els := xs\<rparr>)" using d(1) length_write_el [OF xs] by (simp add: ixht_sized_def)
  have view: "ixht_view (b\<lparr>els := xs\<rparr>) = view_set i e (ixht_view b)"
    by (rule ixht_view_eqI [OF sized]) (auto simp: v view_simps fun_eq_iff read_write_el [OF xs])
  then show ?thesis using view_set_inv [OF hash_key_ix [OF hk] d(2) i] sized d(4) by (simp add: ixht_bin_inv_def)
qed

section \<open>Allocation\<close>

text \<open>A bin whose tags are all empty and whose bitmap is clear is empty, whatever its array of elements holds.\<close>

lemma ixht_emptied:
  assumes k: "1 \<le> k" "k \<le> 12" and len: "length m = 24 * 2 ^ k"
  shows "\<exists>gs. memset_each ixht_base 8 IXHT_EMPTY_H7 [0..<2 ^ k] m = Some gs \<and>
    (\<forall>b. groups b = gs \<longrightarrow> groups_mask b = 2 ^ k - 1 \<longrightarrow> length (els b) = 4 * 2 ^ k \<longrightarrow> deleted b = no_dels k \<longrightarrow>
      els_bound b = 0 \<longrightarrow> ixht_bin_inv Hash Eq k b \<and> contents (ixht_view b) = [])"
proof -
  let ?T = "TYPE(16)"
  have base: "memset_each ixht_base 8 c [0..<2 ^ k] m = memset_each (il_base ?T) 8 c [0..<2 ^ k] m" for c m
    by (intro memset_each_cong ixht_base_bin [OF k(2)]) simp
  obtain gs where m: "memset_each (il_base ?T) 8 0xc0 [0..<2 ^ k] m = Some gs"
      "il_wf ?T (2 ^ k) gs" "\<forall>g < 2 ^ k. \<forall>s < 8. il_slot ?T gs g s = Empty"
    using il_cleared [of "il_base ?T" ?T m "2 ^ k"] len by (auto simp: il_base_def il_width_def)
  have "ixht_bin_inv Hash Eq k b \<and> contents (ixht_view b) = []"
    if b: "groups b = gs" "groups_mask b = 2 ^ k - 1" "length (els b) = 4 * 2 ^ k" "deleted b = no_dels k" "els_bound b = 0" for b
  proof -
    have sized: "ixht_sized k b" using k b m(2) by (simp add: ixht_sized_def)
    note v = ixht_view_sel [OF sized]
    have "view_inv (ix_hash Hash) Eq (ixht_view b) \<and> contents (ixht_view b) = []"
      using m(3) b by (intro conjI view_empty_inv) (simp_all add: v il_slots_def)
    then show ?thesis using sized b(5) by (simp add: ixht_bin_inv_def)
  qed
  then show ?thesis using m(1) base by (simp add: IXHT_EMPTY_H7_def)
qed

lemma group_bytes:
  assumes "k \<le> 12"
  shows "unat (ucast (2 ^ k :: u32) * IXHT_GROUP_BYTES) = 24 * 2 ^ k"
proof -
  have "unat (ucast (2 ^ k :: u32) :: u64) = 2 ^ k" using assms pow2_le_12 [OF assms]
    by (simp add: unsigned_ucast_eq take_bit_eq_mod)
  then show ?thesis
    using pow2_le_12 [OF assms] by (simp add: IXHT_GROUP_BYTES_def IXHT_GROUP_SIZE_def unat_mult_less)
qed

lemma ixht_init_ok:
  assumes "1 \<le> k" "k \<le> 12"
  shows "\<exists>b. ixht_init_bin (4 * 2 ^ k) = Some b \<and> ixht_bin_inv Hash Eq k b \<and> els_start b = 0 \<and> els_bound b = 0 \<and>
    contents (ixht_view b) = []"
proof -
  have z: "unat (4 * 2 ^ k :: u32) = 4 * 2 ^ k" "unat ((4 * 2 ^ k + 7) div 8 :: u32) = (4 * 2 ^ k + 7) div 8"
      "(2 * (4 * 2 ^ k) :: u32) div IXHT_GROUP_SIZE = 2 ^ k" "unat (2 ^ k :: u32) = 2 ^ k"
    using ix_sizes [of k] assms by simp_all
  from ixht_emptied [OF assms, of "replicate (24 * 2 ^ k) None" Hash Eq] obtain gs where
      "memset_each ixht_base 8 IXHT_EMPTY_H7 [0..<2 ^ k] (replicate (24 * 2 ^ k) None) = Some gs"
      "\<forall>b. groups b = gs \<longrightarrow> groups_mask b = 2 ^ k - 1 \<longrightarrow> length (els b) = 4 * 2 ^ k \<longrightarrow> deleted b = no_dels k \<longrightarrow>
        els_bound b = 0 \<longrightarrow> ixht_bin_inv Hash Eq k b \<and> contents (ixht_view b) = []"
    by auto
  then show ?thesis using z group_bytes [OF assms(2)] by (simp add: ixht_init_bin_def Let_def)
qed

lemma ixht_clear_ok:
  assumes inv: "ixht_bin_inv Hash Eq k b"
  shows "\<exists>c. ixht_clear_groups b = Some c \<and> head c = head b \<and> els_bound c = els_bound b \<and> els c = els b \<and>
    deleted c = deleted b \<and> ixht_bin_inv Hash Eq k (c\<lparr>els_bound := 0, deleted := no_dels k\<rparr>) \<and>
    contents (ixht_view (c\<lparr>els_bound := 0, deleted := no_dels k\<rparr>)) = []"
proof -
  note d = ixht_bin_invD [OF inv]
  have z: "unat (groups_mask b + 1) = 2 ^ k" "length (els b) = 4 * 2 ^ k" "length (groups b) = 24 * 2 ^ k"
    using d(1,5) by (simp_all add: ixht_sized_def il_wf_def il_base_def il_width_def)
  from ixht_emptied [OF d(7,5) z(3), of Hash Eq] obtain gs where
      "memset_each ixht_base 8 IXHT_EMPTY_H7 [0..<2 ^ k] (groups b) = Some gs"
      "\<forall>b. groups b = gs \<longrightarrow> groups_mask b = 2 ^ k - 1 \<longrightarrow> length (els b) = 4 * 2 ^ k \<longrightarrow> deleted b = no_dels k \<longrightarrow>
        els_bound b = 0 \<longrightarrow> ixht_bin_inv Hash Eq k b \<and> contents (ixht_view b) = []"
    by blast
  then show ?thesis using z(1,2) d(6) by (simp add: ixht_clear_groups_def Let_def head_def)
qed

lemma ixht_regroup_ok:
  assumes k: "1 \<le> k" "k \<le> 12" and b: "length (els b) = 4 * 2 ^ k" "deleted b = no_dels k"
  shows "\<exists>c. ixht_regroup (8 * 2 ^ k) b = Some c \<and> head c = head b \<and> els_bound c = els_bound b \<and> els c = els b \<and>
    deleted c = deleted b \<and> ixht_bin_inv Hash Eq k (c\<lparr>els_bound := 0\<rparr>) \<and> contents (ixht_view (c\<lparr>els_bound := 0\<rparr>)) = []"
proof -
  have z: "(8 * 2 ^ k :: u32) div IXHT_GROUP_SIZE = 2 ^ k" "unat (2 ^ k :: u32) = 2 ^ k"
    using ix_sizes [of k] k by simp_all
  from ixht_emptied [OF k, of "realloc_els (groups b) (24 * 2 ^ k)" Hash Eq] obtain gs where
      "memset_each ixht_base 8 IXHT_EMPTY_H7 [0..<2 ^ k] (realloc_els (groups b) (24 * 2 ^ k)) = Some gs"
      "\<forall>b. groups b = gs \<longrightarrow> groups_mask b = 2 ^ k - 1 \<longrightarrow> length (els b) = 4 * 2 ^ k \<longrightarrow> deleted b = no_dels k \<longrightarrow>
        els_bound b = 0 \<longrightarrow> ixht_bin_inv Hash Eq k b \<and> contents (ixht_view b) = []"
    by auto
  then show ?thesis using z group_bytes [OF k(2)] b by (simp add: ixht_regroup_def Let_def head_def)
qed

interpretation ixht_bins: ix_bins "ixht_ops P Hash Eq" Eq ixht_view "ixht_bin_inv Hash Eq" for P Hash Eq
proof (unfold_locales, goal_cases)
  case (1 k b)
  then show ?case using ixht_bin_invD [OF 1] by (simp add: ixht_view_sel ixht_ops_def)
next
  case (2 k b)
  then show ?case using ixht_bin_invD [OF 2] by (simp add: ixht_sized_def)
next
  case (3 k b d m s)
  show ?case by (simp add: ixht_bin_inv_def ixht_sized_def ixht_view_def)
next
  case (4 b d m s)
  show ?case by (simp add: ixht_view_def)
next
  case (5 k)
  then show ?case using ixht_init_ok [of k Hash Eq] by (simp add: ixht_ops_def)
next
  case (6 k b)
  then show ?case using ixht_clear_ok [of Hash Eq k b] by (simp add: ixht_ops_def)
next
  case (7 b c)
  then show ?case by (auto simp: ixht_ops_def ixht_clear_groups_def split: bind_splits)
next
  case (8 n b)
  then show ?case by (auto simp: ixht_ops_def ixht_init_bin_def Let_def split: bind_splits)
next
  case (9 k b)
  then show ?case using ixht_regroup_ok [of k b Hash Eq] by (simp add: ixht_ops_def)
next
  case (10 k b y el num)
  then show ?case using ixht_do_1_present [of Hash Eq k b y el P num] by (simp add: ixht_ops_def)
next
  case (11 k b el a num)
  then show ?case using ixht_do_1_absent(1) [of Hash Eq k b el a P num] by (simp add: ixht_ops_def)
next
  case (12 k b el num)
  then show ?case using ixht_do_1_absent(2) [of Hash Eq k b el P num] by (simp add: ixht_ops_def)
next
  case (13 num b ds h el)
  show ?case
    by (simp add: ixht_ops_def ixht_do_1_def Let_def map_option_bind comp_def split: outcome.split Option.bind_split)
next
  case (14 k b i x e xs)
  then show ?case using ixht_set_el [of Hash Eq k b i x e xs] by (simp add: ixht_ops_def)
qed

end
