(* ===== verification/Ixhtab_Props.thy ===== *)
theory Ixhtab_Props
  imports Test_Client Ixhtab_Correct
begin

text \<open>
  The properties of the indexed hash table of \<open>src/ixhtab.h\<close>, each with a witness on the client of
  \<open>tests/test_c.c\<close>.
\<close>

abbreviation ixht_inv :: "('e \<Rightarrow> u64) \<Rightarrow> ('e \<Rightarrow> 'e \<Rightarrow> bool) \<Rightarrow> 'e ixht \<Rightarrow> bool" where
  "ixht_inv Hash Eq \<equiv> ix_inv (ix_hash Hash) ixht_view (ixht_bin_inv Hash Eq)"

abbreviation ixht_abs :: "'e ixht \<Rightarrow> 'e list" where
  "ixht_abs \<equiv> ix_abs ixht_view"

lemma ixht_key_hash [simp]: "key_hash (ixht_ops P Hash Eq) = Hash"
  by (simp add: ixht_ops_def)

lemma ixht_step_eq: "ixht_step P Hash Eq = ix_step (ixht_ops P Hash Eq)"
  by (simp add: ixht_step_def ix_step_def ixht_perform_def)

lemma ixht_iterate_eq: "ixht_iterate = ix_iterate"
  by (simp add: fun_eq_iff ixht_iterate_def ix_iterate_def ixht_iter_begin_def ixht_iter_valid_def ixht_iter_next_def)

lemma ixht_create_correct:
  assumes "min_size \<le> 2 ^ 31"
  shows "\<exists>t. ixht_create P Hash Eq min_size = Some t \<and> ixht_inv Hash Eq t \<and> ixht_abs t = [] \<and>
    unat (bins_num t) = 2 ^ unat (max_depth t) \<and> (min_size \<le> 2 ^ 14 \<longrightarrow> max_depth t = 0)"
  using ixht_bins.create_ok [OF assms, of P Hash Eq] by (simp add: ixht_create_def)

lemma ixht_iterate_correct: "ixht_inv Hash Eq t \<Longrightarrow> ixht_iterate t = Some (ixht_abs t)"
  using ixht_bins.iterate_collects [of SWAR Hash Eq t] by (simp add: ixht_iterate_eq)

lemma ixht_count: "ixht_inv Hash Eq t \<Longrightarrow> unat (ixht_els_count t) = length (ixht_abs t)"
  by (simp add: ixht_els_count_def ix_els_count_def ix_invD)

lemma ixht_run_refines:
  assumes "hash_key Hash Eq" "ixht_inv Hash Eq t" "mset (ixht_abs t) = mset xs" "length xs + length cs \<le> 2 ^ 14"
  shows "\<exists>t'. run_cmds (ixht_step P Hash Eq) t cs = Some (fst (spec_run Eq xs cs), t') \<and> ixht_inv Hash Eq t' \<and>
    mset (ixht_abs t') = mset (snd (spec_run Eq xs cs)) \<and> max_depth t' = max_depth t \<and> bins_num t' = bins_num t"
  using ixht_bins.dict.run_refines [of P Hash Eq t t xs cs] assms
  by (auto simp: ixht_step_eq ixht_bins.same_dir_def)

text \<open>Elements that a table with one bin can be split with three times, and the commands that insert them.\<close>

definition split_entries :: "entry list" where
  "split_entries = [mk_entry 8 0, mk_entry 5 0, mk_entry 2 0, mk_entry 4 0, mk_entry 3 0]"

definition split_cmds :: "entry cmd list" where
  "split_cmds = map Insert split_entries"

lemma split_cmds_spec: "length split_cmds = 5" "snd (spec_run entry_eq [] split_cmds) = split_entries"
  by code_simp+

text \<open>The low three bits of their hashes are 0, 1, 2, 4 and 7.\<close>

abbreviation split_hash :: "u32 \<Rightarrow> u64" where
  "split_hash k \<equiv> ix_hash entry_hash (mk_entry k 0)"

lemma split_bits: "split_hash 8 AND 1 = 0" "split_hash 2 AND 1 = 0" "split_hash 4 AND 1 = 0" "split_hash 5 AND 1 \<noteq> 0"
  "split_hash 3 AND 1 \<noteq> 0" "split_hash 8 AND 2 = 0" "split_hash 4 AND 2 = 0" "split_hash 5 AND 2 = 0"
  "split_hash 2 AND 2 \<noteq> 0" "split_hash 3 AND 2 \<noteq> 0" "split_hash 8 AND 4 = 0" "split_hash 4 AND 4 \<noteq> 0"
  by (simp_all add: ix_hash_def entry_hash_def)

lemma split_hash_low: "unat (split_hash 3) mod 8 = 7"
  by (simp add: ix_hash_def entry_hash_def)

lemma set_split_entries: "set split_entries = {mk_entry 8 0, mk_entry 5 0, mk_entry 2 0, mk_entry 4 0, mk_entry 3 0}"
  by (simp add: split_entries_def)

lemma filled_table:
  "\<exists>t rs t1. ixht_create P entry_hash entry_eq 8 = Some t \<and>
    run_cmds (ixht_step P entry_hash entry_eq) t split_cmds = Some (rs, t1) \<and> ixht_inv entry_hash entry_eq t1 \<and>
    mset (ixht_abs t1) = mset split_entries \<and> max_depth t1 = 0 \<and> unat (bins_num t1) = 1"
proof -
  obtain t where t: "ixht_create P entry_hash entry_eq 8 = Some t" "ixht_inv entry_hash entry_eq t" "ixht_abs t = []"
      "max_depth t = 0" "unat (bins_num t) = 1"
    using ixht_create_correct [of 8 P entry_hash entry_eq] by auto
  then show ?thesis
    using ixht_run_refines [OF entry.hash_key_axioms t(2), of "[]" split_cmds P] by (auto simp: split_cmds_spec)
qed

lemma emptied_table:
  "\<exists>t rs t1. ixht_create P entry_hash entry_eq 8 = Some t \<and>
    run_cmds (ixht_step P entry_hash entry_eq) t [Insert (mk_entry 5 0), Remove (mk_entry 5 0)] = Some (rs, t1) \<and>
    ixht_inv entry_hash entry_eq t1 \<and> ixht_abs t1 = [] \<and> max_depth t1 = 0 \<and> unat (bins_num t1) = 1"
proof -
  obtain t where t: "ixht_create P entry_hash entry_eq 8 = Some t" "ixht_inv entry_hash entry_eq t" "ixht_abs t = []"
      "max_depth t = 0" "unat (bins_num t) = 1"
    using ixht_create_correct [of 8 P entry_hash entry_eq] by auto
  then show ?thesis
    using ixht_run_refines [OF entry.hash_key_axioms t(2), of "[]" "[Insert (mk_entry 5 0), Remove (mk_entry 5 0)]" P]
    by (auto simp: member_def entry_eq_def)
qed

text \<open>Three splits of the first bin: its depth is then 3, and that of the bin of the odd hashes still 1.\<close>

lemma thrice_split:
  "\<exists>t rs t1 t2 t3 t4 b. ixht_create SWAR entry_hash entry_eq 8 = Some t \<and>
    run_cmds (ixht_step SWAR entry_hash entry_eq) t split_cmds = Some (rs, t1) \<and>
    ixht_split_bin SWAR entry_hash entry_eq t1 0 = Some t2 \<and> ixht_split_bin SWAR entry_hash entry_eq t2 0 = Some t3 \<and>
    ixht_split_bin SWAR entry_hash entry_eq t3 0 = Some t4 \<and> ixht_inv entry_hash entry_eq t4 \<and>
    unat (bins_num t4) = 4 \<and> unat (max_depth t4) = 3 \<and> read_el (bins t4) 1 = Some b \<and> depth b = Some 1 \<and>
    hash_mask b = Some 1 \<and> set (contents (ixht_view b)) = {mk_entry 5 0, mk_entry 3 0}"
proof -
  note next_split = ixht_bins.split_next [of SWAR entry_hash entry_eq, unfolded ixht_key_hash, OF entry.hash_key_axioms,
      folded ixht_split_bin_def]
  obtain t rs t1 where t1: "ixht_create SWAR entry_hash entry_eq 8 = Some t"
      "run_cmds (ixht_step SWAR entry_hash entry_eq) t split_cmds = Some (rs, t1)"
      "ixht_inv entry_hash entry_eq t1" "mset (ixht_abs t1) = mset split_entries" "max_depth t1 = 0" "unat (bins_num t1) = 1"
    using filled_table by blast
  let ?holds = "ixht_bins.holds" and ?h = "ix_hash entry_hash" and ?xs = "ixht_abs t1"
  have xs: "set ?xs = {mk_entry 8 0, mk_entry 5 0, mk_entry 2 0, mk_entry 4 0, mk_entry 3 0}"
    using mset_eq_setD [OF t1(4)] set_split_entries by simp
  let ?ev = "filter (\<lambda>e. ?h e AND 1 = 0) ?xs" and ?od = "filter (\<lambda>e. ?h e AND 1 \<noteq> 0) ?xs"
  have h1: "?holds entry_hash entry_eq t1 0 0 0 ?xs"
    using ixht_bins.holds_lone [of SWAR entry_hash entry_eq t1] t1(3,5,6) by simp
  obtain t2 where t2: "ixht_split_bin SWAR entry_hash entry_eq t1 0 = Some t2" "ixht_inv entry_hash entry_eq t2"
      "unat (max_depth t2) = 1" "unat (bins_num t2) = 2" "?holds entry_hash entry_eq t2 0 1 0 ?ev" "?holds entry_hash entry_eq t2 1 1 1 ?od"
    using next_split [OF t1(3) h1] t1(5,6) xs split_bits by auto
  let ?ev2 = "filter (\<lambda>e. ?h e AND 2 = 0) ?ev"
  have ev: "mk_entry 8 0 \<in> set ?ev" "mk_entry 2 0 \<in> set ?ev" "mk_entry 8 0 \<in> set ?ev2" "mk_entry 4 0 \<in> set ?ev2"
    using xs split_bits by simp_all
  have "\<exists>e \<in> set ?ev. ?h e AND 2 = 0" "\<exists>e \<in> set ?ev. ?h e AND 2 \<noteq> 0"
    using ev(1,2) split_bits by blast+
  then obtain t3 where t3: "ixht_split_bin SWAR entry_hash entry_eq t2 0 = Some t3" "ixht_inv entry_hash entry_eq t3"
      "unat (max_depth t3) = Suc 1" "unat (bins_num t3) = 3" "?holds entry_hash entry_eq t3 0 (Suc 1) 0 ?ev2" "?holds entry_hash entry_eq t3 1 1 1 ?od"
    using next_split [OF t2(2,5)] t2(3,4,6) by (auto simp del: set_filter filter_filter)
  have "\<exists>e \<in> set ?ev2. ?h e AND 4 = 0" "\<exists>e \<in> set ?ev2. ?h e AND 4 \<noteq> 0"
    using ev(3,4) split_bits by blast+
  then obtain t4 where t4: "ixht_split_bin SWAR entry_hash entry_eq t3 0 = Some t4" "ixht_inv entry_hash entry_eq t4"
      "unat (max_depth t4) = 3" "unat (bins_num t4) = 4" "?holds entry_hash entry_eq t4 1 1 1 ?od"
    using next_split [OF t3(2,5)] t3(3,4,6) by (auto simp del: set_filter filter_filter)
  have "set ?od = {mk_entry 5 0, mk_entry 3 0}" using xs split_bits by auto
  then show ?thesis using t1(1,2) t2(1) t3(1) t4 by (auto simp: ixht_bins.holds_def head_def)
qed

section \<open>Properties\<close>

text \<open>
  C2. A table created for any size up to \<open>2 ^ 31\<close> answers every sequence of up to \<open>2 ^ 14\<close> insert,
  replace, remove and find commands as a list of the stored elements does, on every platform; no
  call runs out of bounds, reads an unset cell or loops. Afterwards the iterator visits exactly the stored
  elements, each once, the counter is their number, and the table can be destroyed.
\<close>

theorem ixht_client_run:
  assumes "hash_key Hash Eq" "min_size \<le> 2 ^ 31" "length cs \<le> 2 ^ 14"
  shows "\<exists>t t' xs t''. ixht_create P Hash Eq min_size = Some t \<and>
    run_cmds (ixht_step P Hash Eq) t cs = Some (fst (spec_run Eq [] cs), t') \<and>
    ixht_iterate t' = Some xs \<and> mset xs = mset (snd (spec_run Eq [] cs)) \<and>
    unat (ixht_els_count t') = length xs \<and> ixht_destroy t' = Some t''"
proof -
  obtain t where t: "ixht_create P Hash Eq min_size = Some t" "ixht_inv Hash Eq t" "ixht_abs t = []"
    using ixht_create_correct [OF assms(2)] by blast
  obtain t' where t': "run_cmds (ixht_step P Hash Eq) t cs = Some (fst (spec_run Eq [] cs), t')"
      "ixht_inv Hash Eq t'" "mset (ixht_abs t') = mset (snd (spec_run Eq [] cs))"
    using ixht_run_refines [OF assms(1) t(2), of "[]" cs P] t assms(3) by auto
  have "ixht_destroy t' = Some (t'\<lparr>bins := [], dir := []\<rparr>)"
    using ixht_bins.destroy_ok [of P Hash Eq t'] t'(2) by (simp add: ixht_destroy_def)
  then show ?thesis using t(1) t' ixht_iterate_correct [OF t'(2)] ixht_count [OF t'(2)] by blast
qed

theorem ixht_client_run_witness:
  "\<exists>t t' t''. ixht_create SWAR entry_hash entry_eq 8 = Some t \<and>
    run_cmds (ixht_step SWAR entry_hash entry_eq) t entry_cmds =
      Some ([Flag False, Flag False, Flag True, Got (Some (mk_entry 42 100)), Flag True, Got None, Flag True], t') \<and>
    ixht_iterate t' = Some [mk_entry 7 2] \<and> unat (ixht_els_count t') = 1 \<and> ixht_destroy t' = Some t''"
  using ixht_client_run [OF entry.hash_key_axioms, of 8 entry_cmds SWAR] by (auto simp: entry_cmds_spec)

text \<open>
  C8. \<open>ixht_create\<close> returns exactly for the sizes up to \<open>2 ^ 31\<close>. For a larger one its loop over
  the powers of two never ends.
\<close>

theorem ixht_create_returns:
  "(\<exists>t. ixht_create P Hash Eq min_size = Some t) = (min_size \<le> 2 ^ 31)"
  using ixht_create_correct [of min_size P Hash Eq] ix_create_diverges [of min_size "ixht_ops P Hash Eq"]
  by (cases "min_size \<le> 2 ^ 31") (auto simp: ixht_create_def)





text \<open>
  C10. Splitting a bin all of whose elements are deleted does not return: no round adds an element to a bin,
  and the loop goes on, doubling the directory in each round, until both bins have one.
\<close>

theorem ixht_split_dead:
  assumes "read_el (bins t) (unat i) = Some b"
    "\<And>j. unat (els_start b) \<le> j \<Longrightarrow> j < unat (els_bound b) \<Longrightarrow> del_test (deleted b) j = Some True"
  shows "ixht_split_bin P Hash Eq t i = None"
  using ixht_bins.split_bin_dead [of t i P Hash Eq] assms
  by (simp add: ixht_split_bin_def ixht_bins.all_dead_def)

theorem ixht_split_dead_witness:
  "\<exists>t rs t1. ixht_create SWAR entry_hash entry_eq 8 = Some t \<and>
    run_cmds (ixht_step SWAR entry_hash entry_eq) t [Insert (mk_entry 5 0), Remove (mk_entry 5 0)] = Some (rs, t1) \<and>
    ixht_inv entry_hash entry_eq t1 \<and> ixht_split_bin SWAR entry_hash entry_eq t1 0 = None"
proof -
  obtain t rs t1 where t: "ixht_create SWAR entry_hash entry_eq 8 = Some t"
      "run_cmds (ixht_step SWAR entry_hash entry_eq) t [Insert (mk_entry 5 0), Remove (mk_entry 5 0)] = Some (rs, t1)"
      "ixht_inv entry_hash entry_eq t1" "ixht_abs t1 = []" "max_depth t1 = 0" "unat (bins_num t1) = 1"
    using emptied_table by blast
  from ixht_bins.holds_lone [of SWAR entry_hash entry_eq t1] t(3-6)
  obtain b k where b: "read_el (bins t1) 0 = Some b" "ixht_bin_inv entry_hash entry_eq k b" "contents (ixht_view b) = []"
    by (auto simp: ixht_bins.holds_def)
  have "ixht_split_bin SWAR entry_hash entry_eq t1 0 = None"
    by (rule ixht_split_dead) (use b ixht_bins.empty_dead [OF b(2,3)] in simp_all)
  then show ?thesis using t by blast
qed

text \<open>
  C9. A split enters the new bin at one place of the directory. If the depth of the bin is smaller than
  the largest by two or more, an element that moves to the new bin and whose hash selects another
  entry is still stored, but it is no longer found.
\<close>

theorem ixht_split_loses:
  assumes "hash_key Hash Eq" "ixht_inv Hash Eq t" "unat (bins_num t) < 2 ^ 31"
    "i < unat (bins_num t)" "read_el (bins t) i = Some b" "depth b = Some d" "hash_mask b = Some m"
    "unat d < 31" "Suc (unat d) < unat (max_depth t)"
    "\<exists>e \<in> set (contents (ixht_view b)). ix_hash Hash e AND 2 ^ unat d = 0"
    "x \<in> set (contents (ixht_view b))" "ix_hash Hash x AND 2 ^ unat d \<noteq> 0"
    "unat (ix_hash Hash x) mod 2 ^ unat (max_depth t) \<noteq> unat m + 2 ^ unat d"
  shows "\<exists>t'. ixht_split_bin P Hash Eq t (of_nat i) = Some t' \<and> x \<in> set (ixht_abs t') \<and>
    ixht_perform P Hash Eq t' x IXHT_FIND = Some (False, None, t')"
  using ixht_bins.split_loses [of P Hash Eq t i b d m x] assms by (simp add: ixht_split_bin_def ixht_perform_def)

theorem ixht_split_loses_witness:
  "\<exists>t rs t1 t2 t3 t4 t5. ixht_create SWAR entry_hash entry_eq 8 = Some t \<and>
    run_cmds (ixht_step SWAR entry_hash entry_eq) t split_cmds = Some (rs, t1) \<and>
    ixht_split_bin SWAR entry_hash entry_eq t1 0 = Some t2 \<and> ixht_split_bin SWAR entry_hash entry_eq t2 0 = Some t3 \<and>
    ixht_split_bin SWAR entry_hash entry_eq t3 0 = Some t4 \<and> ixht_split_bin SWAR entry_hash entry_eq t4 1 = Some t5 \<and>
    mk_entry 3 0 \<in> set (ixht_abs t5) \<and>
    ixht_perform SWAR entry_hash entry_eq t5 (mk_entry 3 0) IXHT_FIND = Some (False, None, t5)"
proof -
  obtain t rs t1 t2 t3 t4 b where t: "ixht_create SWAR entry_hash entry_eq 8 = Some t"
      "run_cmds (ixht_step SWAR entry_hash entry_eq) t split_cmds = Some (rs, t1)"
      "ixht_split_bin SWAR entry_hash entry_eq t1 0 = Some t2" "ixht_split_bin SWAR entry_hash entry_eq t2 0 = Some t3"
      "ixht_split_bin SWAR entry_hash entry_eq t3 0 = Some t4" "ixht_inv entry_hash entry_eq t4"
      "unat (bins_num t4) = 4" "unat (max_depth t4) = 3" "read_el (bins t4) 1 = Some b" "depth b = Some 1" "hash_mask b = Some 1"
      "set (contents (ixht_view b)) = {mk_entry 5 0, mk_entry 3 0}"
    using thrice_split by blast
  have "\<exists>t5. ixht_split_bin SWAR entry_hash entry_eq t4 (of_nat 1) = Some t5 \<and> mk_entry 3 0 \<in> set (ixht_abs t5) \<and>
      ixht_perform SWAR entry_hash entry_eq t5 (mk_entry 3 0) IXHT_FIND = Some (False, None, t5)"
    by (rule ixht_split_loses [OF entry.hash_key_axioms t(6) _ _ t(9,10,11)]) (use t split_bits split_hash_low in simp_all)
  then show ?thesis using t by (metis of_nat_1)
qed

end
