(* ===== verification/Ixhtab_v0.thy ===== *)
theory Ixhtab_v0
  imports Ix_Table
begin

text \<open>
  The C11 extendible table of \<open>ixhtab-v0.h\<close>, the first version of \<open>ixhtab.h\<close>: the tags and the 16-bit
  element indices of a bin are in two arrays, a deleted slot keeps its tag and has an index with all bits
  set, and an insertion reuses the first deleted slot with the wanted tag that its probe has met. Names
  carry a zero, \<open>ixht0_\<close> for \<open>ixht_\<close>. The directory code is that of \<open>Ix_Table\<close>.
\<close>

section \<open>Constants and group scans\<close>

definition IXHT0_EMPTY_H7 :: u8 where "IXHT0_EMPTY_H7 = 0x80"

definition IXHT0_INDEX_DELETED :: u16 where "IXHT0_INDEX_DELETED = ucast (NOT 0 :: u32)"

definition IXHT0_MASK_SCALE :: "platform \<Rightarrow> bool" where
  "IXHT0_MASK_SCALE P \<longleftrightarrow> P = SWAR"

definition ixht0_group_load :: "platform \<Rightarrow> cells \<Rightarrow> nat \<Rightarrow> group_t option" where
  "ixht0_group_load P m p = map_option (\<lambda>g.
     case P of
       X86_SSE2 \<Rightarrow> SSE2_group (mm_cvtsi64_si128 g)
     | AARCH64_NEON \<Rightarrow> NEON_group g
     | SWAR \<Rightarrow> SWAR_group g) (load_word m p)"

text \<open>The masks, an \<open>unsigned int\<close> or \<open>uint64_t\<close> in the code, as \<open>do_1\<close> converts them to \<open>uint64_t\<close>.\<close>

fun ixht0_match_mask :: "group_t \<Rightarrow> u8 \<Rightarrow> u64" where
  "ixht0_match_mask (SSE2_group g) h7_val =
     (let h7_vec = mm_set1_epi8 h7_val
      in ucast (mm_movemask_epi8 (mm_cmpeq_epi8 g h7_vec) AND (0xff :: u32)))"
| "ixht0_match_mask (NEON_group g) h7_val =
     (let group = vcreate_u8 g;
          match_eq = vceq_u8 group (vdup_n_u8 h7_val)
      in ucast (ucast (vaddv_u8 (vand_u8 match_eq [1, 2, 4, 8, 16, 32, 64, 128])) :: u32))"
| "ixht0_match_mask (SWAR_group g) h7_val =
     (let cmp = g XOR (SWAR_LSB * ucast h7_val)
      in (cmp - SWAR_LSB) AND NOT cmp AND SWAR_MSB)"

fun ixht0_match_empty :: "group_t \<Rightarrow> u64" where
  "ixht0_match_empty (SSE2_group g) = ucast (mm_movemask_epi8 g AND (0xff :: u32))"
| "ixht0_match_empty (NEON_group g) = ixht0_match_mask (NEON_group g) IXHT0_EMPTY_H7"
| "ixht0_match_empty (SWAR_group g) = g AND SWAR_MSB"

section \<open>State\<close>

record 'e ebin_ixht0 = "'e ebin" +
  h7 :: cells
  indexes :: "u16 option list"

type_synonym 'e ixht0 = "'e ebin_ixht0 ix_table"
type_synonym ixht0_iter = ix_iter

definition ixht0_destroy_bin :: "'e ebin_ixht0 \<Rightarrow> 'e ebin_ixht0" where
  "ixht0_destroy_bin b = b\<lparr>els := [], deleted := [], h7 := [], indexes := []\<rparr>"

section \<open>One bin\<close>

text \<open>
  The allocation of the arrays of a new bin, the \<open>memset\<close> of its tags before a split, and the
  reallocation of its tags and indices.
\<close>

definition ixht0_init_bin :: "u32 \<Rightarrow> 'e ebin_ixht0 option" where
  "ixht0_init_bin els_size =
     do {
       let del_bytes = (els_size + 7) div 8;
       let indexes_size = 2 * els_size;
       hs \<leftarrow> store_bytes (replicate (unat indexes_size) None) 0 (replicate (unat indexes_size) IXHT0_EMPTY_H7);
       Some \<lparr>depth = None, hash_mask = None, els_start = 0, els_bound = 0, els = replicate (unat els_size) None,
         deleted = replicate (unat del_bytes) 0, groups_mask = indexes_size div IXHT_GROUP_SIZE - 1,
         h7 = hs, indexes = replicate (unat indexes_size) None\<rparr>
     }"

definition ixht0_clear_tags :: "'e ebin_ixht0 \<Rightarrow> 'e ebin_ixht0 option" where
  "ixht0_clear_tags b =
     do {
       let indexes_size = (groups_mask b + 1) * IXHT_GROUP_SIZE;
       hs \<leftarrow> store_bytes (h7 b) 0 (replicate (unat indexes_size) IXHT0_EMPTY_H7);
       Some (b\<lparr>h7 := hs\<rparr>)
     }"

definition ixht0_regroup :: "u32 \<Rightarrow> 'e ebin_ixht0 \<Rightarrow> 'e ebin_ixht0 option" where
  "ixht0_regroup indexes_size b =
     do {
       hs \<leftarrow> store_bytes (realloc_els (h7 b) (unat indexes_size)) 0 (replicate (unat indexes_size) IXHT0_EMPTY_H7);
       Some (b\<lparr>h7 := hs, indexes := realloc_els (indexes b) (unat indexes_size),
         groups_mask := indexes_size div IXHT_GROUP_SIZE - 1\<rparr>)
     }"

definition ixht0_slot :: "u32 \<Rightarrow> nat \<Rightarrow> u32" where
  "ixht0_slot group_ind slot_bit = group_ind * IXHT_GROUP_SIZE + of_nat slot_bit"

text \<open>
  The inner \<open>while (mmask)\<close> loop over the arrays of indices and elements: the first slot of the mask
  that is not deleted and whose element is equal to \<open>*el\<close>, with its element index, and the value of
  \<open>first_deleted_slot\<close>.
\<close>

function ixht0_scan :: "platform \<Rightarrow> ('e \<Rightarrow> 'e \<Rightarrow> bool) \<Rightarrow> u16 option list \<Rightarrow> 'e option list \<Rightarrow> u32 \<Rightarrow> 'e \<Rightarrow> u64 \<Rightarrow> u32 \<Rightarrow>
    ((nat \<times> u16) option \<times> u32) option" where
  "ixht0_scan P Eq ixs xs group_ind el mmask first_deleted_slot =
     (if mmask = 0 then Some (None, first_deleted_slot)
      else do {
        let slot_bit = first_slot (IXHT0_MASK_SCALE P) mmask;
        let slot_ind = ixht0_slot group_ind slot_bit;
        el_ind \<leftarrow> read_el ixs (unat slot_ind);
        if el_ind = IXHT0_INDEX_DELETED
        then ixht0_scan P Eq ixs xs group_ind el (mmask AND (mmask - 1))
          (if first_deleted_slot = NOT 0 then slot_ind else first_deleted_slot)
        else do {
          e \<leftarrow> read_el xs (unat el_ind);
          if Eq e el then Some (Some (slot_bit, el_ind), first_deleted_slot)
          else ixht0_scan P Eq ixs xs group_ind el (mmask AND (mmask - 1)) first_deleted_slot
        }
      })"
  by pat_completeness auto
termination
  by (relation "measure (\<lambda>(P, Eq, ixs, xs, group_ind, el, mmask, first_deleted_slot). unat mmask)")
    (auto intro: and_pred_less)

declare ixht0_scan.simps [simp del]

text \<open>
  One round of the outer \<open>for (;;)\<close> loop, up to its returns or the next \<open>group_ind\<close>, over the fields of
  the bin it reads: the tags, the indices, the elements and the group mask. Its state and its result
  carry \<open>first_deleted_slot\<close>.
\<close>

definition ixht0_probe_step :: "platform \<Rightarrow> ('e \<Rightarrow> 'e \<Rightarrow> bool) \<Rightarrow> cells \<times> u16 option list \<times> 'e option list \<times> u32 \<Rightarrow> u8 \<Rightarrow> 'e \<Rightarrow>
    u32 \<times> u32 \<Rightarrow> ((u32 \<times> u32) + (outcome \<times> u32)) option" where
  "ixht0_probe_step P Eq arrays h7_val el state =
     do {
       let (hs, ixs, xs, gmask) = arrays;
       let (group_ind, first_deleted_slot) = state;
       let group_h7 = unat (group_ind * IXHT_GROUP_SIZE);
       group \<leftarrow> ixht0_group_load P hs group_h7;
       (found, first_deleted_slot) \<leftarrow>
         ixht0_scan P Eq ixs xs group_ind el (ixht0_match_mask group h7_val) first_deleted_slot;
       case found of
         Some (slot_bit, el_ind) \<Rightarrow>
           Some (Inr (Matched (unat group_ind) slot_bit (unat el_ind), first_deleted_slot))
       | None \<Rightarrow>
           (let emask = ixht0_match_empty group
            in if emask \<noteq> 0
               then Some (Inr (Vacant (unat group_ind) (first_slot (IXHT0_MASK_SCALE P) emask), first_deleted_slot))
               else Some (Inl ((group_ind + 1) AND gmask, first_deleted_slot)))
     }"

partial_function (option) ixht0_probe :: "platform \<Rightarrow> ('e \<Rightarrow> 'e \<Rightarrow> bool) \<Rightarrow> cells \<times> u16 option list \<times> 'e option list \<times> u32 \<Rightarrow> u8 \<Rightarrow> 'e \<Rightarrow>
    u32 \<times> u32 \<Rightarrow> (outcome \<times> u32) option" where
  "ixht0_probe P Eq arrays h7_val el state =
     (case ixht0_probe_step P Eq arrays h7_val el state of
        None \<Rightarrow> None
      | Some (Inl state') \<Rightarrow> ixht0_probe P Eq arrays h7_val el state'
      | Some (Inr r) \<Rightarrow> Some r)"

definition ixht0_do_1 :: "platform \<Rightarrow> ('e \<Rightarrow> 'e \<Rightarrow> bool) \<Rightarrow> u32 \<Rightarrow> 'e ebin_ixht0 \<Rightarrow> u64 \<Rightarrow> 'e \<Rightarrow> action \<Rightarrow>
    (bool \<times> nat option \<times> u32 \<times> 'e ebin_ixht0) option" where
  "ixht0_do_1 P Eq num b hash el action =
     do {
       let h7_val = h7_of hash;
       (r, first_deleted_slot) \<leftarrow> ixht0_probe P Eq (h7 b, indexes b, els b, groups_mask b) h7_val el
         (ucast (hash div IXHT_GROUP_SIZE) AND groups_mask b, NOT 0);
       case r of
         Matched group_ind slot_bit el_ind \<Rightarrow>
           if action \<noteq> IXHT_DELETE then Some (True, Some el_ind, num, b)
           else do {
             d \<leftarrow> del_set (deleted b) el_ind;
             ix \<leftarrow> write_el (indexes b) (unat (ixht0_slot (of_nat group_ind) slot_bit)) IXHT0_INDEX_DELETED;
             Some (True, None, num - 1, b\<lparr>deleted := d, indexes := ix\<rparr>)
           }
       | Vacant group_ind slot_bit \<Rightarrow>
           if action \<ge> IXHT_INSERT then do {
             let slot_ind = (if first_deleted_slot \<noteq> NOT 0 then first_deleted_slot
                             else ixht0_slot (of_nat group_ind) slot_bit);
             hs \<leftarrow> store_bytes (h7 b) (unat slot_ind) [h7_val];
             ix \<leftarrow> write_el (indexes b) (unat slot_ind) (ucast (els_bound b));
             Some (False, Some (unat (els_bound b)), num + 1,
               b\<lparr>h7 := hs, indexes := ix, els_bound := els_bound b + 1\<rparr>)
           }
           else Some (False, None, num, b)
     }"

section \<open>The table\<close>

text \<open>The directory code of \<open>Ix_Table\<close> over these bins.\<close>

definition ixht0_ops :: "platform \<Rightarrow> ('e \<Rightarrow> u64) \<Rightarrow> ('e \<Rightarrow> 'e \<Rightarrow> bool) \<Rightarrow>
    ('e, \<lparr>h7 :: cells, indexes :: u16 option list\<rparr>) ix_ops" where
  "ixht0_ops P Hash Eq = \<lparr>key_hash = Hash, bin_do_1 = ixht0_do_1 P Eq, bin_init = ixht0_init_bin,
     bin_clear = ixht0_clear_tags, bin_regroup = ixht0_regroup\<rparr>"

definition ixht0_get_params :: "u64 \<Rightarrow> u64 \<times> u64 \<times> u64" where
  "ixht0_get_params = ix_get_params"

definition ixht0_create_bin :: "platform \<Rightarrow> ('e \<Rightarrow> u64) \<Rightarrow> ('e \<Rightarrow> 'e \<Rightarrow> bool) \<Rightarrow> 'e ixht0 \<Rightarrow> u32 \<Rightarrow> (u32 \<times> 'e ixht0) option" where
  "ixht0_create_bin P Hash Eq = ix_create_bin (ixht0_ops P Hash Eq)"

definition ixht0_split_bin :: "platform \<Rightarrow> ('e \<Rightarrow> u64) \<Rightarrow> ('e \<Rightarrow> 'e \<Rightarrow> bool) \<Rightarrow> 'e ixht0 \<Rightarrow> u32 \<Rightarrow> 'e ixht0 option" where
  "ixht0_split_bin P Hash Eq = ix_split_bin (ixht0_ops P Hash Eq)"

definition ixht0_create :: "platform \<Rightarrow> ('e \<Rightarrow> u64) \<Rightarrow> ('e \<Rightarrow> 'e \<Rightarrow> bool) \<Rightarrow> u32 \<Rightarrow> 'e ixht0 option" where
  "ixht0_create P Hash Eq = ix_create (ixht0_ops P Hash Eq)"

definition ixht0_destroy :: "'e ixht0 \<Rightarrow> 'e ixht0 option" where
  "ixht0_destroy = ix_destroy ixht0_destroy_bin"

definition ixht0_perform :: "platform \<Rightarrow> ('e \<Rightarrow> u64) \<Rightarrow> ('e \<Rightarrow> 'e \<Rightarrow> bool) \<Rightarrow> 'e ixht0 \<Rightarrow> 'e \<Rightarrow> action \<Rightarrow>
    (bool \<times> el_ptr option \<times> 'e ixht0) option" where
  "ixht0_perform P Hash Eq = ix_perform (ixht0_ops P Hash Eq)"

definition ixht0_els_count :: "'e ixht0 \<Rightarrow> u32" where
  "ixht0_els_count = ix_els_count"

definition ixht0_iter_advance :: "'e ixht0 \<Rightarrow> ix_iter \<Rightarrow> ix_iter option" where
  "ixht0_iter_advance = ix_iter_advance"

definition ixht0_iter_begin :: "'e ixht0 \<Rightarrow> ix_iter option" where
  "ixht0_iter_begin = ix_iter_begin"

definition ixht0_iter_valid :: "ix_iter \<Rightarrow> bool" where
  "ixht0_iter_valid = ix_iter_valid"

definition ixht0_iter_next :: "'e ixht0 \<Rightarrow> ix_iter \<Rightarrow> ix_iter option" where
  "ixht0_iter_next = ix_iter_next"

section \<open>Client code\<close>

definition ixht0_step :: "platform \<Rightarrow> ('e \<Rightarrow> u64) \<Rightarrow> ('e \<Rightarrow> 'e \<Rightarrow> bool) \<Rightarrow> 'e ixht0 \<Rightarrow> 'e cmd \<Rightarrow> ('e reply \<times> 'e ixht0) option" where
  "ixht0_step P Hash Eq = client_step (\<lambda>t e. ixht0_perform P Hash Eq t e IXHT_FIND)
     (\<lambda>t e. ixht0_perform P Hash Eq t e IXHT_DELETE) (\<lambda>t e. ixht0_perform P Hash Eq t e IXHT_INSERT) ix_store ix_load"

definition ixht0_iterate :: "'e ixht0 \<Rightarrow> 'e list option" where
  "ixht0_iterate t =
     do {
       it \<leftarrow> ixht0_iter_begin t;
       client_iterate ixht0_iter_valid (\<lambda>it. ix_load t (ptr it)) (ixht0_iter_next t) it
     }"

end
