(* ===== verification/Ixhtab_v0_Correct.thy ===== *)
theory Ixhtab_v0_Correct
  imports Ihtab_v0_Correct Ix_Split Ix_Forward Ixhtab_v0
begin

text \<open>
  Correctness of the bins of \<open>ixhtab-v0.h\<close>, which scan groups as \<open>ihtab-v0.h\<close> does: their operations
  satisfy the interface \<open>ix_bins\<close> of an extendible table.
\<close>

section \<open>Group scans\<close>

lemma ixht0_match_mask_eq: "ixht0_match_mask g h = iht0_match_mask g h"
  by (cases g) (simp_all only: ixht0_match_mask.simps iht0_match_mask.simps ucast_low_byte ucast_byte_twice Let_def)

lemma movemask_marked: "(ucast (mm_movemask_epi8 g) AND 0xff :: u64) = ucast (mm_movemask_epi8 (mm_and_si128 g (mm_set1_epi8 0x80))) AND 0xff"
proof (rule bit_word_eqI)
  fix n
  have "bit (mm_set1_epi8 0x80) (8 * n + 7)" if "n < 8"
    using that by (simp add: mm_set1_epi8_def bit_le_word)
  moreover have "bit (ucast (mm_movemask_epi8 g) AND 0xff :: u64) n \<longleftrightarrow> n < 8 \<and> bit g (8 * n + 7)"
    unfolding bit_and_iff bit_0xff by (auto simp: bit_simps bit_movemask)
  ultimately show "bit (ucast (mm_movemask_epi8 g) AND 0xff :: u64) n =
      bit (ucast (mm_movemask_epi8 (mm_and_si128 g (mm_set1_epi8 0x80))) AND 0xff :: u64) n"
    unfolding sse2_top_bits by blast
qed

lemma ixht0_match_empty_eq: "ixht0_match_empty g = iht0_match_empty g"
proof (cases g)
  case (SSE2_group x)
  show ?thesis
    unfolding SSE2_group ixht0_match_empty.simps iht0_match_empty.simps ucast_low_byte Let_def by (rule movemask_marked)
qed (simp_all only: ixht0_match_empty.simps iht0_match_empty.simps ixht0_match_mask_eq IXHT0_EMPTY_H7_def IHT0_EMPTY_H7_def)

lemma ixht0_group_load_eq: "ixht0_group_load P m p = map_option (iht0_group P) (load_word m p)"
  by (simp add: ixht0_group_load_def iht0_group_def [abs_def])

lemmas ixht0_scan_eqs = ixht0_match_mask_eq ixht0_match_empty_eq ixht0_group_load_eq IXHT0_MASK_SCALE_def IHT0_MASK_SCALE_def

lemma ixht0_mark: "IXHT0_INDEX_DELETED = - 1"
  unfolding IXHT0_INDEX_DELETED_def by code_simp

section \<open>Bins\<close>

abbreviation ixht0_arrays :: "'e ebin_ixht0 \<Rightarrow> 16 split" where
  "ixht0_arrays b \<equiv> (h7 b, indexes b)"

abbreviation ixht0_read :: "'e ebin_ixht0 \<Rightarrow> cells \<times> u16 option list \<times> 'e option list \<times> u32" where
  "ixht0_read b \<equiv> (h7 b, indexes b, els b, groups_mask b)"

definition ixht0_sized :: "nat \<Rightarrow> 'e ebin_ixht0 \<Rightarrow> bool" where
  "ixht0_sized k b \<longleftrightarrow> 1 \<le> k \<and> k \<le> 12 \<and> groups_mask b = 2 ^ k - 1 \<and> sp_wf (2 ^ k) (ixht0_arrays b) \<and>
     length (els b) = 4 * 2 ^ k \<and> length (deleted b) = (4 * 2 ^ k + 7) div 8"

definition ixht0_view :: "'e ebin_ixht0 \<Rightarrow> 'e view" where
  "ixht0_view b = \<lparr>ngroups = Suc (unat (groups_mask b)),
     slot = sp_slots (Suc (unat (groups_mask b))) (ixht0_arrays b),
     elem = read_el (els b), dead = del_bit (deleted b), bound = unat (els_bound b)\<rparr>"

definition ixht0_bin_inv :: "('e \<Rightarrow> u64) \<Rightarrow> ('e \<Rightarrow> 'e \<Rightarrow> bool) \<Rightarrow> nat \<Rightarrow> 'e ebin_ixht0 \<Rightarrow> bool" where
  "ixht0_bin_inv Hash Eq k b \<longleftrightarrow> ixht0_sized k b \<and> view_inv (ix_hash Hash) Eq (ixht0_view b) \<and>
     unat (els_bound b) \<le> 4 * 2 ^ k"

lemma ixht0_view_sel [view_simps]:
  assumes "ixht0_sized k b"
  shows "ngroups (ixht0_view b) = 2 ^ k" "slot (ixht0_view b) = sp_slots (2 ^ k) (ixht0_arrays b)"
    and "elem (ixht0_view b) = read_el (els b)" "dead (ixht0_view b) = del_bit (deleted b)"
    and "bound (ixht0_view b) = unat (els_bound b)"
  using assms by (simp_all add: ixht0_view_def ixht0_sized_def unat_bin_mask)

lemma ixht0_slot_eq:
  assumes "unat g < 2 ^ 12" "s < 8"
  shows "unat (ixht0_slot g s) = 8 * unat g + s" "unat (g * IXHT_GROUP_SIZE) = 8 * unat g" "ixht0_slot g s \<noteq> NOT 0"
proof -
  show u: "unat (g * IXHT_GROUP_SIZE) = 8 * unat g"
    using assms by (simp add: IXHT_GROUP_SIZE_def unat_mult_less)
  then show v: "unat (ixht0_slot g s) = 8 * unat g + s"
    using assms by (simp add: ixht0_slot_def unat_add_less unat_of_nat_less)
  have "unat (NOT 0 :: u32) = 2 ^ 32 - 1" by (simp add: unsigned_minus_1_eq_mask mask_eq_exp_minus_1)
  then show "ixht0_slot g s \<noteq> NOT 0" using v assms by auto
qed

lemma ixht0_slot_of_nat:
  assumes "k \<le> 12" "g < 2 ^ k" "s < 8"
  shows "unat (ixht0_slot (of_nat g) s) = 8 * g + s"
proof -
  have "unat (of_nat g :: u32) = g" using assms(2) pow2_le_12 [OF assms(1)] by (simp add: unat_of_nat_less)
  then show ?thesis using ixht0_slot_eq(1) [of "of_nat g" s] assms pow2_le_12 [OF assms(1)] by simp
qed

section \<open>Probing\<close>

interpretation ixht0_mask: tomb_loop "\<lambda>(Eq, ixs, xs, group_ind, el). ixht0_scan P Eq ixs xs group_ind el" "IXHT0_MASK_SCALE P"
    "\<lambda>(Eq, ixs, xs, group_ind, el) s. read_el ixs (unat (ixht0_slot group_ind s))" "\<lambda>i. i = IXHT0_INDEX_DELETED"
    "\<lambda>(Eq, ixs, xs, group_ind, el) i. do { e \<leftarrow> read_el xs (unat i); Some (Eq e el) }"
    "\<lambda>(Eq, ixs, xs, group_ind, el) s d. if d = NOT 0 then ixht0_slot group_ind s else d" for P
proof (unfold_locales, goal_cases)
  case (1 c m d)
  obtain Eq ixs xs g el where c: "c = (Eq, ixs, xs, g, el)" by (cases c)
  show ?case
    unfolding c prod.case by (subst ixht0_scan.simps) (simp add: Let_def split: Option.bind_splits)
qed

text \<open>The remembered slot: none yet, or a deleted one whose group the probe of \<open>hash\<close> reaches.\<close>

definition ixht0_seen :: "'e view \<Rightarrow> u64 \<Rightarrow> u32 \<Rightarrow> bool" where
  "ixht0_seen v hash d \<longleftrightarrow> d = NOT 0 \<or>
     (\<exists>g s. g < ngroups v \<and> s < 8 \<and> unat d = 8 * g + s \<and> slot v g s = Tomb \<and> clear_path v (home (ngroups v) hash) g)"

lemma ixht0_scan_result:
  assumes b: "ixht0_sized k b" "view_inv Hash Eq (ixht0_view b)" and h: "\<not> bit h 7"
    and g: "unat g < 2 ^ k" and w: "load_word (h7 b) (8 * unat g) = Some w"
    and path: "clear_path (ixht0_view b) (home (2 ^ k) hash) (unat g)" and d: "ixht0_seen (ixht0_view b) hash d"
  shows "\<exists>d'. ixht0_scan P Eq (indexes b) (els b) g el (iht0_match_mask (iht0_group P w) h) d =
    Some (map_option (\<lambda>s. (s, the (read_el (indexes b) (8 * unat g + s))))
      (List.find (sp_eq (ixht0_arrays b) (ixht0_view b) (\<lambda>e. Eq e el) (unat g)) (iht0_hits P w h)), d') \<and>
    ixht0_seen (ixht0_view b) hash d'"
proof -
  let ?v = "ixht0_view b" and ?m = "iht0_match_mask (iht0_group P w) h"
  let ?f = "\<lambda>s. the (read_el (indexes b) (8 * unat g + s))"
  let ?p = "\<lambda>s. Eq (the (elem ?v (unat (?f s)))) el"
  let ?c = "(Eq, indexes b, els b, g, el)"
  note v = ixht0_view_sel [OF b(1)]
  have g12: "unat g < 2 ^ 12" using b(1) g pow2_le_12 [of k] by (simp add: ixht0_sized_def)
  have wf: "sp_wf (2 ^ k) (ixht0_arrays b)" using b(1) by (simp add: ixht0_sized_def)
  have hit: "s < 8 \<and> (\<exists>i. read_el (indexes b) (8 * unat g + s) = Some i \<and>
      (if i = - 1 then slot ?v (unat g) s = Tomb else \<exists>e. elem ?v (unat i) = Some e))"
    if "s \<in> set (mask_slots (IXHT0_MASK_SCALE P) ?m)" for s
    using sp_hit [OF iht0_scan.group_engine_axioms [of P] wf g v(1,2) b(2) _ h, of w s] w that
    by (auto simp: iht0_hits_def ixht0_scan_eqs split: if_splits)
  have "\<exists>d'. (\<lambda>(Eq, ixs, xs, group_ind, el). ixht0_scan P Eq ixs xs group_ind el) ?c ?m d =
      Some (map_option (\<lambda>s. (s, ?f s))
        (List.find (\<lambda>s. \<not> ?f s = IXHT0_INDEX_DELETED \<and> ?p s) (mask_slots (IXHT0_MASK_SCALE P) ?m)), d') \<and>
      ixht0_seen ?v hash d'"
  proof (rule ixht0_mask.scan_find [where c = ?c and f = ?f and p = ?p and Q = "ixht0_seen ?v hash", OF _ _ d])
    fix s
    assume s: "s \<in> set (mask_slots (IXHT0_MASK_SCALE P) ?m)"
    then have s8: "s < 8" using hit by blast
    note u = ixht0_slot_eq [OF g12 s8]
    show "(case ?c of (Eq, ixs, xs, group_ind, el) \<Rightarrow> \<lambda>s. read_el ixs (unat (ixht0_slot group_ind s))) s =
        Some (?f s) \<and> (\<not> ?f s = IXHT0_INDEX_DELETED \<longrightarrow>
        (case ?c of (Eq, ixs, xs, group_ind, el) \<Rightarrow> \<lambda>i. do { e \<leftarrow> read_el xs (unat i); Some (Eq e el) }) (?f s) =
        Some (?p s))"
      using hit [OF s] u by (auto simp: ixht0_mark v split: if_splits)
    fix d
    assume f: "?f s = IXHT0_INDEX_DELETED" and Q: "ixht0_seen ?v hash d"
    have "slot ?v (unat g) s = Tomb" using hit [OF s] f by (auto simp: ixht0_mark)
    then have "ixht0_seen ?v hash (ixht0_slot g s)" using s8 g path u(1) by (auto simp: ixht0_seen_def v(1))
    then show "ixht0_seen ?v hash ((case ?c of (Eq, ixs, xs, group_ind, el) \<Rightarrow>
        \<lambda>s d. if d = NOT 0 then ixht0_slot group_ind s else d) s d)"
      using Q by simp
  qed
  then show ?thesis by (simp add: iht0_hits_def sp_eq_def [abs_def] ixht0_mark IXHT0_MASK_SCALE_def IHT0_MASK_SCALE_def)
qed

lemma ixht0_probe_step_scans:
  assumes b: "ixht0_sized k b" "view_inv Hash Eq (ixht0_view b)" and h: "\<not> bit h 7"
    and g: "unat g < ngroups (ixht0_view b)"
    and path: "clear_path (ixht0_view b) (home (2 ^ k) hash) (unat g)" and d: "ixht0_seen (ixht0_view b) hash d"
  shows "\<exists>r. ixht0_probe_step P Eq (ixht0_read b) h el (g, d) = Some r \<and>
    scan_ok (ixht0_view b) h (\<lambda>e. Eq e el) (unat g) (map_sum (\<lambda>(g, d). unat g) fst r) \<and>
    (case r of Inl (g, d) \<Rightarrow> clear_path (ixht0_view b) (home (2 ^ k) hash) (unat g) \<and> ixht0_seen (ixht0_view b) hash d
     | Inr (o', d) \<Rightarrow> ixht0_seen (ixht0_view b) hash d)"
proof -
  let ?v = "ixht0_view b" and ?a = "ixht0_arrays b"
  note v = ixht0_view_sel [OF b(1)]
  have k: "k \<le> 12" "groups_mask b = 2 ^ k - 1" using b(1) by (simp_all add: ixht0_sized_def)
  have wf: "sp_wf (2 ^ k) ?a" "unat g < 2 ^ k" using b(1) g v by (simp_all add: ixht0_sized_def)
  have g12: "unat g < 2 ^ 12" using wf(2) pow2_le_12 [OF k(1)] by simp
  note base = ixht0_slot_eq(2) [OF g12, of 0, simplified]
  obtain w where w: "load_word (h7 b) (8 * unat g) = Some (w :: u64)"
    using sp_group_load [OF wf] by auto
  let ?M = "\<lambda>e. Eq e el" and ?f = "\<lambda>s. the (read_el (indexes b) (8 * unat g + s))"
  let ?found = "List.find (sp_eq ?a ?v ?M (unat g)) (iht0_hits P w h)"
  have w': "load_word (fst ?a) (8 * unat g) = Some w" using w by simp
  note sp = sp_scan [OF iht0_scan.group_engine_axioms [of P] wf v(1,2) b(2) w' h]
  obtain d' where d': "ixht0_scan P Eq (indexes b) (els b) g el (iht0_match_mask (iht0_group P w) h) d =
      Some (map_option (\<lambda>s. (s, ?f s)) ?found, d')" "ixht0_seen ?v hash d'"
    using ixht0_scan_result [OF b h wf(2) w path d] by blast
  have step: "ixht0_probe_step P Eq (ixht0_read b) h el (g, d) = (case ?found of
      Some s \<Rightarrow> Some (Inr (Matched (unat g) s (unat (?f s)), d'))
    | None \<Rightarrow> (case iht0_empties P w of [] \<Rightarrow> Some (Inl ((g + 1) AND groups_mask b, d'))
        | s # _ \<Rightarrow> Some (Inr (Vacant (unat g) s, d'))))"
    using w d'(1) mask_slots_Cons [of "iht0_match_empty (iht0_group P w)" "IHT0_MASK_SCALE P"]
    by (auto simp: ixht0_probe_step_def base ixht0_scan_eqs Let_def iht0_empties_def split: option.splits)
  show ?thesis
  proof (cases ?found)
    case (Some s)
    then show ?thesis using step sp(1) [OF Some] d'(2) by simp
  next
    case None
    note next_group = bin_next_group [OF k(1) wf(2)]
    show ?thesis
    proof (cases "iht0_empties P w")
      case Nil
      have pass: "scan_ok ?v h ?M (unat g) (Inl (Suc (unat g) mod 2 ^ k))" by (rule sp(3) [OF None Nil])
      have "home (2 ^ k) hash < ngroups ?v" by (simp add: v(1) home_less)
      then have "clear_path ?v (home (2 ^ k) hash) (Suc (unat g) mod 2 ^ k)"
        using clear_path_next [OF path _ _ g] pass v(1) by simp
      then show ?thesis using step None Nil pass next_group k(2) d'(2) by simp
    next
      case (Cons s ss)
      then show ?thesis using step None sp(2) [OF None Cons] d'(2) by simp
    qed
  qed
qed

interpretation ixht0_loop: probing "\<lambda>(k, Hash, Eq, b, h, el). ixht0_probe_step P Eq (ixht0_read b) h el"
    "\<lambda>(k, Hash, Eq, b, h, el). ixht0_probe P Eq (ixht0_read b) h el"
    "\<lambda>(k, Hash, Eq, b, h, el). ixht0_sized k b \<and> view_inv Hash Eq (ixht0_view b) \<and> \<not> bit h 7"
    "\<lambda>(k, Hash, Eq, b, h, el). ixht0_view b" "\<lambda>(k, Hash, Eq, b, h, el). h"
    "\<lambda>(k, Hash, Eq, b, h, el) e. Eq e el" "\<lambda>(g, d). unat g" fst
    "\<lambda>(k, Hash, Eq, b, h, el) (g, d). clear_path (ixht0_view b) (home (2 ^ k) (Hash el)) (unat g) \<and>
       ixht0_seen (ixht0_view b) (Hash el) d"
    "\<lambda>(k, Hash, Eq, b, h, el) (o', d). ixht0_seen (ixht0_view b) (Hash el) d" for P
proof (unfold_locales, goal_cases)
  case (1 c s)
  obtain k Hash Eq b h el where c: "c = (k, Hash, Eq, b, h, el)" by (cases c)
  show ?case unfolding c prod.case by (rule ixht0_probe.simps)
next
  case (2 c s)
  obtain k Hash Eq b h el where c: "c = (k, Hash, Eq, b, h, el)" by (cases c)
  obtain g d where s: "s = (g, d)" by (cases s)
  show ?case
    using 2 ixht0_probe_step_scans [of k b Hash Eq h g "Hash el" d P el] unfolding c s prod.case by simp
qed

section \<open>One bin\<close>

lemma ixht0_bin_invD:
  assumes "ixht0_bin_inv Hash Eq k b"
  shows "ixht0_sized k b" "view_inv (ix_hash Hash) Eq (ixht0_view b)" "unat (els_bound b) < 8 * 2 ^ k"
    "unat (els_bound b) \<le> 4 * 2 ^ k" "k \<le> 12" "groups_mask b = 2 ^ k - 1" "1 \<le> k"
  using assms by (auto simp: ixht0_bin_inv_def ixht0_sized_def intro: le_less_trans)

lemma ixht0_view_eqI:
  assumes "ixht0_sized k b'"
    and "slot w = sp_slots (2 ^ k) (ixht0_arrays b')" "ngroups w = 2 ^ k"
    and "elem w = read_el (els b')" "dead w = del_bit (deleted b')" "bound w = unat (els_bound b')"
  shows "ixht0_view b' = w"
  using assms by (intro view.equality) (simp_all add: ixht0_view_sel [OF assms(1)])

abbreviation ixht0_probe_bin :: "platform \<Rightarrow> ('e \<Rightarrow> u64) \<Rightarrow> ('e \<Rightarrow> 'e \<Rightarrow> bool) \<Rightarrow> 'e ebin_ixht0 \<Rightarrow> 'e \<Rightarrow> (outcome \<times> u32) option" where
  "ixht0_probe_bin P Hash Eq b el \<equiv> ixht0_probe P Eq (ixht0_read b) (h7_of (ix_hash Hash el)) el
     (ucast (ix_hash Hash el div IXHT_GROUP_SIZE) AND groups_mask b, NOT 0)"

lemma ixht0_probe_ends:
  assumes hk: "hash_key Hash Eq" and inv: "ixht0_bin_inv Hash Eq k b"
  shows "\<exists>r d. ixht0_probe_bin P Hash Eq b el = Some (r, d) \<and> probe_ok (ix_hash Hash) Eq (ixht0_view b) el r \<and>
    ixht0_seen (ixht0_view b) (ix_hash Hash el) d"
proof -
  let ?v = "ixht0_view b" and ?h = "ix_hash Hash el"
  note d = ixht0_bin_invD [OF inv]
  note v = ixht0_view_sel [OF d(1)]
  have start: "unat (ucast (?h div IXHT_GROUP_SIZE) AND groups_mask b) = home (2 ^ k) ?h"
    unfolding d(6) by (rule bin_home [OF d(5)])
  have "clear_path ?v (home (2 ^ k) ?h) (home (2 ^ k) ?h)"
    by (rule clear_path_refl) (simp add: v(1) home_less)
  moreover have "ixht0_seen ?v ?h (NOT 0)" by (simp add: ixht0_seen_def)
  ultimately show ?thesis
    using ixht0_loop.probe_correct [OF hash_key_ix [OF hk], of "(k, ix_hash Hash, Eq, b, h7_of ?h, el)" el
        "(ucast (?h div IXHT_GROUP_SIZE) AND groups_mask b, NOT 0)" P] d(1-3) start
    by (auto simp: h7_of_top_clear v)
qed

text \<open>Where the probe ends and, for an absent key, where an insertion puts the element.\<close>

lemma ixht0_probe_cases:
  assumes hk: "hash_key Hash Eq" and inv: "ixht0_bin_inv Hash Eq k b"
  shows "(\<exists>g s t i x d. g < 2 ^ k \<and> s < 8 \<and> slot (ixht0_view b) g s = Full t i \<and> live (ixht0_view b) i \<and>
      elem (ixht0_view b) i = Some x \<and> Eq x el \<and> ixht0_probe_bin P Hash Eq b el = Some (Matched g s i, d)) \<or>
    (\<forall>x \<in> set (contents (ixht0_view b)). \<not> Eq x el) \<and>
    (\<exists>g0 s0 d g s. ixht0_probe_bin P Hash Eq b el = Some (Vacant g0 s0, d) \<and>
      g < 2 ^ k \<and> s < 8 \<and> unat (if d \<noteq> NOT 0 then d else ixht0_slot (of_nat g0) s0) = 8 * g + s \<and>
      slot (ixht0_view b) g s \<in> {Empty, Tomb} \<and> clear_path (ixht0_view b) (home (2 ^ k) (ix_hash Hash el)) g)"
proof -
  note i = ixht0_bin_invD [OF inv]
  note v = ixht0_view_sel [OF i(1)]
  obtain r d where r: "ixht0_probe_bin P Hash Eq b el = Some (r, d)" "probe_ok (ix_hash Hash) Eq (ixht0_view b) el r"
      "ixht0_seen (ixht0_view b) (ix_hash Hash el) d"
    using ixht0_probe_ends [OF hk inv] by blast
  show ?thesis
  proof (cases r)
    case (Matched g s i')
    then show ?thesis
      using r view_inv_full [OF i(2), of g s _ i'] v(1) unfolding Matched probe_ok.simps by metis
  next
    case (Vacant g0 s0)
    have g0: "g0 < 2 ^ k" "s0 < 8" "slot (ixht0_view b) g0 s0 = Empty"
        "clear_path (ixht0_view b) (home (2 ^ k) (ix_hash Hash el)) g0"
        "\<forall>x \<in> set (contents (ixht0_view b)). \<not> Eq x el"
      using r(2) Vacant v(1) in_contents_iff [OF i(2)] by auto
    have "\<exists>g s. g < 2 ^ k \<and> s < 8 \<and> unat (if d \<noteq> NOT 0 then d else ixht0_slot (of_nat g0) s0) = 8 * g + s \<and>
        slot (ixht0_view b) g s \<in> {Empty, Tomb} \<and> clear_path (ixht0_view b) (home (2 ^ k) (ix_hash Hash el)) g"
      using r(3) g0 v(1) ixht0_slot_of_nat [OF i(5) g0(1,2)] unfolding ixht0_seen_def by (cases "d = NOT 0") auto
    then show ?thesis using r(1) Vacant g0(5) by blast
  qed
qed

lemma ixht0_do_1_present:
  assumes hk: "hash_key Hash Eq" and inv: "ixht0_bin_inv Hash Eq k b"
    and y: "y \<in> set (contents (ixht0_view b))" "Eq y el"
  shows "\<exists>i x. live (ixht0_view b) i \<and> elem (ixht0_view b) i = Some x \<and> Eq x el \<and>
    (\<forall>a. a \<noteq> DELETE \<longrightarrow> ixht0_do_1 P Eq num b (ix_hash Hash el) el a = Some (True, Some i, num, b)) \<and>
    (\<exists>b'. ixht0_do_1 P Eq num b (ix_hash Hash el) el DELETE = Some (True, None, num - 1, b') \<and>
      ixht0_bin_inv Hash Eq k b' \<and> head b' = head b \<and>
      contents (ixht0_view b') = filter (\<lambda>x. \<not> Eq x el) (contents (ixht0_view b)))"
proof -
  note d = ixht0_bin_invD [OF inv]
  note v = ixht0_view_sel [OF d(1)]
  obtain g s t i x fds where r: "g < 2 ^ k" "s < 8" "slot (ixht0_view b) g s = Full t i" "live (ixht0_view b) i"
      "elem (ixht0_view b) i = Some x" "Eq x el" "ixht0_probe_bin P Hash Eq b el = Some (Matched g s i, fds)"
    using ixht0_probe_cases [OF hk inv, of el P] y by blast
  let ?w = "view_kill g s i (ixht0_view b)"
  have "i < 4 * 2 ^ k" using r(4) d(4) by (simp add: live_def v)
  from del_bytes_cover [OF this] have "i div 8 < length (deleted b)" using d(1) by (simp add: ixht0_sized_def)
  then obtain ds where ds: "del_set (deleted b) i = Some ds" by (simp add: del_set_def)
  obtain m where m: "sp_kill (ixht0_arrays b) g s = Some m" "sp_wf (2 ^ k) m" "sp_slots (2 ^ k) m = slot ?w"
    using sp16.kill_view [OF _ r(1-3)] d(1) v(1,2) unfolding sp_slots_def ixht0_sized_def by blast
  obtain ix where ix: "write_el (indexes b) (8 * g + s) (- 1) = Some ix" "m = (h7 b, ix)"
    using m(1) by (auto simp: sp_kill_def bind_eq_Some_conv)
  let ?b = "b\<lparr>deleted := ds, indexes := ix\<rparr>"
  have sized: "ixht0_sized k ?b"
    using d(1) m(2) ix(2) del_set_props(1) [OF ds] by (simp add: ixht0_sized_def)
  have view: "ixht0_view ?b = ?w"
    by (rule ixht0_view_eqI [OF sized])
      (use m(3) ix(2) in \<open>auto simp: v view_simps fun_eq_iff del_set_props(2) [OF ds]\<close>)
  have "ixht0_do_1 P Eq num b (ix_hash Hash el) el DELETE = Some (True, None, num - 1, ?b)"
    using r(7) ds ix(1) by (simp add: ixht0_do_1_def Let_def ixht0_slot_of_nat [OF d(5) r(1,2)] ixht0_mark)
  moreover have "ixht0_bin_inv Hash Eq k ?b"
    using view_kill_inv [OF d(2) _ r(2,3)] r(1) v(1) sized view d(4) by (simp add: ixht0_bin_inv_def)
  moreover have "contents (ixht0_view ?b) = filter (\<lambda>x. \<not> Eq x el) (contents (ixht0_view b))"
    unfolding view by (rule contents_kill [OF hash_key_ix [OF hk] d(2) r(4-6)])
  moreover have "ixht0_do_1 P Eq num b (ix_hash Hash el) el a = Some (True, Some i, num, b)" if "a \<noteq> DELETE" for a
    using r(7) that by (simp add: ixht0_do_1_def Let_def)
  moreover have "head ?b = head b" by (simp add: head_def)
  ultimately show ?thesis using r(4-6) by blast
qed

lemma ixht0_put_bin:
  assumes inv: "ixht0_bin_inv Hash Eq k b" and at: "g < 2 ^ k" "s < 8" and h: "\<not> bit h 7"
    and room: "unat (els_bound b) < 4 * 2 ^ k"
  shows "\<exists>hs ix. store_bytes (h7 b) (8 * g + s) [h] = Some hs \<and>
    write_el (indexes b) (8 * g + s) (ucast (els_bound b) :: u16) = Some ix \<and>
    unat (els_bound b + 1) = Suc (unat (els_bound b)) \<and>
    (\<forall>xs. write_el (els b) (unat (els_bound b)) e = Some xs \<longrightarrow>
      ixht0_sized k (b\<lparr>h7 := hs, indexes := ix, els_bound := els_bound b + 1, els := xs\<rparr>) \<and>
      ixht0_view (b\<lparr>h7 := hs, indexes := ix, els_bound := els_bound b + 1, els := xs\<rparr>) =
        view_put g s h e (ixht0_view b))"
proof -
  note d = ixht0_bin_invD [OF inv]
  note v = ixht0_view_sel [OF d(1)]
  let ?w = "view_put g s h e (ixht0_view b)"
  have small: "unat (els_bound b) < 2 ^ 16 - 1" using room pow2_le_12 [OF d(5)] by simp
  obtain m where m: "sp_fill (ixht0_arrays b) g s h (bound (ixht0_view b)) = Some m"
      "sp_wf (2 ^ k) m" "sp_slots (2 ^ k) m = slot ?w"
    using sp16.fill_view [OF _ at h, of "ixht0_arrays b" "ixht0_view b" e] d(1) v small
    unfolding sp_slots_def ixht0_sized_def by auto
  have "(of_nat (unat (els_bound b)) :: u16) = ucast (els_bound b)" by simp
  then obtain hs ix where st: "store_bytes (h7 b) (8 * g + s) [h] = Some hs"
      "write_el (indexes b) (8 * g + s) (ucast (els_bound b) :: u16) = Some ix" "m = (hs, ix)"
    using m(1) by (auto simp: sp_fill_def v bind_eq_Some_conv)
  let ?b = "\<lambda>xs. b\<lparr>h7 := hs, indexes := ix, els_bound := els_bound b + 1, els := xs\<rparr>"
  have bound: "unat (els_bound b + 1) = Suc (unat (els_bound b))"
    using small by (subst unat_add_less) simp_all
  have "ixht0_sized k (?b xs) \<and> ixht0_view (?b xs) = ?w"
    if xs: "write_el (els b) (unat (els_bound b)) e = Some xs" for xs
  proof
    show sized: "ixht0_sized k (?b xs)"
      using d(1) m(2) st(3) length_write_el [OF xs] by (simp add: ixht0_sized_def)
    show "ixht0_view (?b xs) = ?w"
      by (rule ixht0_view_eqI [OF sized])
        (use m(3) st(3) in \<open>auto simp: v view_simps fun_eq_iff bound read_write_el [OF xs]\<close>)
  qed
  then show ?thesis using st(1,2) bound by blast
qed

lemma ixht0_do_1_absent:
  assumes hk: "hash_key Hash Eq" and inv: "ixht0_bin_inv Hash Eq k b"
    and absent: "\<forall>x \<in> set (contents (ixht0_view b)). \<not> Eq x el"
  shows "a < INSERT \<Longrightarrow> ixht0_do_1 P Eq num b (ix_hash Hash el) el a = Some (False, None, num, b)"
    and "unat (els_bound b) < 4 * 2 ^ k \<Longrightarrow>
      \<exists>b'. ixht0_do_1 P Eq num b (ix_hash Hash el) el INSERT = Some (False, Some (unat (els_bound b)), num + 1, b') \<and>
        head b' = head b \<and> els b' = els b \<and> deleted b' = deleted b \<and> unat (els_bound b') = Suc (unat (els_bound b)) \<and>
        (\<forall>xs. write_el (els b) (unat (els_bound b)) el = Some xs \<longrightarrow> ixht0_bin_inv Hash Eq k (b'\<lparr>els := xs\<rparr>) \<and>
          contents (ixht0_view (b'\<lparr>els := xs\<rparr>)) = contents (ixht0_view b) @ [el])"
proof -
  note d = ixht0_bin_invD [OF inv]
  note v = ixht0_view_sel [OF d(1)]
  obtain g0 s0 fds g s where r: "ixht0_probe_bin P Hash Eq b el = Some (Vacant g0 s0, fds)"
      "g < 2 ^ k" "s < 8" "unat (if fds \<noteq> NOT 0 then fds else ixht0_slot (of_nat g0) s0) = 8 * g + s"
      "slot (ixht0_view b) g s \<in> {Empty, Tomb}" "clear_path (ixht0_view b) (home (2 ^ k) (ix_hash Hash el)) g"
    using ixht0_probe_cases [OF hk inv, of el P] absent in_contents_iff [OF d(2)] by blast
  show "ixht0_do_1 P Eq num b (ix_hash Hash el) el a = Some (False, None, num, b)" if "a < INSERT"
    using r(1) that by (simp add: ixht0_do_1_def Let_def flip: not_less)
  assume room: "unat (els_bound b) < 4 * 2 ^ k"
  let ?w = "view_put g s (h7_of (ix_hash Hash el)) el (ixht0_view b)"
  obtain hs ix where p: "store_bytes (h7 b) (8 * g + s) [h7_of (ix_hash Hash el)] = Some hs"
      "write_el (indexes b) (8 * g + s) (ucast (els_bound b) :: u16) = Some ix"
      "unat (els_bound b + 1) = Suc (unat (els_bound b))"
      "\<forall>xs. write_el (els b) (unat (els_bound b)) el = Some xs \<longrightarrow>
        ixht0_sized k (b\<lparr>h7 := hs, indexes := ix, els_bound := els_bound b + 1, els := xs\<rparr>) \<and>
        ixht0_view (b\<lparr>h7 := hs, indexes := ix, els_bound := els_bound b + 1, els := xs\<rparr>) = ?w"
    using ixht0_put_bin [OF inv r(2,3) h7_of_top_clear room] by blast
  let ?b = "b\<lparr>h7 := hs, indexes := ix, els_bound := els_bound b + 1\<rparr>"
  have "view_inv (ix_hash Hash) Eq ?w"
  proof (rule view_put_inv [OF hash_key_ix [OF hk] d(2)])
    show "\<not> Eq x el" if "live (ixht0_view b) i" "elem (ixht0_view b) i = Some x" for i x
      using absent in_contents_iff [OF d(2)] that by blast
  qed (use r v in auto)
  moreover have "contents ?w = contents (ixht0_view b) @ [el]"
    using view_inv_dead [OF d(2)] by (intro contents_put) simp
  moreover have "ixht0_do_1 P Eq num b (ix_hash Hash el) el INSERT = Some (False, Some (unat (els_bound b)), num + 1, ?b)"
    using r(1,4) p(1,2) by (simp add: ixht0_do_1_def Let_def)
  ultimately show "\<exists>b'. ixht0_do_1 P Eq num b (ix_hash Hash el) el INSERT = Some (False, Some (unat (els_bound b)), num + 1, b') \<and>
      head b' = head b \<and> els b' = els b \<and> deleted b' = deleted b \<and> unat (els_bound b') = Suc (unat (els_bound b)) \<and>
      (\<forall>xs. write_el (els b) (unat (els_bound b)) el = Some xs \<longrightarrow> ixht0_bin_inv Hash Eq k (b'\<lparr>els := xs\<rparr>) \<and>
        contents (ixht0_view (b'\<lparr>els := xs\<rparr>)) = contents (ixht0_view b) @ [el])"
    using p(3,4) room by (intro exI [of _ ?b]) (simp add: ixht0_bin_inv_def head_def)
qed

lemma ixht0_set_el:
  assumes hk: "hash_key Hash Eq" and inv: "ixht0_bin_inv Hash Eq k b"
    and i: "live (ixht0_view b) i" "elem (ixht0_view b) i = Some x" "Eq x e" and xs: "write_el (els b) i e = Some xs"
  shows "ixht0_bin_inv Hash Eq k (b\<lparr>els := xs\<rparr>) \<and> ixht0_view (b\<lparr>els := xs\<rparr>) = view_set i e (ixht0_view b)"
proof -
  note d = ixht0_bin_invD [OF inv]
  note v = ixht0_view_sel [OF d(1)]
  have sized: "ixht0_sized k (b\<lparr>els := xs\<rparr>)" using d(1) length_write_el [OF xs] by (simp add: ixht0_sized_def)
  have view: "ixht0_view (b\<lparr>els := xs\<rparr>) = view_set i e (ixht0_view b)"
    by (rule ixht0_view_eqI [OF sized]) (auto simp: v view_simps fun_eq_iff read_write_el [OF xs])
  then show ?thesis using view_set_inv [OF hash_key_ix [OF hk] d(2) i] sized d(4) by (simp add: ixht0_bin_inv_def)
qed

section \<open>Allocation\<close>

text \<open>A bin whose tags are all empty and whose bitmap is clear is empty, whatever its other arrays hold.\<close>

lemma ixht0_emptied:
  assumes k: "1 \<le> k" "k \<le> 12" and len: "length m = 8 * 2 ^ k"
  shows "\<exists>hs. store_bytes m 0 (replicate (8 * 2 ^ k) IXHT0_EMPTY_H7) = Some hs \<and>
    (\<forall>b. h7 b = hs \<longrightarrow> length (indexes b) = 8 * 2 ^ k \<longrightarrow> groups_mask b = 2 ^ k - 1 \<longrightarrow> length (els b) = 4 * 2 ^ k \<longrightarrow>
      deleted b = no_dels k \<longrightarrow> els_bound b = 0 \<longrightarrow> ixht0_bin_inv Hash Eq k b \<and> contents (ixht0_view b) = [])"
proof -
  obtain hs where hs: "store_bytes m 0 (replicate (8 * 2 ^ k) 0x80) = Some hs"
    using sp_cleared [OF len, of "replicate (8 * 2 ^ k) (None :: u16 option)"] by auto
  have "ixht0_bin_inv Hash Eq k b \<and> contents (ixht0_view b) = []"
    if b: "h7 b = hs" "length (indexes b) = 8 * 2 ^ k" "groups_mask b = 2 ^ k - 1" "length (els b) = 4 * 2 ^ k"
      "deleted b = no_dels k" "els_bound b = 0" for b
  proof -
    have wf: "sp_wf (2 ^ k) (ixht0_arrays b)" "\<forall>g < 2 ^ k. \<forall>s < 8. sp_slot (ixht0_arrays b) g s = Empty"
      using sp_cleared [OF len b(2)] hs b(1) by auto
    have sized: "ixht0_sized k b" using k b wf(1) by (simp add: ixht0_sized_def)
    note v = ixht0_view_sel [OF sized]
    have "view_inv (ix_hash Hash) Eq (ixht0_view b) \<and> contents (ixht0_view b) = []"
      using wf(2) b by (intro conjI view_empty_inv) (simp_all add: v sp_slots_def)
    then show ?thesis using sized b(6) by (simp add: ixht0_bin_inv_def)
  qed
  then show ?thesis using hs by (simp add: IXHT0_EMPTY_H7_def)
qed

lemma ixht0_init_ok:
  assumes "1 \<le> k" "k \<le> 12"
  shows "\<exists>b. ixht0_init_bin (4 * 2 ^ k) = Some b \<and> ixht0_bin_inv Hash Eq k b \<and> els_start b = 0 \<and> els_bound b = 0 \<and>
    contents (ixht0_view b) = []"
proof -
  have z: "unat (4 * 2 ^ k :: u32) = 4 * 2 ^ k" "unat ((4 * 2 ^ k + 7) div 8 :: u32) = (4 * 2 ^ k + 7) div 8"
      "(2 * (4 * 2 ^ k) :: u32) div IXHT_GROUP_SIZE = 2 ^ k" "unat (2 * (4 * 2 ^ k) :: u32) = 8 * 2 ^ k"
    using ix_sizes [of k] assms by simp_all
  from ixht0_emptied [OF assms, of "replicate (8 * 2 ^ k) None" Hash Eq] obtain hs where
      "store_bytes (replicate (8 * 2 ^ k) None) 0 (replicate (8 * 2 ^ k) IXHT0_EMPTY_H7) = Some hs"
      "\<forall>b. h7 b = hs \<longrightarrow> length (indexes b) = 8 * 2 ^ k \<longrightarrow> groups_mask b = 2 ^ k - 1 \<longrightarrow> length (els b) = 4 * 2 ^ k \<longrightarrow>
        deleted b = no_dels k \<longrightarrow> els_bound b = 0 \<longrightarrow> ixht0_bin_inv Hash Eq k b \<and> contents (ixht0_view b) = []"
    by auto
  then show ?thesis using z by (simp add: ixht0_init_bin_def Let_def)
qed

lemma ixht0_clear_ok:
  assumes inv: "ixht0_bin_inv Hash Eq k b"
  shows "\<exists>c. ixht0_clear_tags b = Some c \<and> head c = head b \<and> els_bound c = els_bound b \<and> els c = els b \<and>
    deleted c = deleted b \<and> ixht0_bin_inv Hash Eq k (c\<lparr>els_bound := 0, deleted := no_dels k\<rparr>) \<and>
    contents (ixht0_view (c\<lparr>els_bound := 0, deleted := no_dels k\<rparr>)) = []"
proof -
  note d = ixht0_bin_invD [OF inv]
  have z: "unat ((groups_mask b + 1) * IXHT_GROUP_SIZE) = 8 * 2 ^ k"
    using ix_sizes(1,5) [of k] d(5,6) by (simp del: diff_add_cancel)
  have l: "length (els b) = 4 * 2 ^ k" "length (h7 b) = 8 * 2 ^ k" "length (indexes b) = 8 * 2 ^ k"
    using d(1) by (simp_all add: ixht0_sized_def sp_wf_def)
  from ixht0_emptied [OF d(7,5) l(2), of Hash Eq] obtain hs where
      "store_bytes (h7 b) 0 (replicate (8 * 2 ^ k) IXHT0_EMPTY_H7) = Some hs"
      "\<forall>b. h7 b = hs \<longrightarrow> length (indexes b) = 8 * 2 ^ k \<longrightarrow> groups_mask b = 2 ^ k - 1 \<longrightarrow> length (els b) = 4 * 2 ^ k \<longrightarrow>
        deleted b = no_dels k \<longrightarrow> els_bound b = 0 \<longrightarrow> ixht0_bin_inv Hash Eq k b \<and> contents (ixht0_view b) = []"
    by blast
  then show ?thesis using z l(1,3) d(6) by (simp add: ixht0_clear_tags_def Let_def head_def)
qed

lemma ixht0_regroup_ok:
  assumes k: "1 \<le> k" "k \<le> 12" and b: "length (els b) = 4 * 2 ^ k" "deleted b = no_dels k"
  shows "\<exists>c. ixht0_regroup (8 * 2 ^ k) b = Some c \<and> head c = head b \<and> els_bound c = els_bound b \<and> els c = els b \<and>
    deleted c = deleted b \<and> ixht0_bin_inv Hash Eq k (c\<lparr>els_bound := 0\<rparr>) \<and> contents (ixht0_view (c\<lparr>els_bound := 0\<rparr>)) = []"
proof -
  have z: "(8 * 2 ^ k :: u32) div IXHT_GROUP_SIZE = 2 ^ k" "unat (8 * 2 ^ k :: u32) = 8 * 2 ^ k"
    using ix_sizes [of k] k by simp_all
  from ixht0_emptied [OF k, of "realloc_els (h7 b) (8 * 2 ^ k)" Hash Eq] obtain hs where
      "store_bytes (realloc_els (h7 b) (8 * 2 ^ k)) 0 (replicate (8 * 2 ^ k) IXHT0_EMPTY_H7) = Some hs"
      "\<forall>b. h7 b = hs \<longrightarrow> length (indexes b) = 8 * 2 ^ k \<longrightarrow> groups_mask b = 2 ^ k - 1 \<longrightarrow> length (els b) = 4 * 2 ^ k \<longrightarrow>
        deleted b = no_dels k \<longrightarrow> els_bound b = 0 \<longrightarrow> ixht0_bin_inv Hash Eq k b \<and> contents (ixht0_view b) = []"
    by auto
  then show ?thesis using z b by (simp add: ixht0_regroup_def Let_def head_def)
qed

lemma ixht0_do_1_frame:
  "ixht0_do_1 P Eq num (b\<lparr>deleted := ds\<rparr>) h el INSERT =
    map_option (\<lambda>(found, res, num, b'). (found, res, num, b'\<lparr>deleted := ds\<rparr>)) (ixht0_do_1 P Eq num b h el INSERT)"
proof (cases "ixht0_probe P Eq (ixht0_read b) (h7_of h) el (ucast (h div IXHT_GROUP_SIZE) AND groups_mask b, NOT 0)")
  case (Some r)
  obtain o' d where r: "r = (o', d)" by (cases r)
  let ?hs = "\<lambda>j. store_bytes (h7 b) (unat j) [h7_of h]" and ?ix = "\<lambda>j. write_el (indexes b) (unat j) (ucast (els_bound b))"
  show ?thesis
  proof (cases o')
    case (Matched g s i)
    then show ?thesis using Some r by (simp add: ixht0_do_1_def)
  next
    case (Vacant g s)
    define j where "j = (if d \<noteq> NOT 0 then d else ixht0_slot (of_nat g) s)"
    show ?thesis
      using Some r Vacant unfolding ixht0_do_1_def Let_def by (cases "?hs j"; cases "?ix j") (simp_all add: j_def)
  qed
qed (simp add: ixht0_do_1_def)

interpretation ixht0_bins: ix_bins "ixht0_ops P Hash Eq" Eq ixht0_view "ixht0_bin_inv Hash Eq" for P Hash Eq
proof (unfold_locales, goal_cases)
  case (1 k b)
  then show ?case using ixht0_bin_invD [OF 1] by (simp add: ixht0_view_sel ixht0_ops_def)
next
  case (2 k b)
  then show ?case using ixht0_bin_invD [OF 2] by (simp add: ixht0_sized_def)
next
  case (3 k b d m s)
  show ?case by (simp add: ixht0_bin_inv_def ixht0_sized_def ixht0_view_def)
next
  case (4 b d m s)
  show ?case by (simp add: ixht0_view_def)
next
  case (5 k)
  then show ?case using ixht0_init_ok [of k Hash Eq] by (simp add: ixht0_ops_def)
next
  case (6 k b)
  then show ?case using ixht0_clear_ok [of Hash Eq k b] by (simp add: ixht0_ops_def)
next
  case (7 b c)
  then show ?case by (auto simp: ixht0_ops_def ixht0_clear_tags_def Let_def split: bind_splits)
next
  case (8 n b)
  then show ?case by (auto simp: ixht0_ops_def ixht0_init_bin_def Let_def split: bind_splits)
next
  case (9 k b)
  then show ?case using ixht0_regroup_ok [of k b Hash Eq] by (simp add: ixht0_ops_def)
next
  case (10 k b y el num)
  then show ?case using ixht0_do_1_present [of Hash Eq k b y el P num] by (simp add: ixht0_ops_def)
next
  case (11 k b el a num)
  then show ?case using ixht0_do_1_absent(1) [of Hash Eq k b el a P num] by (simp add: ixht0_ops_def)
next
  case (12 k b el num)
  then show ?case using ixht0_do_1_absent(2) [of Hash Eq k b el P num] by (simp add: ixht0_ops_def)
next
  case (13 num b ds h el)
  show ?case by (simp add: ixht0_ops_def ixht0_do_1_frame)
next
  case (14 k b i x e xs)
  then show ?case using ixht0_set_el [of Hash Eq k b i x e xs] by (simp add: ixht0_ops_def)
qed

end
