(* ===== verification/Ixhtab_v0_Props.thy ===== *)
theory Ixhtab_v0_Props
  imports Ixhtab_Props Ixhtab_v0_Correct
begin

text \<open>
  The properties of the first version of the indexed table, \<open>src/ixhtab-v0.h\<close>, and that it behaves
  like \<open>src/ixhtab.h\<close>.
\<close>

abbreviation ixht0_inv :: "('e \<Rightarrow> u64) \<Rightarrow> ('e \<Rightarrow> 'e \<Rightarrow> bool) \<Rightarrow> 'e ixht0 \<Rightarrow> bool" where
  "ixht0_inv Hash Eq \<equiv> ix_inv (ix_hash Hash) ixht0_view (ixht0_bin_inv Hash Eq)"

abbreviation ixht0_abs :: "'e ixht0 \<Rightarrow> 'e list" where
  "ixht0_abs \<equiv> ix_abs ixht0_view"

lemma ixht0_key_hash [simp]: "key_hash (ixht0_ops P Hash Eq) = Hash"
  by (simp add: ixht0_ops_def)

lemma ixht0_step_eq: "ixht0_step P Hash Eq = ix_step (ixht0_ops P Hash Eq)"
  by (simp add: ixht0_step_def ix_step_def ixht0_perform_def)

lemma ixht0_iterate_eq: "ixht0_iterate = ix_iterate"
  by (simp add: fun_eq_iff ixht0_iterate_def ix_iterate_def ixht0_iter_begin_def ixht0_iter_valid_def ixht0_iter_next_def)

lemma ixht0_create_correct:
  assumes "min_size \<le> 2 ^ 31"
  shows "\<exists>t. ixht0_create P Hash Eq min_size = Some t \<and> ixht0_inv Hash Eq t \<and> ixht0_abs t = [] \<and>
    unat (bins_num t) = 2 ^ unat (max_depth t) \<and> (min_size \<le> 2 ^ 14 \<longrightarrow> max_depth t = 0)"
  using ixht0_bins.create_ok [OF assms, of P Hash Eq] by (simp add: ixht0_create_def)

lemma ixht0_iterate_correct: "ixht0_inv Hash Eq t \<Longrightarrow> ixht0_iterate t = Some (ixht0_abs t)"
  using ixht0_bins.iterate_collects [of SWAR Hash Eq t] by (simp add: ixht0_iterate_eq)

lemma ixht0_count: "ixht0_inv Hash Eq t \<Longrightarrow> unat (ixht0_els_count t) = length (ixht0_abs t)"
  by (simp add: ixht0_els_count_def ix_els_count_def ix_invD)

lemma ixht0_run_refines:
  assumes "hash_key Hash Eq" "ixht0_inv Hash Eq t" "mset (ixht0_abs t) = mset xs" "length xs + length cs \<le> 2 ^ 14"
  shows "\<exists>t'. run_cmds (ixht0_step P Hash Eq) t cs = Some (fst (spec_run Eq xs cs), t') \<and> ixht0_inv Hash Eq t' \<and>
    mset (ixht0_abs t') = mset (snd (spec_run Eq xs cs)) \<and> max_depth t' = max_depth t \<and> bins_num t' = bins_num t"
  using ixht0_bins.dict.run_refines [of P Hash Eq t t xs cs] assms
  by (auto simp: ixht0_step_eq ixht0_bins.same_dir_def)

section \<open>Properties\<close>

text \<open>
  C35. A table of \<open>ixhtab-v0.h\<close> created for any size up to \<open>2 ^ 31\<close> answers every sequence of up to
  \<open>2 ^ 14\<close> insert, replace, remove and find commands as a list of the stored elements does, on every
  platform, although it reuses the slots of deleted elements. Afterwards the iterator visits exactly the
  stored elements, each once, the counter is their number, and the table can be destroyed.
\<close>

theorem ixht0_client_run:
  assumes "hash_key Hash Eq" "min_size \<le> 2 ^ 31" "length cs \<le> 2 ^ 14"
  shows "\<exists>t t' xs t''. ixht0_create P Hash Eq min_size = Some t \<and>
    run_cmds (ixht0_step P Hash Eq) t cs = Some (fst (spec_run Eq [] cs), t') \<and>
    ixht0_iterate t' = Some xs \<and> mset xs = mset (snd (spec_run Eq [] cs)) \<and>
    unat (ixht0_els_count t') = length xs \<and> ixht0_destroy t' = Some t''"
proof -
  obtain t where t: "ixht0_create P Hash Eq min_size = Some t" "ixht0_inv Hash Eq t" "ixht0_abs t = []"
    using ixht0_create_correct [OF assms(2)] by blast
  obtain t' where t': "run_cmds (ixht0_step P Hash Eq) t cs = Some (fst (spec_run Eq [] cs), t')"
      "ixht0_inv Hash Eq t'" "mset (ixht0_abs t') = mset (snd (spec_run Eq [] cs))"
    using ixht0_run_refines [OF assms(1) t(2), of "[]" cs P] t assms(3) by auto
  have "ixht0_destroy t' = Some (t'\<lparr>bins := [], dir := []\<rparr>)"
    using ixht0_bins.destroy_ok [of P Hash Eq t'] t'(2) by (simp add: ixht0_destroy_def)
  then show ?thesis using t(1) t' ixht0_iterate_correct [OF t'(2)] ixht0_count [OF t'(2)] by blast
qed

theorem ixht0_client_run_witness:
  "\<exists>t t' t''. ixht0_create AARCH64_NEON entry_hash entry_eq 8 = Some t \<and>
    run_cmds (ixht0_step AARCH64_NEON entry_hash entry_eq) t entry_cmds =
      Some ([Flag False, Flag False, Flag True, Got (Some (mk_entry 42 100)), Flag True, Got None, Flag True], t') \<and>
    ixht0_iterate t' = Some [mk_entry 7 2] \<and> unat (ixht0_els_count t') = 1 \<and> ixht0_destroy t' = Some t''"
  using ixht0_client_run [OF entry.hash_key_axioms, of 8 entry_cmds AARCH64_NEON] by (auto simp: entry_cmds_spec)

text \<open>
  C36. The tables of \<open>ixhtab.h\<close> and of \<open>ixhtab-v0.h\<close> cannot be told apart by their replies: created for the
  same size, they answer every sequence of up to \<open>2 ^ 14\<close> commands alike, on any two platforms, and
  then hold the same number of elements and iterate over the same ones.
\<close>

theorem ixht0_same_as_v1:
  assumes "hash_key Hash Eq" "min_size \<le> 2 ^ 31" "length cs \<le> 2 ^ 14"
  shows "\<exists>t t0 rs t' t0' xs ys. ixht_create P Hash Eq min_size = Some t \<and> ixht0_create Q Hash Eq min_size = Some t0 \<and>
    run_cmds (ixht_step P Hash Eq) t cs = Some (rs, t') \<and> run_cmds (ixht0_step Q Hash Eq) t0 cs = Some (rs, t0') \<and>
    ixht_iterate t' = Some xs \<and> ixht0_iterate t0' = Some ys \<and> mset xs = mset ys \<and>
    ixht_els_count t' = ixht0_els_count t0'"
proof -
  obtain t where t: "ixht_create P Hash Eq min_size = Some t" "ixht_inv Hash Eq t" "ixht_abs t = []"
    using ixht_create_correct [OF assms(2)] by blast
  obtain t0 where t0: "ixht0_create Q Hash Eq min_size = Some t0" "ixht0_inv Hash Eq t0" "ixht0_abs t0 = []"
    using ixht0_create_correct [OF assms(2)] by blast
  obtain t' where t': "run_cmds (ixht_step P Hash Eq) t cs = Some (fst (spec_run Eq [] cs), t')"
      "ixht_inv Hash Eq t'" "mset (ixht_abs t') = mset (snd (spec_run Eq [] cs))"
    using ixht_run_refines [OF assms(1) t(2), of "[]" cs P] t assms(3) by auto
  obtain t0' where t0': "run_cmds (ixht0_step Q Hash Eq) t0 cs = Some (fst (spec_run Eq [] cs), t0')"
      "ixht0_inv Hash Eq t0'" "mset (ixht0_abs t0') = mset (snd (spec_run Eq [] cs))"
    using ixht0_run_refines [OF assms(1) t0(2), of "[]" cs Q] t0 assms(3) by auto
  have same: "mset (ixht_abs t') = mset (ixht0_abs t0')" using t'(3) t0'(3) by simp
  then have "length (ixht_abs t') = length (ixht0_abs t0')" by (rule mset_eq_length)
  then have "ixht_els_count t' = ixht0_els_count t0'"
    using ixht_count [OF t'(2)] ixht0_count [OF t0'(2)] by (simp add: word_unat_eq_iff)
  then show ?thesis
    using t(1) t0(1) t'(1) t0'(1) same ixht_iterate_correct [OF t'(2)] ixht0_iterate_correct [OF t0'(2)] by blast
qed

theorem ixht0_same_as_v1_witness:
  "\<exists>t t0 rs t' t0' xs ys. ixht_create X86_SSE2 entry_hash entry_eq 8 = Some t \<and> ixht0_create SWAR entry_hash entry_eq 8 = Some t0 \<and>
    run_cmds (ixht_step X86_SSE2 entry_hash entry_eq) t entry_cmds = Some (rs, t') \<and>
    run_cmds (ixht0_step SWAR entry_hash entry_eq) t0 entry_cmds = Some (rs, t0') \<and>
    ixht_iterate t' = Some xs \<and> ixht0_iterate t0' = Some ys \<and> mset xs = mset ys"
  using ixht0_same_as_v1 [OF entry.hash_key_axioms, of 8 entry_cmds X86_SSE2 SWAR] by (fastforce simp: entry_cmds_spec)

end
