(* ===== verification/Ixhtab_hpp.thy ===== *)
theory Ixhtab_hpp
  imports Ix_Forward Ixhtab
begin

text \<open>
  The C++ extendible table of \<open>ixhtab.hpp\<close>, the class \<open>ixhtab\<close> of the namespace \<open>ixht\<close>. Its template parameters are the
  type \<open>'e\<close> and the arguments \<open>Hash\<close> and \<open>Eq\<close>. The class and its bins have the fields of the structures of
  \<open>ixhtab.h\<close>, so the records of that model are used for them; the constants \<open>GROUP_SIZE\<close> and
  \<open>MAX_BIN_SIZE_POWER\<close> and the directory code are those of \<open>Ix_Table\<close>. The theory then shows that every method
  computes what the C function of the same purpose does.
\<close>

section \<open>Constants and group scans\<close>

definition ixhtab_GROUP_BYTES :: u64 where "ixhtab_GROUP_BYTES = IXHT_GROUP_SIZE * (1 + 2)"

definition ixhtab_EMPTY_H7 :: u8 where "ixhtab_EMPTY_H7 = 0xc0"

definition ixhtab_DELETED_H7 :: u8 where "ixhtab_DELETED_H7 = 0x80"

definition ixhtab_mask_scale :: "platform \<Rightarrow> bool" where
  "ixhtab_mask_scale P \<longleftrightarrow> P = SWAR"

definition ixhtab_group_load :: "platform \<Rightarrow> cells \<Rightarrow> nat \<Rightarrow> group_t option" where
  "ixhtab_group_load P m p = map_option (\<lambda>g.
     case P of
       X86_SSE2 \<Rightarrow> SSE2_group (mm_cvtsi64_si128 g)
     | AARCH64_NEON \<Rightarrow> NEON_group g
     | SWAR \<Rightarrow> SWAR_group g) (load_word m p)"

text \<open>
  The masks are an \<open>unsigned int\<close> for SSE2 and NEON and a \<open>uint64_t\<close> otherwise, and \<open>auto mmask\<close> keeps that
  type. Their values are kept here as \<open>u64\<close>; \<open>mmask &= mmask - 1\<close>, done for a non-zero mask only,
  has the same value at both widths.
\<close>

fun ixhtab_match_mask :: "group_t \<Rightarrow> u8 \<Rightarrow> u64" where
  "ixhtab_match_mask (SSE2_group g) h7_val =
     (let h7_vec = mm_set1_epi8 h7_val
      in ucast (ucast (mm_movemask_epi8 (mm_cmpeq_epi8 g h7_vec)) AND (0xff :: u32)))"
| "ixhtab_match_mask (NEON_group g) h7_val =
     (let group = vcreate_u8 g;
          match_eq = vceq_u8 group (vdup_n_u8 h7_val)
      in ucast (ucast (vaddv_u8 (vand_u8 match_eq [1, 2, 4, 8, 16, 32, 64, 128])) :: u32))"
| "ixhtab_match_mask (SWAR_group g) h7_val =
     (let cmp = g XOR (SWAR_LSB * ucast h7_val)
      in (cmp - SWAR_LSB) AND NOT cmp AND SWAR_MSB)"

fun ixhtab_match_empty :: "group_t \<Rightarrow> u64" where
  "ixhtab_match_empty (SSE2_group g) =
     ucast (ucast (mm_movemask_epi8 (mm_and_si128 g (mm_slli_epi64 g 1))) AND (0xff :: u32))"
| "ixhtab_match_empty (NEON_group g) = ixhtab_match_mask (NEON_group g) ixhtab_EMPTY_H7"
| "ixhtab_match_empty (SWAR_group g) = (g AND SWAR_MSB) AND push_bit 1 g"

section \<open>State\<close>

type_synonym 'e ebin_t = "'e ebin_ixht"
type_synonym 'e ixhtab = "'e ebin_t ix_table"
type_synonym ixhtab_iter = ix_iter
type_synonym ixhtab_iterator = ix_iterator

definition ixhtab_destroy_bin :: "'e ebin_t \<Rightarrow> 'e ebin_t" where
  "ixhtab_destroy_bin b = b\<lparr>els := [], deleted := [], groups := []\<rparr>"

section \<open>One bin\<close>

definition ixhtab_base :: "nat \<Rightarrow> nat" where
  "ixhtab_base group_ind = unat (of_nat group_ind * ixhtab_GROUP_BYTES)"

text \<open>
  The allocation of the arrays of a new bin, the \<open>memset\<close> of its tags before a split, and the
  reallocation of its groups.
\<close>

definition ixhtab_init_bin :: "u32 \<Rightarrow> 'e ebin_t option" where
  "ixhtab_init_bin els_size =
     do {
       let del_bytes = (els_size + 7) div 8;
       let indexes_size = 2 * els_size;
       let num_groups = indexes_size div IXHT_GROUP_SIZE;
       gs \<leftarrow> memset_each ixhtab_base 8 ixhtab_EMPTY_H7 [0..<unat num_groups]
         (replicate (unat (ucast num_groups * ixhtab_GROUP_BYTES)) None);
       Some \<lparr>depth = None, hash_mask = None, els_start = 0, els_bound = 0, els = replicate (unat els_size) None,
         deleted = replicate (unat del_bytes) 0, groups_mask = num_groups - 1, groups = gs\<rparr>
     }"

definition ixhtab_clear_groups :: "'e ebin_t \<Rightarrow> 'e ebin_t option" where
  "ixhtab_clear_groups b =
     do {
       let num_groups = groups_mask b + 1;
       gs \<leftarrow> memset_each ixhtab_base 8 ixhtab_EMPTY_H7 [0..<unat num_groups] (groups b);
       Some (b\<lparr>groups := gs\<rparr>)
     }"

definition ixhtab_regroup :: "u32 \<Rightarrow> 'e ebin_t \<Rightarrow> 'e ebin_t option" where
  "ixhtab_regroup indexes_size b =
     do {
       let num_groups = indexes_size div IXHT_GROUP_SIZE;
       gs \<leftarrow> memset_each ixhtab_base 8 ixhtab_EMPTY_H7 [0..<unat num_groups]
         (realloc_els (groups b) (unat (ucast num_groups * ixhtab_GROUP_BYTES)));
       Some (b\<lparr>groups := gs, groups_mask := num_groups - 1\<rparr>)
     }"

text \<open>
  The inner \<open>while (mmask)\<close> loop over the arrays of groups and elements: the first slot of the mask
  whose element is equal to \<open>*el\<close>, with its element index.
\<close>

function ixhtab_scan :: "platform \<Rightarrow> ('e \<Rightarrow> 'e \<Rightarrow> bool) \<Rightarrow> cells \<Rightarrow> 'e option list \<Rightarrow> nat \<Rightarrow> 'e \<Rightarrow> u64 \<Rightarrow>
    (nat \<times> u16) option option" where
  "ixhtab_scan P Eq gs xs group_base el mmask =
     (if mmask = 0 then Some None
      else do {
        let slot_bit = first_slot (ixhtab_mask_scale P) mmask;
        el_ind \<leftarrow> load_word gs (group_base + 8 + 2 * slot_bit);
        e \<leftarrow> read_el xs (unat el_ind);
        if Eq e el then Some (Some (slot_bit, el_ind))
        else ixhtab_scan P Eq gs xs group_base el (mmask AND (mmask - 1))
      })"
  by pat_completeness auto
termination
  by (relation "measure (\<lambda>(P, Eq, gs, xs, group_base, el, mmask). unat mmask)") (auto intro: and_pred_less)

declare ixhtab_scan.simps [simp del]

text \<open>
  One round of the outer \<open>for (;;)\<close> loop, up to its returns or the next \<open>group_ind\<close>, over the fields
  of the bin it reads: the groups, the elements and the group mask.
\<close>

definition ixhtab_probe_step :: "platform \<Rightarrow> ('e \<Rightarrow> 'e \<Rightarrow> bool) \<Rightarrow> cells \<times> 'e option list \<times> u32 \<Rightarrow> u8 \<Rightarrow> 'e \<Rightarrow> u32 \<Rightarrow>
    (u32 + outcome) option" where
  "ixhtab_probe_step P Eq arrays h7_val el group_ind =
     do {
       let (gs, xs, gmask) = arrays;
       let group_base = ixhtab_base (unat group_ind);
       group \<leftarrow> ixhtab_group_load P gs group_base;
       found \<leftarrow> ixhtab_scan P Eq gs xs group_base el (ixhtab_match_mask group h7_val);
       case found of
         Some (slot_bit, el_ind) \<Rightarrow> Some (Inr (Matched (unat group_ind) slot_bit (unat el_ind)))
       | None \<Rightarrow>
           (let emask = ixhtab_match_empty group
            in if emask \<noteq> 0
               then Some (Inr (Vacant (unat group_ind) (first_slot (ixhtab_mask_scale P) emask)))
               else Some (Inl ((group_ind + 1) AND gmask)))
     }"

partial_function (option) ixhtab_probe :: "platform \<Rightarrow> ('e \<Rightarrow> 'e \<Rightarrow> bool) \<Rightarrow> cells \<times> 'e option list \<times> u32 \<Rightarrow> u8 \<Rightarrow> 'e \<Rightarrow>
    u32 \<Rightarrow> outcome option" where
  "ixhtab_probe P Eq arrays h7_val el group_ind =
     (case ixhtab_probe_step P Eq arrays h7_val el group_ind of
        None \<Rightarrow> None
      | Some (Inl group_ind') \<Rightarrow> ixhtab_probe P Eq arrays h7_val el group_ind'
      | Some (Inr r) \<Rightarrow> Some r)"

definition ixhtab_do_1 :: "platform \<Rightarrow> ('e \<Rightarrow> 'e \<Rightarrow> bool) \<Rightarrow> u32 \<Rightarrow> 'e ebin_t \<Rightarrow> u64 \<Rightarrow> 'e \<Rightarrow> action \<Rightarrow>
    (bool \<times> nat option \<times> u32 \<times> 'e ebin_t) option" where
  "ixhtab_do_1 P Eq num b hash el action =
     do {
       let h7_val = h7_of hash;
       r \<leftarrow> ixhtab_probe P Eq (groups b, els b, groups_mask b) h7_val el
         (ucast (hash div IXHT_GROUP_SIZE) AND groups_mask b);
       case r of
         Matched group_ind slot_bit el_ind \<Rightarrow>
           if action \<noteq> DELETE then Some (True, Some el_ind, num, b)
           else do {
             d \<leftarrow> del_set (deleted b) el_ind;
             gs \<leftarrow> store_bytes (groups b) (ixhtab_base group_ind + slot_bit) [ixhtab_DELETED_H7];
             Some (True, None, num - 1, b\<lparr>deleted := d, groups := gs\<rparr>)
           }
       | Vacant group_ind slot_bit \<Rightarrow>
           if action \<ge> INSERT then do {
             gs \<leftarrow> store_bytes (groups b) (ixhtab_base group_ind + slot_bit) [h7_val];
             gs \<leftarrow> store_word gs (ixhtab_base group_ind + 8 + 2 * slot_bit) (ucast (els_bound b) :: u16);
             Some (False, Some (unat (els_bound b)), num + 1, b\<lparr>groups := gs, els_bound := els_bound b + 1\<rparr>)
           }
           else Some (False, None, num, b)
     }"

section \<open>The table\<close>

text \<open>The directory code of \<open>Ix_Table\<close> over these bins.\<close>

definition ixhtab_ops :: "platform \<Rightarrow> ('e \<Rightarrow> u64) \<Rightarrow> ('e \<Rightarrow> 'e \<Rightarrow> bool) \<Rightarrow> ('e, \<lparr>groups :: cells\<rparr>) ix_ops" where
  "ixhtab_ops P Hash Eq = \<lparr>key_hash = Hash, bin_do_1 = ixhtab_do_1 P Eq, bin_init = ixhtab_init_bin,
     bin_clear = ixhtab_clear_groups, bin_regroup = ixhtab_regroup\<rparr>"

definition ixhtab_get_params :: "u64 \<Rightarrow> u64 \<times> u64 \<times> u64" where
  "ixhtab_get_params = ix_get_params"

definition ixhtab_create_bin :: "platform \<Rightarrow> ('e \<Rightarrow> u64) \<Rightarrow> ('e \<Rightarrow> 'e \<Rightarrow> bool) \<Rightarrow> 'e ixhtab \<Rightarrow> u32 \<Rightarrow> (u32 \<times> 'e ixhtab) option" where
  "ixhtab_create_bin P Hash Eq = ix_create_bin (ixhtab_ops P Hash Eq)"

definition ixhtab_split_bin :: "platform \<Rightarrow> ('e \<Rightarrow> u64) \<Rightarrow> ('e \<Rightarrow> 'e \<Rightarrow> bool) \<Rightarrow> 'e ixhtab \<Rightarrow> u32 \<Rightarrow> 'e ixhtab option" where
  "ixhtab_split_bin P Hash Eq = ix_split_bin (ixhtab_ops P Hash Eq)"

definition ixhtab_create :: "platform \<Rightarrow> ('e \<Rightarrow> u64) \<Rightarrow> ('e \<Rightarrow> 'e \<Rightarrow> bool) \<Rightarrow> u32 \<Rightarrow> 'e ixhtab option" where
  "ixhtab_create P Hash Eq = ix_create (ixhtab_ops P Hash Eq)"

definition ixhtab_destructor :: "'e ixhtab \<Rightarrow> 'e ixhtab option" where
  "ixhtab_destructor = ix_destroy ixhtab_destroy_bin"

definition ixhtab_perform :: "platform \<Rightarrow> ('e \<Rightarrow> u64) \<Rightarrow> ('e \<Rightarrow> 'e \<Rightarrow> bool) \<Rightarrow> 'e ixhtab \<Rightarrow> 'e \<Rightarrow> action \<Rightarrow>
    (bool \<times> el_ptr option \<times> 'e ixhtab) option" where
  "ixhtab_perform P Hash Eq = ix_perform (ixhtab_ops P Hash Eq)"

definition ixhtab_els_count :: "'e ixhtab \<Rightarrow> u32" where
  "ixhtab_els_count = ix_els_count"

definition ixhtab_iter_advance :: "'e ixhtab \<Rightarrow> ix_iter \<Rightarrow> ix_iter option" where
  "ixhtab_iter_advance = ix_iter_advance"

definition ixhtab_iter_begin :: "'e ixhtab \<Rightarrow> ix_iter option" where
  "ixhtab_iter_begin = ix_iter_begin"

definition ixhtab_iter_valid :: "ix_iter \<Rightarrow> bool" where
  "ixhtab_iter_valid = ix_iter_valid"

definition ixhtab_iter_next :: "'e ixhtab \<Rightarrow> ix_iter \<Rightarrow> ix_iter option" where
  "ixhtab_iter_next = ix_iter_next"

text \<open>The forward iterator, shared with the other C++ class.\<close>

definition ixhtab_advance :: "'e ixhtab \<Rightarrow> ixhtab_iterator \<Rightarrow> ixhtab_iterator option" where
  "ixhtab_advance = ix_advance"

definition ixhtab_deref :: "'e ixhtab \<Rightarrow> ixhtab_iterator \<Rightarrow> 'e option" where
  "ixhtab_deref = ix_deref"

definition ixhtab_incr :: "'e ixhtab \<Rightarrow> ixhtab_iterator \<Rightarrow> ixhtab_iterator option" where
  "ixhtab_incr = ix_incr"

definition ixhtab_post_incr :: "'e ixhtab \<Rightarrow> ixhtab_iterator \<Rightarrow> (ixhtab_iterator \<times> ixhtab_iterator) option" where
  "ixhtab_post_incr = ix_post_incr"

definition ixhtab_iter_eq :: "ixhtab_iterator \<Rightarrow> ixhtab_iterator \<Rightarrow> bool" where
  "ixhtab_iter_eq = ix_iter_eq"

definition ixhtab_iter_neq :: "ixhtab_iterator \<Rightarrow> ixhtab_iterator \<Rightarrow> bool" where
  "ixhtab_iter_neq = ix_iter_neq"

definition ixhtab_begin :: "nat \<Rightarrow> 'e ixhtab \<Rightarrow> ixhtab_iterator option" where
  "ixhtab_begin = ix_begin"

definition ixhtab_end :: "nat \<Rightarrow> 'e ixhtab \<Rightarrow> ixhtab_iterator" where
  "ixhtab_end = ix_end"

section \<open>Client code\<close>

text \<open>The calls of \<open>tests/test.cpp\<close>, the loop over the pointer iterator and the range-based \<open>for (auto &e : t)\<close>.\<close>

definition ixhtab_step :: "platform \<Rightarrow> ('e \<Rightarrow> u64) \<Rightarrow> ('e \<Rightarrow> 'e \<Rightarrow> bool) \<Rightarrow> 'e ixhtab \<Rightarrow> 'e cmd \<Rightarrow> ('e reply \<times> 'e ixhtab) option" where
  "ixhtab_step P Hash Eq = client_step (\<lambda>t e. ixhtab_perform P Hash Eq t e FIND)
     (\<lambda>t e. ixhtab_perform P Hash Eq t e DELETE) (\<lambda>t e. ixhtab_perform P Hash Eq t e INSERT) ix_store ix_load"

definition ixhtab_iterate :: "'e ixhtab \<Rightarrow> 'e list option" where
  "ixhtab_iterate t =
     do {
       it \<leftarrow> ixhtab_iter_begin t;
       client_iterate ixhtab_iter_valid (\<lambda>it. ix_load t (ptr it)) (ixhtab_iter_next t) it
     }"

definition ixhtab_range_for :: "nat \<Rightarrow> 'e ixhtab \<Rightarrow> 'e list option" where
  "ixhtab_range_for this t =
     do {
       it \<leftarrow> ixhtab_begin this t;
       client_iterate (\<lambda>it. ixhtab_iter_neq it (ixhtab_end this t)) (ixhtab_deref t) (ixhtab_incr t) it
     }"

section \<open>The methods compute what the C functions compute\<close>

lemma ixhtab_consts: "ixhtab_GROUP_BYTES = IXHT_GROUP_BYTES" "ixhtab_EMPTY_H7 = IXHT_EMPTY_H7" "ixhtab_DELETED_H7 = IXHT_DELETED_H7"
  by (simp_all add: ixhtab_GROUP_BYTES_def IXHT_GROUP_BYTES_def ixhtab_EMPTY_H7_def IXHT_EMPTY_H7_def ixhtab_DELETED_H7_def IXHT_DELETED_H7_def)

lemma ixhtab_mask_scale_eq: "ixhtab_mask_scale = IXHT_MASK_SCALE"
  by (simp add: fun_eq_iff ixhtab_mask_scale_def IXHT_MASK_SCALE_def)

lemma ixhtab_group_load_eq: "ixhtab_group_load = ixht_group_load"
  by (simp add: fun_eq_iff ixhtab_group_load_def ixht_group_load_def)

lemma ixhtab_match_mask_eq: "ixhtab_match_mask g h = ixht_match_mask g h"
  by (cases g) (simp_all add: Let_def)

lemma ixhtab_match_empty_eq: "ixhtab_match_empty g = ixht_match_empty g"
  by (cases g) (simp_all add: ixhtab_match_mask_eq ixhtab_consts)

lemma ixhtab_base_eq: "ixhtab_base = ixht_base"
  by (simp add: fun_eq_iff ixhtab_base_def ixht_base_def ixhtab_consts)

lemma ixhtab_scan_eq: "ixhtab_scan P Eq gs xs gb el m = ixht_scan P Eq gs xs gb el m"
proof (induction P Eq gs xs gb el m rule: ixht_scan.induct)
  case (1 P Eq gs xs gb el m)
  then show ?case
    unfolding ixhtab_scan.simps [of P Eq gs xs gb el m] ixht_scan.simps [of P Eq gs xs gb el m] ixhtab_mask_scale_eq
    by (auto split: Option.bind_split intro!: Option.bind_cong simp: Let_def)
qed

lemmas ixhtab_scan_simps = ixhtab_consts ixhtab_mask_scale_eq ixhtab_group_load_eq ixhtab_match_mask_eq ixhtab_match_empty_eq
  ixhtab_base_eq ixhtab_scan_eq

lemma ixhtab_probe_step_eq: "ixhtab_probe_step = ixht_probe_step"
  unfolding fun_eq_iff ixhtab_probe_step_def ixht_probe_step_def ixhtab_scan_simps by simp

lemma ixhtab_probe_eq: "ixhtab_probe P Eq b h el g = ixht_probe P Eq b h el g"
proof (rule option_eqI, rule iffI)
  fix r
  assume r: "ixhtab_probe P Eq b h el g = Some r"
  have "case (((((P, Eq), b), h), el), g) of (((((P, Eq), b), h), el), g) \<Rightarrow> ixht_probe P Eq b h el g = Some r"
    by (rule ixhtab_probe.raw_induct [OF _ r], simp only: split, subst ixht_probe.simps)
      (auto simp: ixhtab_probe_step_eq split: option.splits sum.splits)
  then show "ixht_probe P Eq b h el g = Some r" by (simp only: split)
next
  fix r
  assume r: "ixht_probe P Eq b h el g = Some r"
  have "case (((((P, Eq), b), h), el), g) of (((((P, Eq), b), h), el), g) \<Rightarrow> ixhtab_probe P Eq b h el g = Some r"
    by (rule ixht_probe.raw_induct [OF _ r], simp only: split, subst ixhtab_probe.simps)
      (auto simp: ixhtab_probe_step_eq split: option.splits sum.splits)
  then show "ixhtab_probe P Eq b h el g = Some r" by (simp only: split)
qed

lemma ixhtab_do_1_eq: "ixhtab_do_1 = ixht_do_1"
  unfolding fun_eq_iff ixhtab_do_1_def ixht_do_1_def ixhtab_probe_eq ixhtab_scan_simps by simp

lemma ixhtab_ops_eq: "ixhtab_ops P Hash Eq = ixht_ops P Hash Eq"
  by (simp add: ixhtab_ops_def ixht_ops_def ixhtab_do_1_eq fun_eq_iff ixhtab_init_bin_def ixht_init_bin_def
      ixhtab_clear_groups_def ixht_clear_groups_def ixhtab_regroup_def ixht_regroup_def ixhtab_scan_simps)

lemmas ixhtab_table_defs = ixhtab_create_def ixht_create_def ixhtab_split_bin_def ixht_split_bin_def ixhtab_perform_def
  ixht_perform_def ixhtab_els_count_def ixht_els_count_def

lemma ixhtab_table_eq: "ixhtab_create P Hash Eq n = ixht_create P Hash Eq n"
  "ixhtab_split_bin P Hash Eq t i = ixht_split_bin P Hash Eq t i"
  "ixhtab_perform P Hash Eq t e a = ixht_perform P Hash Eq t e a" "ixhtab_els_count t = ixht_els_count t"
  by (simp_all add: ixhtab_table_defs ixhtab_ops_eq)

lemma ixhtab_step_eq: "ixhtab_step P Hash Eq = ixht_step P Hash Eq"
  by (simp add: ixhtab_step_def ixht_step_def ixhtab_table_eq)

lemma ixhtab_iterate_eq: "ixhtab_iterate = ixht_iterate"
  by (simp add: fun_eq_iff ixhtab_iterate_def ixht_iterate_def ixhtab_iter_begin_def ixht_iter_begin_def ixhtab_iter_valid_def
      ixht_iter_valid_def ixhtab_iter_next_def ixht_iter_next_def)

lemma ixhtab_destroy_bin_eq: "ixhtab_destroy_bin = ixht_destroy_bin"
  by (simp add: fun_eq_iff ixhtab_destroy_bin_def ixht_destroy_bin_def)

lemma ixhtab_destructor_eq: "ixhtab_destructor = ixht_destroy"
  by (simp add: ixhtab_destructor_def ixht_destroy_def ixhtab_destroy_bin_eq)

lemma ixhtab_range_for_eq: "ixhtab_range_for = ix_range_for"
  by (simp add: fun_eq_iff ixhtab_range_for_def ix_range_for_def ixhtab_begin_def ixhtab_iter_neq_def ixhtab_end_def ixhtab_deref_def ixhtab_incr_def)

end
