(* ===== verification/Ixhtab_hpp_Props.thy ===== *)
theory Ixhtab_hpp_Props
  imports Ixhtab_Props Ixhtab_hpp
begin

text \<open>The properties of the C++ table of \<open>ixhtab.hpp\<close>.\<close>

lemma ixhtab_range_for_correct: "ixht_inv Hash Eq t \<Longrightarrow> ixhtab_range_for this t = Some (ixht_abs t)"
  using ixht_bins.range_for_collects [of SWAR Hash Eq t this] by (simp add: ixhtab_range_for_eq)

text \<open>
  C37. A table of \<open>ixhtab.hpp\<close> constructed for any size up to \<open>2 ^ 31\<close> answers every sequence of up to
  \<open>2 ^ 14\<close> insert, replace, remove and find commands as a list of the stored elements does, on every
  platform. Afterwards the range-based \<open>for\<close> loop, which compares the iterator with \<open>end ()\<close>, ends and
  visits exactly the stored elements, each once and in the order of the pointer iterator.
\<close>

theorem ixhtab_client_run:
  assumes "hash_key Hash Eq" "min_size \<le> 2 ^ 31" "length cs \<le> 2 ^ 14"
  shows "\<exists>t t' xs t''. ixhtab_create P Hash Eq min_size = Some t \<and>
    run_cmds (ixhtab_step P Hash Eq) t cs = Some (fst (spec_run Eq [] cs), t') \<and>
    ixhtab_range_for this t' = Some xs \<and> ixhtab_iterate t' = Some xs \<and> mset xs = mset (snd (spec_run Eq [] cs)) \<and>
    unat (ixhtab_els_count t') = length xs \<and> ixhtab_destructor t' = Some t''"
proof -
  obtain t where t: "ixht_create P Hash Eq min_size = Some t" "ixht_inv Hash Eq t" "ixht_abs t = []"
    using ixht_create_correct [OF assms(2)] by blast
  obtain t' where t': "run_cmds (ixht_step P Hash Eq) t cs = Some (fst (spec_run Eq [] cs), t')"
      "ixht_inv Hash Eq t'" "mset (ixht_abs t') = mset (snd (spec_run Eq [] cs))"
    using ixht_run_refines [OF assms(1) t(2), of "[]" cs P] t assms(3) by auto
  have "ixhtab_destructor t' = Some (t'\<lparr>bins := [], dir := []\<rparr>)"
    using ixht_bins.destroy_ok [of P Hash Eq t'] t'(2) by (simp add: ixhtab_destructor_eq ixht_destroy_def)
  then show ?thesis
    unfolding ixhtab_table_eq ixhtab_step_eq ixhtab_iterate_eq
    using t(1) t' ixht_iterate_correct [OF t'(2)] ixht_count [OF t'(2)] ixhtab_range_for_correct [OF t'(2), of this] by blast
qed

theorem ixhtab_client_run_witness:
  "\<exists>t t'. ixhtab_create X86_SSE2 entry_hash entry_eq 8 = Some t \<and>
    run_cmds (ixhtab_step X86_SSE2 entry_hash entry_eq) t entry_cmds =
      Some ([Flag False, Flag False, Flag True, Got (Some (mk_entry 42 100)), Flag True, Got None, Flag True], t') \<and>
    ixhtab_range_for 1 t' = Some [mk_entry 7 2] \<and> unat (ixhtab_els_count t') = 1"
  using ixhtab_client_run [OF entry.hash_key_axioms, of 8 entry_cmds X86_SSE2 1] by (auto simp: entry_cmds_spec)


end
