(* ===== verification/Ixhtab_v0_hpp.thy ===== *)
theory Ixhtab_v0_hpp
  imports Ix_Forward Ixhtab_v0
begin

text \<open>
  The C++ extendible table of \<open>ixhtab-v0.hpp\<close>, the first version of the class \<open>ixhtab\<close>. Its template parameters are the
  type \<open>'e\<close> and the arguments \<open>Hash\<close> and \<open>Eq\<close>. The class and its bins have the fields of the structures of
  \<open>ixhtab-v0.h\<close>, so the records of that model are used for them; the constants \<open>GROUP_SIZE\<close> and
  \<open>MAX_BIN_SIZE_POWER\<close> and the directory code are those of \<open>Ix_Table\<close>. The theory then shows that every method
  computes what the C function of the same purpose does.
\<close>

section \<open>Constants and group scans\<close>

definition ixhtab0_EMPTY_H7 :: u8 where "ixhtab0_EMPTY_H7 = 0x80"

definition ixhtab0_INDEX_DELETED :: u16 where "ixhtab0_INDEX_DELETED = NOT 0"

definition ixhtab0_mask_scale :: "platform \<Rightarrow> bool" where
  "ixhtab0_mask_scale P \<longleftrightarrow> P = SWAR"

definition ixhtab0_group_load :: "platform \<Rightarrow> cells \<Rightarrow> nat \<Rightarrow> group_t option" where
  "ixhtab0_group_load P m p = map_option (\<lambda>g.
     case P of
       X86_SSE2 \<Rightarrow> SSE2_group (mm_cvtsi64_si128 g)
     | AARCH64_NEON \<Rightarrow> NEON_group g
     | SWAR \<Rightarrow> SWAR_group g) (load_word m p)"

text \<open>
  The masks are an \<open>unsigned int\<close> for SSE2 and NEON and a \<open>uint64_t\<close> otherwise, and \<open>auto mmask\<close> keeps that
  type. Their values are kept here as \<open>u64\<close>; \<open>mmask &= mmask - 1\<close>, done for a non-zero mask only,
  has the same value at both widths.
\<close>

fun ixhtab0_match_mask :: "group_t \<Rightarrow> u8 \<Rightarrow> u64" where
  "ixhtab0_match_mask (SSE2_group g) h7_val =
     (let h7_vec = mm_set1_epi8 h7_val
      in ucast (mm_movemask_epi8 (mm_cmpeq_epi8 g h7_vec) AND (0xff :: u32)))"
| "ixhtab0_match_mask (NEON_group g) h7_val =
     (let group = vcreate_u8 g;
          match_eq = vceq_u8 group (vdup_n_u8 h7_val)
      in ucast (ucast (vaddv_u8 (vand_u8 match_eq [1, 2, 4, 8, 16, 32, 64, 128])) :: u32))"
| "ixhtab0_match_mask (SWAR_group g) h7_val =
     (let cmp = g XOR (SWAR_LSB * ucast h7_val)
      in (cmp - SWAR_LSB) AND NOT cmp AND SWAR_MSB)"

fun ixhtab0_match_empty :: "group_t \<Rightarrow> u64" where
  "ixhtab0_match_empty (SSE2_group g) = ucast (mm_movemask_epi8 g AND (0xff :: u32))"
| "ixhtab0_match_empty (NEON_group g) = ixhtab0_match_mask (NEON_group g) ixhtab0_EMPTY_H7"
| "ixhtab0_match_empty (SWAR_group g) = g AND SWAR_MSB"

section \<open>State\<close>

type_synonym 'e ebin0_t = "'e ebin_ixht0"
type_synonym 'e ixhtab0 = "'e ebin0_t ix_table"
type_synonym ixhtab0_iter = ix_iter
type_synonym ixhtab0_iterator = ix_iterator

definition ixhtab0_destroy_bin :: "'e ebin0_t \<Rightarrow> 'e ebin0_t" where
  "ixhtab0_destroy_bin b = b\<lparr>els := [], deleted := [], h7 := [], indexes := []\<rparr>"

section \<open>One bin\<close>

text \<open>
  The allocation of the arrays of a new bin, the \<open>memset\<close> of its tags before a split, and the
  reallocation of its tags and indices.
\<close>

definition ixhtab0_init_bin :: "u32 \<Rightarrow> 'e ebin0_t option" where
  "ixhtab0_init_bin els_size =
     do {
       let del_bytes = (els_size + 7) div 8;
       let indexes_size = 2 * els_size;
       hs \<leftarrow> store_bytes (replicate (unat indexes_size) None) 0 (replicate (unat indexes_size) ixhtab0_EMPTY_H7);
       Some \<lparr>depth = None, hash_mask = None, els_start = 0, els_bound = 0, els = replicate (unat els_size) None,
         deleted = replicate (unat del_bytes) 0, groups_mask = indexes_size div IXHT_GROUP_SIZE - 1,
         h7 = hs, indexes = replicate (unat indexes_size) None\<rparr>
     }"

definition ixhtab0_clear_tags :: "'e ebin0_t \<Rightarrow> 'e ebin0_t option" where
  "ixhtab0_clear_tags b =
     do {
       let indexes_size = (groups_mask b + 1) * IXHT_GROUP_SIZE;
       hs \<leftarrow> store_bytes (h7 b) 0 (replicate (unat indexes_size) ixhtab0_EMPTY_H7);
       Some (b\<lparr>h7 := hs\<rparr>)
     }"

definition ixhtab0_regroup :: "u32 \<Rightarrow> 'e ebin0_t \<Rightarrow> 'e ebin0_t option" where
  "ixhtab0_regroup indexes_size b =
     do {
       hs \<leftarrow> store_bytes (realloc_els (h7 b) (unat indexes_size)) 0 (replicate (unat indexes_size) ixhtab0_EMPTY_H7);
       Some (b\<lparr>h7 := hs, indexes := realloc_els (indexes b) (unat indexes_size),
         groups_mask := indexes_size div IXHT_GROUP_SIZE - 1\<rparr>)
     }"

definition ixhtab0_slot :: "u32 \<Rightarrow> nat \<Rightarrow> u32" where
  "ixhtab0_slot group_ind slot_bit = group_ind * IXHT_GROUP_SIZE + of_nat slot_bit"

text \<open>
  The inner \<open>while (mmask)\<close> loop over the arrays of indices and elements: the first slot of the mask
  that is not deleted and whose element is equal to \<open>*el\<close>, with its element index, and the value of
  \<open>first_deleted_slot\<close>.
\<close>

function ixhtab0_scan :: "platform \<Rightarrow> ('e \<Rightarrow> 'e \<Rightarrow> bool) \<Rightarrow> u16 option list \<Rightarrow> 'e option list \<Rightarrow> u32 \<Rightarrow> 'e \<Rightarrow> u64 \<Rightarrow> u32 \<Rightarrow>
    ((nat \<times> u16) option \<times> u32) option" where
  "ixhtab0_scan P Eq ixs xs group_ind el mmask first_deleted_slot =
     (if mmask = 0 then Some (None, first_deleted_slot)
      else do {
        let slot_bit = first_slot (ixhtab0_mask_scale P) mmask;
        let slot_ind = ixhtab0_slot group_ind slot_bit;
        el_ind \<leftarrow> read_el ixs (unat slot_ind);
        if el_ind = ixhtab0_INDEX_DELETED
        then ixhtab0_scan P Eq ixs xs group_ind el (mmask AND (mmask - 1))
          (if first_deleted_slot = NOT 0 then slot_ind else first_deleted_slot)
        else do {
          e \<leftarrow> read_el xs (unat el_ind);
          if Eq e el then Some (Some (slot_bit, el_ind), first_deleted_slot)
          else ixhtab0_scan P Eq ixs xs group_ind el (mmask AND (mmask - 1)) first_deleted_slot
        }
      })"
  by pat_completeness auto
termination
  by (relation "measure (\<lambda>(P, Eq, ixs, xs, group_ind, el, mmask, first_deleted_slot). unat mmask)")
    (auto intro: and_pred_less)

declare ixhtab0_scan.simps [simp del]

text \<open>
  One round of the outer \<open>for (;;)\<close> loop, up to its returns or the next \<open>group_ind\<close>, over the fields of
  the bin it reads: the tags, the indices, the elements and the group mask. Its state and its result
  carry \<open>first_deleted_slot\<close>.
\<close>

definition ixhtab0_probe_step :: "platform \<Rightarrow> ('e \<Rightarrow> 'e \<Rightarrow> bool) \<Rightarrow> cells \<times> u16 option list \<times> 'e option list \<times> u32 \<Rightarrow> u8 \<Rightarrow> 'e \<Rightarrow>
    u32 \<times> u32 \<Rightarrow> ((u32 \<times> u32) + (outcome \<times> u32)) option" where
  "ixhtab0_probe_step P Eq arrays h7_val el state =
     do {
       let (hs, ixs, xs, gmask) = arrays;
       let (group_ind, first_deleted_slot) = state;
       let group_h7 = unat (group_ind * IXHT_GROUP_SIZE);
       group \<leftarrow> ixhtab0_group_load P hs group_h7;
       (found, first_deleted_slot) \<leftarrow>
         ixhtab0_scan P Eq ixs xs group_ind el (ixhtab0_match_mask group h7_val) first_deleted_slot;
       case found of
         Some (slot_bit, el_ind) \<Rightarrow>
           Some (Inr (Matched (unat group_ind) slot_bit (unat el_ind), first_deleted_slot))
       | None \<Rightarrow>
           (let emask = ixhtab0_match_empty group
            in if emask \<noteq> 0
               then Some (Inr (Vacant (unat group_ind) (first_slot (ixhtab0_mask_scale P) emask), first_deleted_slot))
               else Some (Inl ((group_ind + 1) AND gmask, first_deleted_slot)))
     }"

partial_function (option) ixhtab0_probe :: "platform \<Rightarrow> ('e \<Rightarrow> 'e \<Rightarrow> bool) \<Rightarrow> cells \<times> u16 option list \<times> 'e option list \<times> u32 \<Rightarrow> u8 \<Rightarrow> 'e \<Rightarrow>
    u32 \<times> u32 \<Rightarrow> (outcome \<times> u32) option" where
  "ixhtab0_probe P Eq arrays h7_val el state =
     (case ixhtab0_probe_step P Eq arrays h7_val el state of
        None \<Rightarrow> None
      | Some (Inl state') \<Rightarrow> ixhtab0_probe P Eq arrays h7_val el state'
      | Some (Inr r) \<Rightarrow> Some r)"

definition ixhtab0_do_1 :: "platform \<Rightarrow> ('e \<Rightarrow> 'e \<Rightarrow> bool) \<Rightarrow> u32 \<Rightarrow> 'e ebin0_t \<Rightarrow> u64 \<Rightarrow> 'e \<Rightarrow> action \<Rightarrow>
    (bool \<times> nat option \<times> u32 \<times> 'e ebin0_t) option" where
  "ixhtab0_do_1 P Eq num b hash el action =
     do {
       let h7_val = h7_of hash;
       (r, first_deleted_slot) \<leftarrow> ixhtab0_probe P Eq (h7 b, indexes b, els b, groups_mask b) h7_val el
         (ucast (hash div IXHT_GROUP_SIZE) AND groups_mask b, NOT 0);
       case r of
         Matched group_ind slot_bit el_ind \<Rightarrow>
           if action \<noteq> DELETE then Some (True, Some el_ind, num, b)
           else do {
             d \<leftarrow> del_set (deleted b) el_ind;
             ix \<leftarrow> write_el (indexes b) (unat (ixhtab0_slot (of_nat group_ind) slot_bit)) ixhtab0_INDEX_DELETED;
             Some (True, None, num - 1, b\<lparr>deleted := d, indexes := ix\<rparr>)
           }
       | Vacant group_ind slot_bit \<Rightarrow>
           if action \<ge> INSERT then do {
             let slot_ind = (if first_deleted_slot \<noteq> NOT 0 then first_deleted_slot
                             else ixhtab0_slot (of_nat group_ind) slot_bit);
             hs \<leftarrow> store_bytes (h7 b) (unat slot_ind) [h7_val];
             ix \<leftarrow> write_el (indexes b) (unat slot_ind) (ucast (els_bound b));
             Some (False, Some (unat (els_bound b)), num + 1,
               b\<lparr>h7 := hs, indexes := ix, els_bound := els_bound b + 1\<rparr>)
           }
           else Some (False, None, num, b)
     }"

section \<open>The table\<close>

text \<open>The directory code of \<open>Ix_Table\<close> over these bins.\<close>

definition ixhtab0_ops :: "platform \<Rightarrow> ('e \<Rightarrow> u64) \<Rightarrow> ('e \<Rightarrow> 'e \<Rightarrow> bool) \<Rightarrow>
    ('e, \<lparr>h7 :: cells, indexes :: u16 option list\<rparr>) ix_ops" where
  "ixhtab0_ops P Hash Eq = \<lparr>key_hash = Hash, bin_do_1 = ixhtab0_do_1 P Eq, bin_init = ixhtab0_init_bin,
     bin_clear = ixhtab0_clear_tags, bin_regroup = ixhtab0_regroup\<rparr>"

definition ixhtab0_get_params :: "u64 \<Rightarrow> u64 \<times> u64 \<times> u64" where
  "ixhtab0_get_params = ix_get_params"

definition ixhtab0_create_bin :: "platform \<Rightarrow> ('e \<Rightarrow> u64) \<Rightarrow> ('e \<Rightarrow> 'e \<Rightarrow> bool) \<Rightarrow> 'e ixhtab0 \<Rightarrow> u32 \<Rightarrow> (u32 \<times> 'e ixhtab0) option" where
  "ixhtab0_create_bin P Hash Eq = ix_create_bin (ixhtab0_ops P Hash Eq)"

definition ixhtab0_split_bin :: "platform \<Rightarrow> ('e \<Rightarrow> u64) \<Rightarrow> ('e \<Rightarrow> 'e \<Rightarrow> bool) \<Rightarrow> 'e ixhtab0 \<Rightarrow> u32 \<Rightarrow> 'e ixhtab0 option" where
  "ixhtab0_split_bin P Hash Eq = ix_split_bin (ixhtab0_ops P Hash Eq)"

definition ixhtab0_create :: "platform \<Rightarrow> ('e \<Rightarrow> u64) \<Rightarrow> ('e \<Rightarrow> 'e \<Rightarrow> bool) \<Rightarrow> u32 \<Rightarrow> 'e ixhtab0 option" where
  "ixhtab0_create P Hash Eq = ix_create (ixhtab0_ops P Hash Eq)"

definition ixhtab0_destructor :: "'e ixhtab0 \<Rightarrow> 'e ixhtab0 option" where
  "ixhtab0_destructor = ix_destroy ixhtab0_destroy_bin"

definition ixhtab0_perform :: "platform \<Rightarrow> ('e \<Rightarrow> u64) \<Rightarrow> ('e \<Rightarrow> 'e \<Rightarrow> bool) \<Rightarrow> 'e ixhtab0 \<Rightarrow> 'e \<Rightarrow> action \<Rightarrow>
    (bool \<times> el_ptr option \<times> 'e ixhtab0) option" where
  "ixhtab0_perform P Hash Eq = ix_perform (ixhtab0_ops P Hash Eq)"

definition ixhtab0_els_count :: "'e ixhtab0 \<Rightarrow> u32" where
  "ixhtab0_els_count = ix_els_count"

definition ixhtab0_iter_advance :: "'e ixhtab0 \<Rightarrow> ix_iter \<Rightarrow> ix_iter option" where
  "ixhtab0_iter_advance = ix_iter_advance"

definition ixhtab0_iter_begin :: "'e ixhtab0 \<Rightarrow> ix_iter option" where
  "ixhtab0_iter_begin = ix_iter_begin"

definition ixhtab0_iter_valid :: "ix_iter \<Rightarrow> bool" where
  "ixhtab0_iter_valid = ix_iter_valid"

definition ixhtab0_iter_next :: "'e ixhtab0 \<Rightarrow> ix_iter \<Rightarrow> ix_iter option" where
  "ixhtab0_iter_next = ix_iter_next"

text \<open>The forward iterator, shared with the other C++ class.\<close>

definition ixhtab0_advance :: "'e ixhtab0 \<Rightarrow> ixhtab0_iterator \<Rightarrow> ixhtab0_iterator option" where
  "ixhtab0_advance = ix_advance"

definition ixhtab0_deref :: "'e ixhtab0 \<Rightarrow> ixhtab0_iterator \<Rightarrow> 'e option" where
  "ixhtab0_deref = ix_deref"

definition ixhtab0_incr :: "'e ixhtab0 \<Rightarrow> ixhtab0_iterator \<Rightarrow> ixhtab0_iterator option" where
  "ixhtab0_incr = ix_incr"

definition ixhtab0_post_incr :: "'e ixhtab0 \<Rightarrow> ixhtab0_iterator \<Rightarrow> (ixhtab0_iterator \<times> ixhtab0_iterator) option" where
  "ixhtab0_post_incr = ix_post_incr"

definition ixhtab0_iter_eq :: "ixhtab0_iterator \<Rightarrow> ixhtab0_iterator \<Rightarrow> bool" where
  "ixhtab0_iter_eq = ix_iter_eq"

definition ixhtab0_iter_neq :: "ixhtab0_iterator \<Rightarrow> ixhtab0_iterator \<Rightarrow> bool" where
  "ixhtab0_iter_neq = ix_iter_neq"

definition ixhtab0_begin :: "nat \<Rightarrow> 'e ixhtab0 \<Rightarrow> ixhtab0_iterator option" where
  "ixhtab0_begin = ix_begin"

definition ixhtab0_end :: "nat \<Rightarrow> 'e ixhtab0 \<Rightarrow> ixhtab0_iterator" where
  "ixhtab0_end = ix_end"

section \<open>Client code\<close>

text \<open>The calls of \<open>tests/test.cpp\<close>, the loop over the pointer iterator and the range-based \<open>for (auto &e : t)\<close>.\<close>

definition ixhtab0_step :: "platform \<Rightarrow> ('e \<Rightarrow> u64) \<Rightarrow> ('e \<Rightarrow> 'e \<Rightarrow> bool) \<Rightarrow> 'e ixhtab0 \<Rightarrow> 'e cmd \<Rightarrow> ('e reply \<times> 'e ixhtab0) option" where
  "ixhtab0_step P Hash Eq = client_step (\<lambda>t e. ixhtab0_perform P Hash Eq t e FIND)
     (\<lambda>t e. ixhtab0_perform P Hash Eq t e DELETE) (\<lambda>t e. ixhtab0_perform P Hash Eq t e INSERT) ix_store ix_load"

definition ixhtab0_iterate :: "'e ixhtab0 \<Rightarrow> 'e list option" where
  "ixhtab0_iterate t =
     do {
       it \<leftarrow> ixhtab0_iter_begin t;
       client_iterate ixhtab0_iter_valid (\<lambda>it. ix_load t (ptr it)) (ixhtab0_iter_next t) it
     }"

definition ixhtab0_range_for :: "nat \<Rightarrow> 'e ixhtab0 \<Rightarrow> 'e list option" where
  "ixhtab0_range_for this t =
     do {
       it \<leftarrow> ixhtab0_begin this t;
       client_iterate (\<lambda>it. ixhtab0_iter_neq it (ixhtab0_end this t)) (ixhtab0_deref t) (ixhtab0_incr t) it
     }"

section \<open>The methods compute what the C functions compute\<close>

lemma ixhtab0_consts: "ixhtab0_EMPTY_H7 = IXHT0_EMPTY_H7" "ixhtab0_INDEX_DELETED = IXHT0_INDEX_DELETED"
  unfolding ixhtab0_EMPTY_H7_def IXHT0_EMPTY_H7_def ixhtab0_INDEX_DELETED_def IXHT0_INDEX_DELETED_def by code_simp+

lemma ixhtab0_mask_scale_eq: "ixhtab0_mask_scale = IXHT0_MASK_SCALE"
  by (simp add: fun_eq_iff ixhtab0_mask_scale_def IXHT0_MASK_SCALE_def)

lemma ixhtab0_group_load_eq: "ixhtab0_group_load = ixht0_group_load"
  by (simp add: fun_eq_iff ixhtab0_group_load_def ixht0_group_load_def)

lemma ixhtab0_match_mask_eq: "ixhtab0_match_mask g h = ixht0_match_mask g h"
  by (cases g) (simp_all add: Let_def)

lemma ixhtab0_match_empty_eq: "ixhtab0_match_empty g = ixht0_match_empty g"
  by (cases g) (simp_all add: ixhtab0_match_mask_eq ixhtab0_consts)

lemma ixhtab0_slot_eq: "ixhtab0_slot = ixht0_slot"
  by (simp add: fun_eq_iff ixhtab0_slot_def ixht0_slot_def)

lemma ixhtab0_scan_eq: "ixhtab0_scan P Eq ixs xs gi el m fd = ixht0_scan P Eq ixs xs gi el m fd"
proof (induction P Eq ixs xs gi el m fd rule: ixht0_scan.induct)
  case (1 P Eq ixs xs gi el m fd)
  then show ?case
    unfolding ixhtab0_scan.simps [of P Eq ixs xs gi el m fd] ixht0_scan.simps [of P Eq ixs xs gi el m fd] ixhtab0_mask_scale_eq ixhtab0_slot_eq ixhtab0_consts
    by (auto split: Option.bind_split intro!: Option.bind_cong simp: Let_def)
qed

lemmas ixhtab0_scan_simps = ixhtab0_consts ixhtab0_mask_scale_eq ixhtab0_group_load_eq ixhtab0_match_mask_eq ixhtab0_match_empty_eq
  ixhtab0_slot_eq ixhtab0_scan_eq

lemma ixhtab0_probe_step_eq: "ixhtab0_probe_step = ixht0_probe_step"
  unfolding fun_eq_iff ixhtab0_probe_step_def ixht0_probe_step_def ixhtab0_scan_simps by simp

lemma ixhtab0_probe_eq: "ixhtab0_probe P Eq b h el g = ixht0_probe P Eq b h el g"
proof (rule option_eqI, rule iffI)
  fix r
  assume r: "ixhtab0_probe P Eq b h el g = Some r"
  have "case (((((P, Eq), b), h), el), g) of (((((P, Eq), b), h), el), g) \<Rightarrow> ixht0_probe P Eq b h el g = Some r"
    by (rule ixhtab0_probe.raw_induct [OF _ r], simp only: split, subst ixht0_probe.simps)
      (auto simp: ixhtab0_probe_step_eq split: option.splits sum.splits)
  then show "ixht0_probe P Eq b h el g = Some r" by (simp only: split)
next
  fix r
  assume r: "ixht0_probe P Eq b h el g = Some r"
  have "case (((((P, Eq), b), h), el), g) of (((((P, Eq), b), h), el), g) \<Rightarrow> ixhtab0_probe P Eq b h el g = Some r"
    by (rule ixht0_probe.raw_induct [OF _ r], simp only: split, subst ixhtab0_probe.simps)
      (auto simp: ixhtab0_probe_step_eq split: option.splits sum.splits)
  then show "ixhtab0_probe P Eq b h el g = Some r" by (simp only: split)
qed

lemma ixhtab0_do_1_eq: "ixhtab0_do_1 = ixht0_do_1"
  unfolding fun_eq_iff ixhtab0_do_1_def ixht0_do_1_def ixhtab0_probe_eq ixhtab0_scan_simps by simp

lemma ixhtab0_ops_eq: "ixhtab0_ops P Hash Eq = ixht0_ops P Hash Eq"
  by (simp add: ixhtab0_ops_def ixht0_ops_def ixhtab0_do_1_eq fun_eq_iff ixhtab0_init_bin_def ixht0_init_bin_def
      ixhtab0_clear_tags_def ixht0_clear_tags_def ixhtab0_regroup_def ixht0_regroup_def ixhtab0_scan_simps)

lemmas ixhtab0_table_defs = ixhtab0_create_def ixht0_create_def ixhtab0_split_bin_def ixht0_split_bin_def ixhtab0_perform_def
  ixht0_perform_def ixhtab0_els_count_def ixht0_els_count_def

lemma ixhtab0_table_eq: "ixhtab0_create P Hash Eq n = ixht0_create P Hash Eq n"
  "ixhtab0_split_bin P Hash Eq t i = ixht0_split_bin P Hash Eq t i"
  "ixhtab0_perform P Hash Eq t e a = ixht0_perform P Hash Eq t e a" "ixhtab0_els_count t = ixht0_els_count t"
  by (simp_all add: ixhtab0_table_defs ixhtab0_ops_eq)

lemma ixhtab0_step_eq: "ixhtab0_step P Hash Eq = ixht0_step P Hash Eq"
  by (simp add: ixhtab0_step_def ixht0_step_def ixhtab0_table_eq)

lemma ixhtab0_iterate_eq: "ixhtab0_iterate = ixht0_iterate"
  by (simp add: fun_eq_iff ixhtab0_iterate_def ixht0_iterate_def ixhtab0_iter_begin_def ixht0_iter_begin_def ixhtab0_iter_valid_def
      ixht0_iter_valid_def ixhtab0_iter_next_def ixht0_iter_next_def)

lemma ixhtab0_destroy_bin_eq: "ixhtab0_destroy_bin = ixht0_destroy_bin"
  by (simp add: fun_eq_iff ixhtab0_destroy_bin_def ixht0_destroy_bin_def)

lemma ixhtab0_destructor_eq: "ixhtab0_destructor = ixht0_destroy"
  by (simp add: ixhtab0_destructor_def ixht0_destroy_def ixhtab0_destroy_bin_eq)

lemma ixhtab0_range_for_eq: "ixhtab0_range_for = ix_range_for"
  by (simp add: fun_eq_iff ixhtab0_range_for_def ix_range_for_def ixhtab0_begin_def ixhtab0_iter_neq_def ixhtab0_end_def ixhtab0_deref_def ixhtab0_incr_def)

end
