(* ===== verification/Ixhtab_v0_hpp_Props.thy ===== *)
theory Ixhtab_v0_hpp_Props
  imports Ixhtab_v0_Props Ixhtab_v0_hpp
begin

text \<open>The properties of the C++ table of \<open>ixhtab-v0.hpp\<close>.\<close>

lemma ixhtab0_range_for_correct: "ixht0_inv Hash Eq t \<Longrightarrow> ixhtab0_range_for this t = Some (ixht0_abs t)"
  using ixht0_bins.range_for_collects [of SWAR Hash Eq t this] by (simp add: ixhtab0_range_for_eq)

text \<open>
  C39. A table of \<open>ixhtab-v0.hpp\<close> constructed for any size up to \<open>2 ^ 31\<close> answers every sequence of up to
  \<open>2 ^ 14\<close> insert, replace, remove and find commands as a list of the stored elements does, on every
  platform. Afterwards the range-based \<open>for\<close> loop, which compares the iterator with \<open>end ()\<close>, ends and
  visits exactly the stored elements, each once and in the order of the pointer iterator.
\<close>

theorem ixhtab0_client_run:
  assumes "hash_key Hash Eq" "min_size \<le> 2 ^ 31" "length cs \<le> 2 ^ 14"
  shows "\<exists>t t' xs t''. ixhtab0_create P Hash Eq min_size = Some t \<and>
    run_cmds (ixhtab0_step P Hash Eq) t cs = Some (fst (spec_run Eq [] cs), t') \<and>
    ixhtab0_range_for this t' = Some xs \<and> ixhtab0_iterate t' = Some xs \<and> mset xs = mset (snd (spec_run Eq [] cs)) \<and>
    unat (ixhtab0_els_count t') = length xs \<and> ixhtab0_destructor t' = Some t''"
proof -
  obtain t where t: "ixht0_create P Hash Eq min_size = Some t" "ixht0_inv Hash Eq t" "ixht0_abs t = []"
    using ixht0_create_correct [OF assms(2)] by blast
  obtain t' where t': "run_cmds (ixht0_step P Hash Eq) t cs = Some (fst (spec_run Eq [] cs), t')"
      "ixht0_inv Hash Eq t'" "mset (ixht0_abs t') = mset (snd (spec_run Eq [] cs))"
    using ixht0_run_refines [OF assms(1) t(2), of "[]" cs P] t assms(3) by auto
  have "ixhtab0_destructor t' = Some (t'\<lparr>bins := [], dir := []\<rparr>)"
    using ixht0_bins.destroy_ok [of P Hash Eq t'] t'(2) by (simp add: ixhtab0_destructor_eq ixht0_destroy_def)
  then show ?thesis
    unfolding ixhtab0_table_eq ixhtab0_step_eq ixhtab0_iterate_eq
    using t(1) t' ixht0_iterate_correct [OF t'(2)] ixht0_count [OF t'(2)] ixhtab0_range_for_correct [OF t'(2), of this] by blast
qed

theorem ixhtab0_client_run_witness:
  "\<exists>t t'. ixhtab0_create X86_SSE2 entry_hash entry_eq 8 = Some t \<and>
    run_cmds (ixhtab0_step X86_SSE2 entry_hash entry_eq) t entry_cmds =
      Some ([Flag False, Flag False, Flag True, Got (Some (mk_entry 42 100)), Flag True, Got None, Flag True], t') \<and>
    ixhtab0_range_for 1 t' = Some [mk_entry 7 2] \<and> unat (ixhtab0_els_count t') = 1"
  using ixhtab0_client_run [OF entry.hash_key_axioms, of 8 entry_cmds X86_SSE2 1] by (auto simp: entry_cmds_spec)


end
